(* ===== verification/Go_Prelude.thy ===== *)
theory Go_Prelude
  imports Main "HOL-Library.AList" "HOL-Library.Word"
begin

text \<open>
  Shared vocabulary of the development: Go's fixed-width signed integers, Go maps,
  decimal formatting, error values, and the list lemmas that several components use.

  A Go \<open>int64\<close> or \<open>int32\<close> is an \<open>int\<close>; every arithmetic operation whose result the code stores
  in such a variable is followed by \<open>i64\<close> or \<open>i32\<close>, the two's complement truncation, so that
  wrap-around is part of the model. Lengths of byte strings and files are not truncated: no
  file or slice reaches \<open>2 ^ 63\<close> bytes.
\<close>

named_theorems go_map_simps \<open>lookup laws of Go maps\<close>
named_theorems int_range \<open>range facts about the fixed-width integers\<close>

section \<open>Fixed-width integers\<close>

type_synonym byte = "8 word"
type_synonym bytes = "byte list"

definition i64 :: "int \<Rightarrow> int" where
  "i64 x = signed_take_bit 63 x"

definition i32 :: "int \<Rightarrow> int" where
  "i32 x = signed_take_bit 31 x"

definition in_i64 :: "int \<Rightarrow> bool" where
  "in_i64 x \<longleftrightarrow> - (2 ^ 63) \<le> x \<and> x < 2 ^ 63"

definition in_i32 :: "int \<Rightarrow> bool" where
  "in_i32 x \<longleftrightarrow> - (2 ^ 31) \<le> x \<and> x < 2 ^ 31"

lemma i64_id [int_range]: "- (2 ^ 63) \<le> x \<Longrightarrow> x < 2 ^ 63 \<Longrightarrow> i64 x = x"
  by (simp add: i64_def signed_take_bit_int_eq_self)

lemma i32_id [int_range]: "- (2 ^ 31) \<le> x \<Longrightarrow> x < 2 ^ 31 \<Longrightarrow> i32 x = x"
  by (simp add: i32_def signed_take_bit_int_eq_self)

lemma i64_in_id [simp]: "in_i64 x \<Longrightarrow> i64 x = x"
  by (simp add: in_i64_def i64_id)

lemma i32_in_id [simp]: "in_i32 x \<Longrightarrow> i32 x = x"
  by (simp add: in_i32_def i32_id)

lemma in_i64_i64 [simp]: "in_i64 (i64 x)"
  unfolding in_i64_def i64_def
  using signed_take_bit_int_greater_eq_minus_exp [of 63 x] signed_take_bit_int_less_exp [of 63 x]
  by blast

lemma in_i32_i32 [simp]: "in_i32 (i32 x)"
  unfolding in_i32_def i32_def
  using signed_take_bit_int_greater_eq_minus_exp [of 31 x] signed_take_bit_int_less_exp [of 31 x]
  by blast

lemma i64_wraps: "i64 (2 ^ 63) = - (2 ^ 63)"
  by (simp add: i64_def signed_take_bit_eq_if_negative)

lemma i64_diff: "i64 (i64 x - i64 y) = i64 (x - y)"
  by (simp add: i64_def signed_take_bit_diff)

lemma i64_add: "i64 (i64 x + i64 y) = i64 (x + y)"
  by (simp add: i64_def signed_take_bit_add)

lemma i64_idem [simp]: "i64 (i64 x) = i64 x" "i32 (i32 x) = i32 x"
  by simp_all

lemma i64_add_left: "i64 (i64 x + z) = i64 (x + z)"
  using i64_add [of x z] i64_add [of "i64 x" z] by simp

lemma i32_add_left: "i32 (i32 x + z) = i32 (x + z)"
  using signed_take_bit_add [of 31 x z] signed_take_bit_add [of 31 "i32 x" z] by (simp add: i32_def)

lemma i64_post_increment [simp]: "in_i64 x \<Longrightarrow> i64 (i64 (x + 1) - 1) = x"
  using i64_diff [of "x + 1" 1] by (simp add: i64_id [of 1])

section \<open>Error values\<close>

text \<open>
  \<open>ErrIO\<close> is an error of the operating system, whose text is not modelled; \<open>Errorf\<close> is
  \<open>fmt.Errorf\<close> with its formatted text, \<open>ErrWrap\<close> the same with a wrapped error (\<open>%w\<close>).
\<close>

datatype go_error = ErrIO | Errorf string | ErrWrap string go_error

section \<open>Decimal formatting\<close>

definition digit_char :: "nat \<Rightarrow> char" where
  "digit_char d = char_of (48 + d)"

definition char_digit :: "char \<Rightarrow> nat" where
  "char_digit c = of_char c - 48"

fun nat_digits :: "nat \<Rightarrow> string" where
  "nat_digits n =
     (if n < 10 then [digit_char n] else nat_digits (n div 10) @ [digit_char (n mod 10)])"

declare nat_digits.simps [simp del]

definition fmt_d :: "int \<Rightarrow> string" where
  "fmt_d i = (if i < 0 then ''-'' @ nat_digits (nat (- i)) else nat_digits (nat i))"

definition zero_pad :: "nat \<Rightarrow> string \<Rightarrow> string" where
  "zero_pad w s = replicate (w - length s) (CHR ''0'') @ s"

definition fmt_020d :: "int \<Rightarrow> string" where
  "fmt_020d i = (if i < 0 then ''-'' @ zero_pad 19 (nat_digits (nat (- i)))
                 else zero_pad 20 (nat_digits (nat i)))"

definition digits_val :: "string \<Rightarrow> nat" where
  "digits_val s = foldl (\<lambda>a c. 10 * a + char_digit c) 0 s"

lemma char_digit_char [simp]: "d < 10 \<Longrightarrow> char_digit (digit_char d) = d"
  by (simp add: char_digit_def digit_char_def of_char_of)

lemma digits_val_snoc [simp]: "digits_val (s @ [c]) = 10 * digits_val s + char_digit c"
  by (simp add: digits_val_def)

lemma digits_val_nat_digits [simp]: "digits_val (nat_digits n) = n"
proof (induction n rule: nat_digits.induct)
  case (1 n)
  show ?case
  proof (cases "n < 10")
    case True
    then show ?thesis by (subst nat_digits.simps) (simp add: digits_val_def)
  next
    case False
    then have "digits_val (nat_digits n) = 10 * (n div 10) + n mod 10"
      using 1 by (subst nat_digits.simps) simp
    then show ?thesis by simp
  qed
qed

lemma digits_val_replicate0: "digits_val (replicate k (CHR ''0'') @ s) = digits_val s"
proof -
  have "foldl (\<lambda>a c. 10 * a + char_digit c) 0 (replicate k (CHR ''0'')) = 0"
    by (induction k) (simp_all add: char_digit_def)
  then show ?thesis by (simp add: digits_val_def)
qed

lemma digits_val_zero_pad [simp]: "digits_val (zero_pad w s) = digits_val s"
  by (simp add: zero_pad_def digits_val_replicate0)

lemma of_char_digit_char [simp]: "d < 10 \<Longrightarrow> (of_char (digit_char d) :: nat) = 48 + d"
  by (simp add: digit_char_def of_char_of)

lemma nat_digits_chars: "c \<in> set (nat_digits n) \<Longrightarrow> (of_char c :: nat) \<in> {48..57}"
proof (induction n rule: nat_digits.induct)
  case (1 n)
  then show ?case
    by (cases "n < 10") (auto simp: nat_digits.simps [of n])
qed

lemma slash_notin_nat_digits [simp]: "CHR ''/'' \<notin> set (nat_digits n)"
  using nat_digits_chars [of "CHR ''/''" n] by auto

lemma minus_notin_nat_digits [simp]: "CHR ''-'' \<notin> set (nat_digits n)"
  using nat_digits_chars [of "CHR ''-''" n] by auto

lemma slash_notin_fmt_d [simp]: "CHR ''/'' \<notin> set (fmt_d i)"
  by (simp add: fmt_d_def)

lemma nat_digits_inject [simp]: "nat_digits m = nat_digits n \<longleftrightarrow> m = n"
  using digits_val_nat_digits by metis

lemma nat_digits_not_Nil [simp]: "nat_digits n \<noteq> []"
  by (subst nat_digits.simps) simp

lemma nat_digits_not_minus [simp]:
  "nat_digits n \<noteq> CHR ''-'' # s" "CHR ''-'' # s \<noteq> nat_digits n"
  using minus_notin_nat_digits [of n] by (metis list.set_intros(1))+

lemma fmt_d_inject [simp]: "fmt_d i = fmt_d j \<longleftrightarrow> i = j"
  by (auto simp: fmt_d_def)

lemma fmt_020d_inject: "0 \<le> i \<Longrightarrow> 0 \<le> j \<Longrightarrow> fmt_020d i = fmt_020d j \<longleftrightarrow> i = j"
  unfolding fmt_020d_def
  by (metis digits_val_nat_digits digits_val_zero_pad eq_nat_nat_iff not_less)

lemma length_nat_digits: "n < 10 ^ k \<Longrightarrow> 0 < k \<Longrightarrow> length (nat_digits n) \<le> k"
proof (induction n arbitrary: k rule: nat_digits.induct)
  case (1 n)
  show ?case
  proof (cases "n < 10")
    case True
    then show ?thesis using 1 by (simp add: nat_digits.simps [of n])
  next
    case False
    then obtain j where k: "k = Suc j" "0 < j"
      using 1(2,3) by (cases k; cases "k - 1") auto
    with 1(2) have "n div 10 < 10 ^ j" by (simp add: less_mult_imp_div_less mult.commute)
    with 1(1) False k show ?thesis by (simp add: nat_digits.simps [of n])
  qed
qed

lemma length_fmt_020d: "0 \<le> i \<Longrightarrow> i < 2 ^ 63 \<Longrightarrow> length (fmt_020d i) = 20"
  using length_nat_digits [of "nat i" 20] by (simp add: fmt_020d_def zero_pad_def nat_less_iff)

lemma split_at_last_sep:
  assumes "a @ c # x = b @ c # y" "c \<notin> set x" "c \<notin> set y"
  shows "a = b \<and> x = y"
proof -
  have eq: "rev x @ c # rev a = rev y @ c # rev b"
    using arg_cong [OF assms(1), of rev] by simp
  have tw: "takeWhile (\<lambda>d. d \<noteq> c) (rev z @ c # w) = rev z" if "c \<notin> set z" for z w
    using that by (subst takeWhile_append2) auto
  have "rev x = rev y"
    using arg_cong [OF eq, of "takeWhile (\<lambda>d. d \<noteq> c)"] tw assms(2,3) by simp
  with eq show ?thesis by simp
qed

section \<open>Go maps\<close>

text \<open>
  A Go map is an association list: its order is the order a \<open>range\<close> loop visits, which the
  language leaves open, so facts about code that ranges over a map are stated for every order.
\<close>

type_synonym ('k, 'v) gomap = "('k \<times> 'v) list"

definition gm_empty :: "('k, 'v) gomap" where
  "gm_empty = []"

definition gm_get :: "('k, 'v) gomap \<Rightarrow> 'k \<Rightarrow> 'v option" where
  "gm_get m k = map_of m k"

definition gm_put :: "('k, 'v) gomap \<Rightarrow> 'k \<Rightarrow> 'v \<Rightarrow> ('k, 'v) gomap" where
  "gm_put m k v = AList.update k v m"

definition gm_del :: "('k, 'v) gomap \<Rightarrow> 'k \<Rightarrow> ('k, 'v) gomap" where
  "gm_del m k = AList.delete k m"

definition gm_keys :: "('k, 'v) gomap \<Rightarrow> 'k list" where
  "gm_keys m = map fst m"

definition gm_wf :: "('k, 'v) gomap \<Rightarrow> bool" where
  "gm_wf m \<longleftrightarrow> distinct (gm_keys m)"

text \<open>
  The interface every component uses its maps through: what a lookup returns after an insert
  or a delete, and that the keys enumerated by a \<open>range\<close> loop are the ones present, once each.
\<close>

locale go_map =
  fixes empty :: "'m"
    and get :: "'m \<Rightarrow> 'k \<Rightarrow> 'v option"
    and put :: "'m \<Rightarrow> 'k \<Rightarrow> 'v \<Rightarrow> 'm"
    and del :: "'m \<Rightarrow> 'k \<Rightarrow> 'm"
    and keys :: "'m \<Rightarrow> 'k list"
    and wf :: "'m \<Rightarrow> bool"
  assumes get_empty: "get empty k = None"
    and get_put: "get (put m k v) k' = (if k' = k then Some v else get m k')"
    and get_del: "get (del m k) k' = (if k' = k then None else get m k')"
    and set_keys: "set (keys m) = {k. get m k \<noteq> None}"
    and wf_keys: "wf m \<Longrightarrow> distinct (keys m)"
    and wf_empty: "wf empty"
    and wf_put: "wf m \<Longrightarrow> wf (put m k v)"
    and wf_del: "wf m \<Longrightarrow> wf (del m k)"
begin

lemma put_same: "get (put m k v) k = Some v"
  by (simp add: get_put)

lemma put_other: "k' \<noteq> k \<Longrightarrow> get (put m k v) k' = get m k'"
  by (simp add: get_put)

lemma set_keys_put: "set (keys (put m k v)) = insert k (set (keys m))"
  by (auto simp: set_keys get_put)

lemma set_keys_del: "set (keys (del m k)) = set (keys m) - {k}"
  by (auto simp: set_keys get_del)

lemma length_keys: "wf m \<Longrightarrow> length (keys m) = card {k. get m k \<noteq> None}"
  using distinct_card [OF wf_keys] by (simp add: set_keys)

lemma get_puts:
  "get (foldl (\<lambda>m (k, v). put m k v) m kvs) k =
     (case map_of (rev kvs) k of None \<Rightarrow> get m k | Some v \<Rightarrow> Some v)"
  by (induction kvs arbitrary: m) (auto simp: get_put map_add_def split: option.splits)

lemma keys_determined:
  assumes "wf m" "wf m'" "\<And>k. (get m k = None) = (get m' k = None)"
  shows "distinct (keys m) \<and> distinct (keys m') \<and> set (keys m) = set (keys m')"
  using assms by (simp add: wf_keys set_keys)

end

interpretation gm: go_map gm_empty gm_get gm_put gm_del gm_keys gm_wf
proof unfold_locales
  show "set (gm_keys m) = {k. gm_get m k \<noteq> None}" for m :: "('k, 'v) gomap"
    by (auto simp: gm_keys_def gm_get_def map_of_eq_None_iff image_iff)
qed (auto simp: gm_empty_def gm_get_def gm_put_def gm_del_def gm_keys_def gm_wf_def
      AList.update_conv' AList.delete_conv' AList.distinct_update AList.distinct_delete)

lemmas gm_lookup [simp, go_map_simps] = gm.get_empty gm.get_put gm.get_del
lemmas gm_wf_intros [simp, intro] = gm.wf_empty gm.wf_put gm.wf_del

end
