(* ===== verification/Go_Files.thy ===== *)
theory Go_Files
  imports Go_Prelude
begin

text \<open>
  The part of Go's \<open>os\<close> and \<open>io\<close> packages that the storage layer calls. A file system is the
  contents of its files and a schedule of outcomes for the calls to come: each fallible call
  consumes one outcome, \<open>IoOk\<close>, or \<open>IoErr n\<close>, an error after \<open>n\<close> bytes were transferred. An
  empty schedule means that every further call succeeds, so quantifying over the schedule
  covers every pattern of failures, short writes included.
\<close>

datatype io = IoOk | IoErr nat

record fs =
  files :: "(string, bytes) gomap"
  sched :: "io list"

definition io_next :: "fs \<Rightarrow> io \<times> fs" where
  "io_next f = (case sched f of [] \<Rightarrow> (IoOk, f) | i # is \<Rightarrow> (i, f\<lparr>sched := is\<rparr>))"

definition content :: "fs \<Rightarrow> string \<Rightarrow> bytes" where
  "content f path = (case gm_get (files f) path of None \<Rightarrow> [] | Some bs \<Rightarrow> bs)"

definition fexists :: "fs \<Rightarrow> string \<Rightarrow> bool" where
  "fexists f path \<longleftrightarrow> gm_get (files f) path \<noteq> None"

definition healthy :: "fs \<Rightarrow> bool" where
  "healthy f \<longleftrightarrow> sched f = []"

text \<open>\<open>os.MkdirAll\<close>: directories carry no data, only the outcome matters.\<close>

definition os_MkdirAll :: "fs \<Rightarrow> string \<Rightarrow> bool \<times> fs" where
  "os_MkdirAll f dir = (case io_next f of (IoOk, f') \<Rightarrow> (True, f') | (IoErr _, f') \<Rightarrow> (False, f'))"

definition touch :: "fs \<Rightarrow> string \<Rightarrow> fs" where
  "touch f path = (if fexists f path then f else f\<lparr>files := gm_put (files f) path []\<rparr>)"

text \<open>\<open>os.OpenFile\<close> with \<open>O_CREATE|O_RDWR|O_APPEND\<close>: an existing file keeps its contents.\<close>

definition os_OpenAppend :: "fs \<Rightarrow> string \<Rightarrow> bool \<times> fs" where
  "os_OpenAppend f path =
     (case io_next f of
        (IoErr _, f') \<Rightarrow> (False, f')
      | (IoOk, f') \<Rightarrow> (True, touch f' path))"

text \<open>\<open>File.Write\<close> on a file opened for appending; a failing write may leave a prefix behind.\<close>

definition os_Write :: "fs \<Rightarrow> string \<Rightarrow> bytes \<Rightarrow> go_error option \<times> fs" where
  "os_Write f path buf =
     (case io_next f of
        (IoOk, f') \<Rightarrow> (None, f'\<lparr>files := gm_put (files f') path (content f' path @ buf)\<rparr>)
      | (IoErr n, f') \<Rightarrow>
          (Some ErrIO, f'\<lparr>files := gm_put (files f') path (content f' path @ take n buf)\<rparr>))"

text \<open>\<open>os.Open\<close> for reading; the handle is the contents still to be read.\<close>

definition os_OpenRead :: "fs \<Rightarrow> string \<Rightarrow> bytes option \<times> fs" where
  "os_OpenRead f path =
     (case io_next f of (IoOk, f') \<Rightarrow> (gm_get (files f') path, f') | (IoErr _, f') \<Rightarrow> (None, f'))"

text \<open>\<open>File.Seek\<close> from the start; past the end is allowed, a negative position is an error.\<close>

definition os_SeekStart :: "fs \<Rightarrow> bytes \<Rightarrow> int \<Rightarrow> bytes option \<times> fs" where
  "os_SeekStart f h pos =
     (case io_next f of
        (IoOk, f') \<Rightarrow> (if pos < 0 then None else Some (drop (nat pos) h), f')
      | (IoErr _, f') \<Rightarrow> (None, f'))"

text \<open>\<open>io.ReadFull\<close>: all \<open>n\<close> bytes or an error; an empty buffer reads nothing and succeeds.\<close>

definition io_ReadFull :: "fs \<Rightarrow> bytes \<Rightarrow> nat \<Rightarrow> (bytes \<times> bytes) option \<times> fs" where
  "io_ReadFull f h n =
     (if n = 0 then (Some ([], h), f)
      else case io_next f of
        (IoErr _, f') \<Rightarrow> (None, f')
      | (IoOk, f') \<Rightarrow> (if length h < n then None else Some (take n h, drop n h), f'))"

section \<open>Reading changes no file\<close>

lemma io_next_files [simp]: "files (snd (io_next f)) = files f"
  by (simp add: io_next_def split: list.split)

lemma io_next_healthy [simp]: "healthy f \<Longrightarrow> io_next f = (IoOk, f)"
  by (simp add: io_next_def healthy_def)

lemma io_next_cases:
  obtains i f' where "io_next f = (i, f')" "files f' = files f"
  by (metis io_next_files prod.collapse)

lemma ReadFull_files: "io_ReadFull f h n = (r, f') \<Longrightarrow> files f' = files f"
  by (cases f rule: io_next_cases) (auto simp: io_ReadFull_def split: if_splits io.splits)

lemma OpenRead_files: "os_OpenRead f p = (r, f') \<Longrightarrow> files f' = files f"
  by (cases f rule: io_next_cases) (auto simp: os_OpenRead_def split: io.splits)

lemma SeekStart_files: "os_SeekStart f h n = (r, f') \<Longrightarrow> files f' = files f"
  by (cases f rule: io_next_cases) (auto simp: os_SeekStart_def split: io.splits)

lemma ReadFull_Some: "io_ReadFull f h n = (Some (b, h'), f') \<Longrightarrow> h = b @ h' \<and> length b = n"
  by (cases f rule: io_next_cases) (auto simp: io_ReadFull_def split: if_splits io.splits)

section \<open>The calls on a healthy file system\<close>

lemma healthy_MkdirAll [simp]: "healthy f \<Longrightarrow> os_MkdirAll f d = (True, f)"
  by (simp add: os_MkdirAll_def)

lemma healthy_OpenAppend [simp]: "healthy f \<Longrightarrow> os_OpenAppend f p = (True, touch f p)"
  by (simp add: os_OpenAppend_def)

lemma healthy_Write:
  "healthy f \<Longrightarrow> os_Write f p b = (None, f\<lparr>files := gm_put (files f) p (content f p @ b)\<rparr>)"
  by (simp add: os_Write_def)

lemma healthy_OpenRead [simp]: "healthy f \<Longrightarrow> os_OpenRead f p = (gm_get (files f) p, f)"
  by (simp add: os_OpenRead_def)

lemma healthy_SeekStart [simp]:
  "healthy f \<Longrightarrow> os_SeekStart f h n = (if n < 0 then None else Some (drop (nat n) h), f)"
  by (simp add: os_SeekStart_def)

lemma healthy_ReadFull [simp]:
  "healthy f \<Longrightarrow> io_ReadFull f h n = (if length h < n then None else Some (take n h, drop n h), f)"
  by (auto simp: io_ReadFull_def)

lemma healthy_update [simp]: "healthy (f\<lparr>files := fl\<rparr>) = healthy f"
  by (simp add: healthy_def)

lemma content_put [simp]:
  "content (f\<lparr>files := gm_put fl p b\<rparr>) q = (if q = p then b else content (f\<lparr>files := fl\<rparr>) q)"
  by (simp add: content_def)

lemma content_same [simp]: "content (f\<lparr>files := files f\<rparr>) q = content f q"
  by simp

lemma fexists_put [simp]:
  "fexists (f\<lparr>files := gm_put fl p b\<rparr>) q = (q = p \<or> fexists (f\<lparr>files := fl\<rparr>) q)"
  by (simp add: fexists_def)

lemma healthy_touch [simp]: "healthy (touch f p) = healthy f"
  by (simp add: touch_def)

lemma fexists_touch [simp]: "fexists (touch f p) q \<longleftrightarrow> q = p \<or> fexists f q"
  by (auto simp: touch_def)

lemma content_touch [simp]: "content (touch f p) q = content f q"
  by (auto simp: touch_def content_def fexists_def)

lemma get_content: "fexists f p \<Longrightarrow> gm_get (files f) p = Some (content f p)"
  by (auto simp: fexists_def content_def)

lemma content_not_exists: "\<not> fexists f p \<Longrightarrow> content f p = []"
  by (simp add: fexists_def content_def)

end
