(* ===== verification/Record_Codec.thy ===== *)
theory Record_Codec
  imports Go_Prelude
begin

text \<open>
  The on-disk record of \<open>internal/broker/segment.go\<close>: a 24 byte header (offset, timestamp, key
  length, value length, all big endian) followed by the key and the value. The encoder is the
  buffer \<open>Segment.Append\<close> fills, the decoder the header reads of \<open>Segment.Read\<close>. The interface
  \<open>framed_codec\<close> is what the log needs of such a format; the record codec interprets it.
\<close>

unbundle bit_operations_syntax

section \<open>encoding/binary\<close>

definition put_be64 :: "64 word \<Rightarrow> bytes" where
  "put_be64 w = map (\<lambda>k. ucast (drop_bit k w)) [56, 48, 40, 32, 24, 16, 8, 0]"

definition put_be32 :: "32 word \<Rightarrow> bytes" where
  "put_be32 w = map (\<lambda>k. ucast (drop_bit k w)) [24, 16, 8, 0]"

definition get_be64 :: "bytes \<Rightarrow> 64 word" where
  "get_be64 b =
     ucast (b ! 7) OR push_bit 8 (ucast (b ! 6)) OR push_bit 16 (ucast (b ! 5)) OR
     push_bit 24 (ucast (b ! 4)) OR push_bit 32 (ucast (b ! 3)) OR push_bit 40 (ucast (b ! 2)) OR
     push_bit 48 (ucast (b ! 1)) OR push_bit 56 (ucast (b ! 0))"

definition get_be32 :: "bytes \<Rightarrow> 32 word" where
  "get_be32 b =
     ucast (b ! 3) OR push_bit 8 (ucast (b ! 2)) OR push_bit 16 (ucast (b ! 1)) OR
     push_bit 24 (ucast (b ! 0))"

lemma length_put_be [simp]: "length (put_be64 w) = 8" "length (put_be32 v) = 4"
  by (simp_all add: put_be64_def put_be32_def)

lemma bit_byte_at:
  "bit (push_bit k (ucast (ucast (drop_bit k w) :: 8 word)) :: 'a::len word) n \<longleftrightarrow>
     k \<le> n \<and> n < k + 8 \<and> bit (w :: 'a word) n"
  by (auto simp: bit_simps dest: bit_imp_le_length)

lemma get_put_be64 [simp]: "get_be64 (put_be64 w) = w"
proof (rule bit_word_eqI)
  fix n :: nat
  assume "n < LENGTH(64)"
  then have "n < 64" by simp
  then show "bit (get_be64 (put_be64 w)) n \<longleftrightarrow> bit w n"
    using bit_byte_at [of 0 w n]
    by (simp add: get_be64_def put_be64_def bit_or_iff bit_byte_at) (arith | blast)
qed

lemma get_put_be32 [simp]: "get_be32 (put_be32 w) = w"
proof (rule bit_word_eqI)
  fix n :: nat
  assume "n < LENGTH(32)"
  then have "n < 32" by simp
  then show "bit (get_be32 (put_be32 w)) n \<longleftrightarrow> bit w n"
    using bit_byte_at [of 0 w n]
    by (simp add: get_be32_def put_be32_def bit_or_iff bit_byte_at) (arith | blast)
qed

section \<open>Messages\<close>

record Message =
  m_Offset :: int
  m_Timestamp :: int
  m_Key :: bytes
  m_Value :: bytes

definition headerSize :: int where
  "headerSize = 24"

definition wf_msg :: "Message \<Rightarrow> bool" where
  "wf_msg m \<longleftrightarrow> in_i64 (m_Offset m) \<and> in_i64 (m_Timestamp m) \<and>
     length (m_Key m) < 2 ^ 32 \<and> length (m_Value m) < 2 ^ 32"

definition encode_header :: "Message \<Rightarrow> bytes" where
  "encode_header m =
     put_be64 (word_of_int (m_Offset m)) @ put_be64 (word_of_int (m_Timestamp m)) @
     put_be32 (word_of_nat (length (m_Key m))) @ put_be32 (word_of_nat (length (m_Value m)))"

definition encode_msg :: "Message \<Rightarrow> bytes" where
  "encode_msg m = encode_header m @ m_Key m @ m_Value m"

text \<open>The header fields \<open>Segment.Read\<close> extracts: offset, timestamp, key and value length.\<close>

definition decode_header :: "bytes \<Rightarrow> int \<times> int \<times> nat \<times> nat" where
  "decode_header h =
     (sint (get_be64 (take 8 h)), sint (get_be64 (take 8 (drop 8 h))),
      unat (get_be32 (take 4 (drop 16 h))), unat (get_be32 (take 4 (drop 20 h))))"

text \<open>One whole record off the front of a byte string, \<open>None\<close> when it is cut short.\<close>

definition decode_msg :: "bytes \<Rightarrow> (Message \<times> bytes) option" where
  "decode_msg bs =
     (if length bs < 24 then None
      else case decode_header (take 24 bs) of (off, ts, kl, vl) \<Rightarrow>
        let body = drop 24 bs in
        if length body < kl + vl then None
        else Some (\<lparr>m_Offset = off, m_Timestamp = ts, m_Key = take kl body,
                     m_Value = drop kl (take (kl + vl) body)\<rparr>, drop (kl + vl) body))"

definition msg_size :: "Message \<Rightarrow> int" where
  "msg_size m = headerSize + int (length (m_Key m)) + int (length (m_Value m))"

lemma length_encode_header [simp]: "length (encode_header m) = 24"
  by (simp add: encode_header_def)

lemma length_encode_msg: "length (encode_msg m) = 24 + length (m_Key m) + length (m_Value m)"
  by (simp add: encode_msg_def)

lemma int_length_encode_msg: "int (length (encode_msg m)) = msg_size m"
  by (simp add: length_encode_msg msg_size_def headerSize_def)

lemma msg_size_pos [simp]: "0 < msg_size m"
  by (simp add: msg_size_def headerSize_def)

lemma sint_of_i64: "in_i64 x \<Longrightarrow> sint (word_of_int x :: 64 word) = x"
  by (simp add: in_i64_def sint_sbintrunc' signed_take_bit_int_eq_self)

lemma unat_of_u32: "n < 2 ^ 32 \<Longrightarrow> unat (word_of_nat n :: 32 word) = n"
  by (simp add: unat_of_nat)

lemma decode_encode_header:
  assumes "wf_msg m"
  shows "decode_header (encode_header m) =
    (m_Offset m, m_Timestamp m, length (m_Key m), length (m_Value m))"
proof -
  have "in_i64 (m_Offset m)" "in_i64 (m_Timestamp m)"
    "length (m_Key m) < 2 ^ 32" "length (m_Value m) < 2 ^ 32"
    using assms unfolding wf_msg_def by blast+
  then show ?thesis
    by (simp only: decode_header_def encode_header_def) (simp add: sint_of_i64 unat_of_u32 del: power_numeral)
qed

lemma decode_encode_msg:
  assumes "wf_msg m"
  shows "decode_msg (encode_msg m @ rest) = Some (m, rest)"
  using assms
  by (simp add: decode_msg_def encode_msg_def decode_encode_header [OF assms] Let_def)

lemma encode_msg_not_Nil [simp]: "encode_msg m \<noteq> []"
  using length_encode_msg [of m] by (metis add_is_0 length_0_conv zero_neq_numeral)

section \<open>The interface of a framed record format\<close>

locale framed_codec =
  fixes enc :: "'m \<Rightarrow> bytes"
    and dec :: "bytes \<Rightarrow> ('m \<times> bytes) option"
    and ok :: "'m \<Rightarrow> bool"
  assumes dec_enc: "ok m \<Longrightarrow> dec (enc m @ rest) = Some (m, rest)"
    and enc_nonempty: "enc m \<noteq> []"
begin

lemma enc_prefix_free:
  "ok m \<Longrightarrow> ok m' \<Longrightarrow> enc m @ r = enc m' @ r' \<Longrightarrow> m = m' \<and> r = r'"
  by (metis dec_enc option.inject prod.inject)

lemma log_bytes_inject:
  "list_all ok ms \<Longrightarrow> list_all ok ms' \<Longrightarrow>
   concat (map enc ms) = concat (map enc ms') \<Longrightarrow> ms = ms'"
proof (induction ms arbitrary: ms')
  case Nil
  then show ?case using enc_nonempty [of "hd ms'"] by (cases ms') simp_all
next
  case (Cons m ms)
  have "ms' \<noteq> []" using Cons.prems(3) enc_nonempty [of m] by (cases ms') simp_all
  then obtain m' ms'' where ms': "ms' = m' # ms''" by (cases ms') simp_all
  have ok: "ok m" "list_all ok ms" "ok m'" "list_all ok ms''"
    using Cons.prems(1,2) ms' by simp_all
  have "enc m @ concat (map enc ms) = enc m' @ concat (map enc ms'')"
    using Cons.prems(3) unfolding ms' list.map concat.simps .
  then have "m = m' \<and> concat (map enc ms) = concat (map enc ms'')"
    by (rule enc_prefix_free [OF ok(1,3)])
  then show ?case
    using Cons.IH [OF ok(2,4)] ms' by blast
qed

end

interpretation rec_codec: framed_codec encode_msg decode_msg wf_msg
  by unfold_locales (rule decode_encode_msg, assumption, rule encode_msg_not_Nil)

end
