(* ===== verification/Segment_Log.thy ===== *)
theory Segment_Log
  imports Go_Files Record_Codec
begin

text \<open>
  \<open>internal/broker/segment.go\<close>: an append-only log file with a sparse index. The state is the
  \<open>Segment\<close> record and the file system its two files live in. \<open>seg_holds\<close> relates both to the
  list of messages the segment stores; \<open>read_spec\<close> is what a read of that list returns.
\<close>

section \<open>State and operations\<close>

record indexEntry =
  ie_offset :: int
  ie_position :: int

record Segment =
  baseOffset :: int
  logFile :: string
  indexFile :: string
  seg_size :: int
  maxSize :: int
  seg_index :: "indexEntry list"
  createdAt :: int
  seg_closed :: bool

definition logPath :: "string \<Rightarrow> int \<Rightarrow> string" where
  "logPath dir base = dir @ ''/'' @ fmt_020d base @ ''.log''"

definition idxPath :: "string \<Rightarrow> int \<Rightarrow> string" where
  "idxPath dir base = dir @ ''/'' @ fmt_020d base @ ''.index''"

definition newSegment :: "fs \<Rightarrow> string \<Rightarrow> int \<Rightarrow> int \<Rightarrow> int \<Rightarrow> (go_error + Segment) \<times> fs" where
  "newSegment f dir base maxSz now =
     (case os_MkdirAll f dir of
        (False, f1) \<Rightarrow> (Inl ErrIO, f1)
      | (True, f1) \<Rightarrow>
     (case os_OpenAppend f1 (logPath dir base) of
        (False, f2) \<Rightarrow> (Inl ErrIO, f2)
      | (True, f2) \<Rightarrow>
     (case os_OpenAppend f2 (idxPath dir base) of
        (False, f3) \<Rightarrow> (Inl ErrIO, f3)
      | (True, f3) \<Rightarrow>
          (Inr \<lparr>baseOffset = base, logFile = logPath dir base, indexFile = idxPath dir base,
                seg_size = int (length (content f3 (logPath dir base))), maxSize = maxSz,
                seg_index = [], createdAt = now, seg_closed = False\<rparr>, f3))))"

definition encode_index :: "int \<Rightarrow> int \<Rightarrow> bytes" where
  "encode_index off pos = put_be64 (word_of_int off) @ put_be64 (word_of_int pos)"

text \<open>\<open>File.Write\<close> through a descriptor of the segment: an error once it has been closed.\<close>

definition seg_write :: "fs \<Rightarrow> Segment \<Rightarrow> string \<Rightarrow> bytes \<Rightarrow> go_error option \<times> fs" where
  "seg_write f s path buf = (if seg_closed s then (Some ErrIO, f) else os_Write f path buf)"

definition Segment_Append :: "fs \<Rightarrow> Segment \<Rightarrow> Message \<Rightarrow> go_error option \<times> Segment \<times> fs" where
  "Segment_Append f s m =
     (let pos = seg_size s; buf = encode_msg m in
      case seg_write f s (logFile s) buf of
        (Some e, f1) \<Rightarrow> (Some e, s, f1)
      | (None, f1) \<Rightarrow>
          let s1 = s\<lparr>seg_size := seg_size s + int (length buf)\<rparr> in
          if length (seg_index s1) mod 8 = 0
          then let f2 = snd (seg_write f1 s1 (indexFile s1) (encode_index (m_Offset m) pos)) in
               (None, s1\<lparr>seg_index := seg_index s1 @
                          [\<lparr>ie_offset = m_Offset m, ie_position = pos\<rparr>]\<rparr>, f2)
          else (None, s1, f1))"

fun find_pos :: "indexEntry list \<Rightarrow> int \<Rightarrow> int \<Rightarrow> int" where
  "find_pos [] off pos = pos"
| "find_pos (e # es) off pos =
     (if ie_offset e > off then pos else find_pos es off (ie_position e))"

definition findPosition :: "Segment \<Rightarrow> int \<Rightarrow> int" where
  "findPosition s off = find_pos (seg_index s) off 0"

text \<open>
  The loop of \<open>Segment.Read\<close>: \<open>h\<close> is what remains of the open file, \<open>tot\<close> the bytes counted
  so far. Every round that goes on has consumed a header, so it ends.
\<close>

function read_loop :: "fs \<Rightarrow> bytes \<Rightarrow> int \<Rightarrow> int \<Rightarrow> int \<Rightarrow> Message list \<times> fs" where
  "read_loop f h fromOffset maxBytes tot =
     (if tot < maxBytes then
        (case io_ReadFull f h 24 of
           (None, f1) \<Rightarrow> ([], f1)
         | (Some (hdr, h1), f1) \<Rightarrow>
             (case decode_header hdr of (off, ts, keyLen, valLen) \<Rightarrow>
             (case io_ReadFull f1 h1 (keyLen + valLen) of
                (None, f2) \<Rightarrow> ([], f2)
              | (Some (body, h2), f2) \<Rightarrow>
                  if off < fromOffset then read_loop f2 h2 fromOffset maxBytes tot
                  else case read_loop f2 h2 fromOffset maxBytes
                              (tot + headerSize + int keyLen + int valLen) of
                    (ms, f3) \<Rightarrow>
                      (\<lparr>m_Offset = off, m_Timestamp = ts, m_Key = take keyLen body,
                        m_Value = drop keyLen body\<rparr> # ms, f3))))
      else ([], f))"
  by pat_completeness auto
termination
  by (relation "measure (\<lambda>(f, h, _). length h)") (auto dest!: ReadFull_Some [OF sym] ReadFull_Some)

declare read_loop.simps [simp del]

definition Segment_Read :: "fs \<Rightarrow> Segment \<Rightarrow> int \<Rightarrow> int \<Rightarrow> (go_error + Message list) \<times> fs" where
  "Segment_Read f s fromOffset maxBytes =
     (let startPos = findPosition s fromOffset in
      case os_OpenRead f (logFile s) of
        (None, f1) \<Rightarrow> (Inl ErrIO, f1)
      | (Some h, f1) \<Rightarrow>
     (case os_SeekStart f1 h startPos of
        (None, f2) \<Rightarrow> (Inl ErrIO, f2)
      | (Some h', f2) \<Rightarrow>
          (case read_loop f2 h' fromOffset maxBytes 0 of (ms, f3) \<Rightarrow> (Inr ms, f3))))"

definition IsFull :: "Segment \<Rightarrow> bool" where
  "IsFull s \<longleftrightarrow> seg_size s \<ge> maxSize s"

text \<open>\<open>Segment.Close\<close>: the results of \<open>Sync\<close> and of closing the log file are dropped.\<close>

definition Segment_Close :: "fs \<Rightarrow> Segment \<Rightarrow> go_error option \<times> Segment \<times> fs" where
  "Segment_Close f s =
     (if seg_closed s then (Some ErrIO, s, f)
      else case io_next f of
        (IoOk, f') \<Rightarrow> (None, s\<lparr>seg_closed := True\<rparr>, f')
      | (IoErr _, f') \<Rightarrow> (Some ErrIO, s\<lparr>seg_closed := True\<rparr>, f'))"

section \<open>What a read returns\<close>

text \<open>
  \<open>log_bytes\<close> is the file that holds a list of records. A read with a byte budget takes records
  until the bytes already taken reach the budget, so the last one may exceed it.
\<close>

definition log_bytes :: "Message list \<Rightarrow> bytes" where
  "log_bytes ms = concat (map encode_msg ms)"

fun take_budget :: "int \<Rightarrow> int \<Rightarrow> Message list \<Rightarrow> Message list" where
  "take_budget mx t [] = []"
| "take_budget mx t (m # ms) = (if t < mx then m # take_budget mx (t + msg_size m) ms else [])"

definition read_spec :: "int \<Rightarrow> int \<Rightarrow> Message list \<Rightarrow> Message list" where
  "read_spec fromOffset mx ms = take_budget mx 0 (filter (\<lambda>m. fromOffset \<le> m_Offset m) ms)"

lemma log_bytes_simps [simp]:
  "log_bytes [] = []"
  "log_bytes (m # ms) = encode_msg m @ log_bytes ms"
  "log_bytes (ms @ ns) = log_bytes ms @ log_bytes ns"
  by (simp_all add: log_bytes_def)

lemma take_budget_prefix: "take_budget mx t ms = take (length (take_budget mx t ms)) ms"
  by (induction ms arbitrary: t) auto

lemma take_budget_nonempty: "t < mx \<Longrightarrow> ms \<noteq> [] \<Longrightarrow> take_budget mx t ms \<noteq> []"
  by (cases ms) auto

lemma take_budget_exhausted [simp]: "\<not> t < mx \<Longrightarrow> take_budget mx t ms = []"
  by (cases ms) auto

lemma take_budget_all:
  "t + sum_list (map msg_size ms) \<le> mx \<Longrightarrow> take_budget mx t ms = ms"
proof (induction ms arbitrary: t)
  case (Cons m ms)
  have "0 \<le> sum_list (map msg_size ms)"
    by (rule sum_list_nonneg) (auto simp: order_less_imp_le)
  with Cons.prems have "t < mx"
    using msg_size_pos [of m] unfolding list.map sum_list.Cons by linarith
  with Cons show ?case by (simp add: add.assoc)
qed simp

section \<open>The read loop\<close>

lemma ReadFull_append:
  "(\<exists>f'. io_ReadFull f (a @ h) (length a) = (Some (a, h), f')) \<or>
   (\<exists>f'. io_ReadFull f (a @ h) (length a) = (None, f'))"
  by (cases f rule: io_next_cases; cases "fst (io_next f)") (auto simp: io_ReadFull_def)

lemma read_loop_stop: "\<not> tot < mx \<Longrightarrow> read_loop f h fromOffset mx tot = ([], f)"
  by (subst read_loop.simps) simp

lemma read_loop_record:
  assumes "wf_msg m" "healthy f" "tot < mx"
  shows "read_loop f (encode_msg m @ h) fromOffset mx tot =
    (if m_Offset m < fromOffset then read_loop f h fromOffset mx tot
     else case read_loop f h fromOffset mx (tot + msg_size m) of (ms, f') \<Rightarrow> (m # ms, f'))"
  using assms
  by (subst read_loop.simps)
    (simp add: encode_msg_def decode_encode_header msg_size_def algebra_simps split: prod.split)

text \<open>A tail that does not hold a whole record ends the read.\<close>

lemma read_loop_torn:
  assumes "decode_msg junk = None" "healthy f"
  shows "read_loop f junk fromOffset mx tot = ([], f)"
  using assms
  by (subst read_loop.simps)
    (auto simp: decode_msg_def Let_def split: prod.splits if_splits)

lemma read_loop_healthy:
  assumes "list_all wf_msg ms" "decode_msg junk = None" "healthy f"
  shows "read_loop f (log_bytes ms @ junk) fromOffset mx tot =
    (take_budget mx tot (filter (\<lambda>m. fromOffset \<le> m_Offset m) ms), f)"
  using assms
proof (induction ms arbitrary: tot)
  case Nil
  then show ?case by (simp add: read_loop_torn)
next
  case (Cons m ms)
  then show ?case
    by (cases "tot < mx") (auto simp: read_loop_record read_loop_stop)
qed

lemma decode_msg_Nil [simp]: "decode_msg [] = None"
  by (simp add: decode_msg_def)

text \<open>Whatever reads fail, the loop returns a prefix of what it returns when none does.\<close>

lemma read_loop_faulty:
  assumes "list_all wf_msg ms"
  shows "\<exists>k. fst (read_loop f (log_bytes ms) fromOffset mx tot) =
    take k (take_budget mx tot (filter (\<lambda>m. fromOffset \<le> m_Offset m) ms))"
  using assms
proof (induction ms arbitrary: f tot)
  case Nil
  show ?case
    by (cases f rule: io_next_cases)
      (auto simp: read_loop.simps [of f "[]"] io_ReadFull_def split: io.split)
next
  case (Cons m ms)
  let ?h = "log_bytes ms" and ?kv = "m_Key m @ m_Value m"
  note unfold = read_loop.simps [of f "encode_header m @ m_Key m @ m_Value m @ ?h" fromOffset mx tot]
  have wf: "wf_msg m" and IH: "\<And>f tot. \<exists>k. fst (read_loop f ?h fromOffset mx tot) =
      take k (take_budget mx tot (filter (\<lambda>m. fromOffset \<le> m_Offset m) ms))"
    using Cons by auto
  consider "\<not> tot < mx"
    | f1 where "tot < mx" "io_ReadFull f (encode_header m @ ?kv @ ?h) 24 = (None, f1)"
    | f1 f2 where "tot < mx" "io_ReadFull f (encode_header m @ ?kv @ ?h) 24 = (Some (encode_header m, ?kv @ ?h), f1)"
        "io_ReadFull f1 (?kv @ ?h) (length ?kv) = (None, f2)"
    | f1 f2 where "tot < mx" "io_ReadFull f (encode_header m @ ?kv @ ?h) 24 = (Some (encode_header m, ?kv @ ?h), f1)"
        "io_ReadFull f1 (?kv @ ?h) (length ?kv) = (Some (?kv, ?h), f2)"
    using ReadFull_append [of f "encode_header m" "?kv @ ?h"] ReadFull_append [of _ ?kv ?h]
    by (metis length_encode_header)
  then show ?case
  proof cases
    case 4
    then show ?thesis
      using IH [of f2 tot] IH [of f2 "tot + msg_size m"] wf
      by (auto simp: unfold encode_msg_def decode_encode_header msg_size_def algebra_simps
          split: prod.split intro: exI [of _ "Suc _"])
  qed (use wf in \<open>auto simp: unfold encode_msg_def decode_encode_header intro!: exI [of _ 0]\<close>)
qed

section \<open>The stored messages of a segment\<close>

text \<open>
  \<open>seg_holds f s ms\<close>: the log file of \<open>s\<close> consists of the records of \<open>ms\<close>, the size field agrees
  with it, and every index entry points at the record it names.
\<close>

definition index_ok :: "indexEntry list \<Rightarrow> Message list \<Rightarrow> bool" where
  "index_ok idx ms \<longleftrightarrow> (\<forall>e \<in> set idx. \<exists>k < length ms.
     ie_offset e = m_Offset (ms ! k) \<and> ie_position e = int (length (log_bytes (take k ms))))"

definition seg_holds :: "fs \<Rightarrow> Segment \<Rightarrow> Message list \<Rightarrow> bool" where
  "seg_holds f s ms \<longleftrightarrow> fexists f (logFile s) \<and> content f (logFile s) = log_bytes ms \<and>
     seg_size s = int (length (log_bytes ms)) \<and> index_ok (seg_index s) ms \<and>
     list_all wf_msg ms \<and> logFile s \<noteq> indexFile s"

lemma index_ok_append: "index_ok idx ms \<Longrightarrow> index_ok idx (ms @ ns)"
  by (fastforce simp: index_ok_def nth_append)

lemma index_ok_snoc:
  "index_ok idx ms \<Longrightarrow>
   index_ok (idx @ [\<lparr>ie_offset = m_Offset m, ie_position = int (length (log_bytes ms))\<rparr>]) (ms @ [m])"
  using index_ok_append [of idx ms "[m]"]
  by (auto simp: index_ok_def nth_append intro!: exI [of _ "length ms"])

lemma suffix_inject: "a @ c = b @ d \<Longrightarrow> length c = length d \<Longrightarrow> a = b \<and> c = d"
  by simp

lemma logPath_neq_idxPath [simp]: "logPath d b \<noteq> idxPath d' b'"
  by (auto simp: logPath_def idxPath_def dest: arg_cong [where f = last])

lemma logPath_inject:
  assumes "0 \<le> b" "b < 2 ^ 63" "0 \<le> b'" "b' < 2 ^ 63"
  shows "logPath d b = logPath d' b' \<longleftrightarrow> d = d' \<and> b = b'"
proof
  assume "logPath d b = logPath d' b'"
  then have "d @ (''/'' @ fmt_020d b @ ''.log'') = d' @ (''/'' @ fmt_020d b' @ ''.log'')"
    by (simp add: logPath_def)
  then have "d = d' \<and> ''/'' @ fmt_020d b @ ''.log'' = ''/'' @ fmt_020d b' @ ''.log''"
    by (rule suffix_inject) (use assms in \<open>simp add: length_fmt_020d\<close>)
  then show "d = d' \<and> b = b'" using assms by (auto simp: fmt_020d_inject)
qed simp

subsection \<open>Opening\<close>

lemma newSegment_healthy:
  assumes "healthy f"
  shows "newSegment f dir base mxs now =
    (Inr \<lparr>baseOffset = base, logFile = logPath dir base, indexFile = idxPath dir base,
          seg_size = int (length (content f (logPath dir base))), maxSize = mxs, seg_index = [],
          createdAt = now, seg_closed = False\<rparr>,
     touch (touch f (logPath dir base)) (idxPath dir base))"
  using assms by (simp add: newSegment_def)

lemma newSegment_holds:
  assumes "healthy f" "newSegment f dir base mxs now = (Inr s, f')"
    "content f (logPath dir base) = log_bytes ms" "list_all wf_msg ms"
  shows "seg_holds f' s ms"
  using assms by (auto simp: newSegment_healthy seg_holds_def index_ok_def)

subsection \<open>Appending\<close>

text \<open>The files a segment writes; every other file keeps its contents.\<close>

lemma os_Write_frame:
  "os_Write f p b = (r, f') \<Longrightarrow> q \<noteq> p \<Longrightarrow>
     content f' q = content f q \<and> (fexists f' q \<longleftrightarrow> fexists f q)"
  by (cases f rule: io_next_cases)
    (auto simp: os_Write_def content_def fexists_def split: io.splits)

lemma os_Write_content:
  assumes "os_Write f p b = (r, f')"
  shows "fexists f' p \<and> (r = None \<longrightarrow> content f' p = content f p @ b) \<and>
    (r \<noteq> None \<longrightarrow> (\<exists>n. content f' p = content f p @ take n b))"
  using assms
  by (cases f rule: io_next_cases)
    (auto simp: os_Write_def content_def fexists_def split: io.splits)

lemma seg_write_frame:
  "q \<noteq> p \<Longrightarrow> content (snd (seg_write f s p b)) q = content f q"
  "q \<noteq> p \<Longrightarrow> fexists (snd (seg_write f s p b)) q \<longleftrightarrow> fexists f q"
  using os_Write_frame [OF prod.collapse [symmetric], of q p f b] by (auto simp: seg_write_def)

lemma seg_write_content:
  assumes "seg_write f s p b = (r, f')"
  shows "(r = None \<longrightarrow> fexists f' p \<and> content f' p = content f p @ b) \<and>
    (r \<noteq> None \<longrightarrow> (\<exists>n. content f' p = content f p @ take n b))"
  using assms os_Write_content [of f p b r f']
  by (auto simp: seg_write_def split: if_splits intro: exI [of _ 0])

lemma Segment_Append_frame:
  assumes "Segment_Append f s m = (r, s', f')" "q \<noteq> logFile s" "q \<noteq> indexFile s"
  shows "content f' q = content f q \<and> (fexists f' q \<longleftrightarrow> fexists f q)"
proof -
  obtain r1 f1 where w1: "seg_write f s (logFile s) (encode_msg m) = (r1, f1)"
    by fastforce
  have "content f1 q = content f q" "fexists f1 q = fexists f q"
    using seg_write_frame [OF assms(2), of f s "encode_msg m"] w1 by simp_all
  then show ?thesis
    using assms w1
    by (auto simp: Segment_Append_def Let_def seg_write_frame split: option.splits if_splits)
qed

text \<open>Fields an append leaves alone.\<close>

lemma Segment_Append_fields:
  assumes "Segment_Append f s m = (r, s', f')"
  shows "baseOffset s' = baseOffset s \<and> logFile s' = logFile s \<and> indexFile s' = indexFile s \<and>
    maxSize s' = maxSize s \<and> seg_closed s' = seg_closed s"
  using assms by (auto simp: Segment_Append_def Let_def split: prod.splits option.splits if_splits)

text \<open>An append that reports success has stored the message, whatever happened to the index file.\<close>

lemma Segment_Append_stores:
  assumes "seg_holds f s ms" "wf_msg m" "Segment_Append f s m = (None, s', f')"
  shows "seg_holds f' s' (ms @ [m])"
proof -
  obtain f1 where w1: "seg_write f s (logFile s) (encode_msg m) = (None, f1)"
    using assms(3) by (auto simp: Segment_Append_def Let_def split: prod.splits option.splits)
  define s1 where "s1 = s\<lparr>seg_size := seg_size s + int (length (encode_msg m))\<rparr>"
  have c1: "content f1 (logFile s) = log_bytes ms @ encode_msg m" "fexists f1 (logFile s)"
    using seg_write_content [OF w1] assms(1) by (auto simp: seg_holds_def)
  define f2 where "f2 = snd (seg_write f1 s1 (indexFile s1) (encode_index (m_Offset m) (seg_size s)))"
  have c2: "content f2 (logFile s) = log_bytes ms @ encode_msg m" "fexists f2 (logFile s)"
    using c1 assms(1) by (auto simp: f2_def seg_write_frame s1_def seg_holds_def)
  have "(s', f') = (if length (seg_index s) mod 8 = 0
      then (s1\<lparr>seg_index := seg_index s @ [\<lparr>ie_offset = m_Offset m, ie_position = seg_size s\<rparr>]\<rparr>, f2)
      else (s1, f1))"
    using assms(3) w1 by (auto simp: Segment_Append_def Let_def s1_def f2_def split: if_splits)
  then show ?thesis
    using assms(1,2) c1 c2
    by (auto simp: seg_holds_def s1_def index_ok_append index_ok_snoc split: if_splits)
qed

text \<open>A failed append leaves the segment as it was, but maybe a torn record in the file.\<close>

lemma Segment_Append_fails:
  assumes "seg_holds f s ms" "Segment_Append f s m = (Some e, s', f')"
  shows "s' = s \<and> (\<exists>n. content f' (logFile s) = log_bytes ms @ take n (encode_msg m))"
proof -
  obtain e1 f1 where w1: "seg_write f s (logFile s) (encode_msg m) = (Some e1, f1)"
    using assms(2)
    by (auto simp: Segment_Append_def Let_def split: prod.splits option.splits if_splits)
  then have "s' = s \<and> f' = f1"
    using assms(2) by (simp add: Segment_Append_def Let_def)
  then show ?thesis
    using seg_write_content [OF w1] assms(1) by (auto simp: seg_holds_def)
qed

lemma seg_write_healthy:
  "healthy f \<Longrightarrow> \<not> seg_closed s \<Longrightarrow> fst (seg_write f s p b) = None \<and> healthy (snd (seg_write f s p b))"
  by (simp add: seg_write_def healthy_Write)

lemma Segment_Append_healthy:
  assumes "Segment_Append f s m = (r, s', f')" "healthy f" "\<not> seg_closed s"
  shows "r = None \<and> healthy f' \<and> seg_size s' = seg_size s + msg_size m"
proof -
  obtain r1 f1 where w1: "seg_write f s (logFile s) (encode_msg m) = (r1, f1)"
    by fastforce
  then have "r1 = None" "healthy f1"
    using seg_write_healthy [OF assms(2,3), of "logFile s" "encode_msg m"] by simp_all
  then show ?thesis
    using assms w1
    by (auto simp: Segment_Append_def Let_def int_length_encode_msg seg_write_healthy split: if_splits)
qed

subsection \<open>Reading\<close>

abbreviation ascending :: "Message list \<Rightarrow> bool" where
  "ascending ms \<equiv> sorted_wrt (<) (map m_Offset ms)"

lemma find_pos_cases:
  "find_pos idx off p = p \<or>
   (\<exists>e \<in> set idx. ie_offset e \<le> off \<and> find_pos idx off p = ie_position e)"
proof (induction idx off p rule: find_pos.induct)
  case (2 e es off pos)
  then show ?case by (cases "ie_offset e > off") auto
qed simp

text \<open>The position a read starts at is the start of a record, and skips only smaller offsets.\<close>

lemma findPosition_sound:
  assumes "seg_holds f s ms" "ascending ms"
  obtains k where "k \<le> length ms" "findPosition s off = int (length (log_bytes (take k ms)))"
    "\<And>i. i < k \<Longrightarrow> m_Offset (ms ! i) < off"
proof (cases "findPosition s off = 0")
  case True
  then show thesis by (intro that [of 0]) simp_all
next
  case False
  then obtain e where e: "e \<in> set (seg_index s)" "ie_offset e \<le> off" "findPosition s off = ie_position e"
    using find_pos_cases [of "seg_index s" off 0] by (auto simp: findPosition_def)
  then obtain k where k: "k < length ms" "ie_offset e = m_Offset (ms ! k)"
      "ie_position e = int (length (log_bytes (take k ms)))"
    using assms(1) by (auto simp: seg_holds_def index_ok_def)
  have "m_Offset (ms ! i) < off" if "i < k" for i
    using sorted_wrt_nth_less [OF assms(2), of i k] that k e by simp
  with k e show thesis by (intro that [of k]) simp_all
qed

lemma filter_drop_small:
  assumes "\<And>i. i < k \<Longrightarrow> m_Offset (ms ! i) < off" "k \<le> length ms"
  shows "filter (\<lambda>m. off \<le> m_Offset m) (drop k ms) = filter (\<lambda>m. off \<le> m_Offset m) ms"
proof -
  have "filter (\<lambda>m. off \<le> m_Offset m) (take k ms) = []"
    using assms by (force simp: filter_empty_conv in_set_conv_nth)
  then show ?thesis
    by (metis append_Nil append_take_drop_id filter_append)
qed

lemma log_bytes_drop: "drop (length (log_bytes (take k ms))) (log_bytes ms) = log_bytes (drop k ms)"
  by (metis append_eq_conv_conj append_take_drop_id log_bytes_simps(3))

lemma list_all_drop: "list_all P xs \<Longrightarrow> list_all P (drop k xs)"
  by (auto simp: list_all_iff dest: in_set_dropD)

lemma Segment_Read_correct:
  assumes "seg_holds f s ms" "ascending ms" "healthy f"
  shows "Segment_Read f s fromOffset maxBytes = (Inr (read_spec fromOffset maxBytes ms), f)"
proof -
  obtain k where k: "k \<le> length ms"
      "findPosition s fromOffset = int (length (log_bytes (take k ms)))"
      "\<And>i. i < k \<Longrightarrow> m_Offset (ms ! i) < fromOffset"
    using findPosition_sound [OF assms(1,2)] by metis
  have "read_loop f (log_bytes (drop k ms)) fromOffset maxBytes 0 =
      (take_budget maxBytes 0 (filter (\<lambda>m. fromOffset \<le> m_Offset m) (drop k ms)), f)"
    using read_loop_healthy [of "drop k ms" "[]" f] assms(1,3)
    by (simp add: seg_holds_def list_all_drop)
  then show ?thesis
    using assms(1,3) k filter_drop_small [OF k(3,1)]
    by (simp add: Segment_Read_def seg_holds_def get_content log_bytes_drop read_spec_def)
qed

text \<open>Under any failures a read that answers at all returns a prefix of the full answer.\<close>

lemma Segment_Read_faulty:
  assumes "seg_holds f s ms" "ascending ms" "Segment_Read f s fromOffset maxBytes = (Inr rs, f')"
  shows "\<exists>n. rs = take n (read_spec fromOffset maxBytes ms)"
proof -
  obtain k where k: "k \<le> length ms"
      "findPosition s fromOffset = int (length (log_bytes (take k ms)))"
      "\<And>i. i < k \<Longrightarrow> m_Offset (ms ! i) < fromOffset"
    using findPosition_sound [OF assms(1,2)] by metis
  have d: "drop (length (log_bytes (take k ms))) (content f (logFile s)) = log_bytes (drop k ms)"
    and g: "gm_get (files f) (logFile s) = Some (content f (logFile s))"
    using assms(1) log_bytes_drop by (simp_all add: seg_holds_def get_content)
  have "\<exists>f2. read_loop f2 (log_bytes (drop k ms)) fromOffset maxBytes 0 = (rs, f')"
    using assms(3) k(2) d g
    by (cases f rule: io_next_cases)
      (auto simp: Segment_Read_def os_OpenRead_def os_SeekStart_def
        split: prod.splits io.splits option.splits)
  then obtain f2 where "rs = fst (read_loop f2 (log_bytes (drop k ms)) fromOffset maxBytes 0)"
    by (metis fst_conv)
  then show ?thesis
    using read_loop_faulty [of "drop k ms" f2 fromOffset maxBytes 0]
      filter_drop_small [OF k(3,1)] assms(1)
    by (simp add: seg_holds_def list_all_drop read_spec_def)
qed

section \<open>A run of appends\<close>

fun seg_appends :: "fs \<Rightarrow> Segment \<Rightarrow> Message list \<Rightarrow> Segment \<times> fs" where
  "seg_appends f s [] = (s, f)"
| "seg_appends f s (m # ms) = (case Segment_Append f s m of (_, s', f') \<Rightarrow> seg_appends f' s' ms)"

lemma Segment_Append_index:
  assumes "Segment_Append f s m = (r, s', f')"
  shows "seg_index s' = (if r = None \<and> length (seg_index s) mod 8 = 0
    then seg_index s @ [\<lparr>ie_offset = m_Offset m, ie_position = seg_size s\<rparr>] else seg_index s)"
  using assms by (auto simp: Segment_Append_def Let_def split: prod.splits option.splits if_splits)

lemma seg_appends_index_le1:
  "length (seg_index s) \<le> 1 \<Longrightarrow> length (seg_index (fst (seg_appends f s ms))) \<le> 1"
proof (induction ms arbitrary: f s)
  case (Cons m ms)
  obtain r s' f' where a: "Segment_Append f s m = (r, s', f')" by (cases "Segment_Append f s m")
  have "length (seg_index s') \<le> 1"
    using Segment_Append_index [OF a] Cons.prems by (cases "seg_index s") auto
  with Cons.IH a show ?case by simp
qed simp

lemma seg_appends_index_full:
  "length (seg_index s) = 1 \<Longrightarrow> seg_index (fst (seg_appends f s ms)) = seg_index s"
proof (induction ms arbitrary: f s)
  case (Cons m ms)
  obtain r s' f' where a: "Segment_Append f s m = (r, s', f')" by (cases "Segment_Append f s m")
  then show ?case using Segment_Append_index [OF a] Cons.prems Cons.IH [of s' f'] by simp
qed simp

lemma seg_appends_holds:
  assumes "seg_holds f s ms" "healthy f" "\<not> seg_closed s" "list_all wf_msg ns"
    "seg_appends f s ns = (s', f')"
  shows "seg_holds f' s' (ms @ ns) \<and> healthy f'"
  using assms
proof (induction ns arbitrary: f s ms)
  case (Cons n ns)
  obtain r s1 f1 where a: "Segment_Append f s n = (r, s1, f1)" by (cases "Segment_Append f s n")
  note h = Segment_Append_healthy [OF a Cons.prems(2,3)]
  then have "seg_holds f1 s1 (ms @ [n])"
    using Segment_Append_stores [OF Cons.prems(1)] Cons.prems(4) a by simp
  then show ?case
    using Cons.IH [of f1 s1 "ms @ [n]"] h Cons.prems Segment_Append_fields [OF a] a by simp
qed simp

section \<open>Properties\<close>

lemma torn_record_undecodable:
  assumes "wf_msg m" "n < length (encode_msg m)"
  shows "decode_msg (take n (encode_msg m)) = None"
proof (cases "n < 24")
  case True
  then show ?thesis by (auto simp: decode_msg_def min_def)
next
  case False
  then have "take 24 (take n (encode_msg m)) = encode_header m"
    by (simp add: encode_msg_def)
  then show ?thesis
    using assms False
    by (simp add: decode_msg_def decode_encode_header Let_def length_encode_msg)
qed

text \<open>
  C10: a freshly opened segment that appended a list of messages with ascending offsets reads
  back exactly the messages from the requested offset on, up to the byte budget.
\<close>

theorem segment_roundtrip:
  assumes "healthy f" "content f (logPath dir base) = []"
    "newSegment f dir base mx now = (Inr s, f1)"
    "list_all wf_msg ms" "ascending ms" "seg_appends f1 s ms = (s', f2)"
  shows "Segment_Read f2 s' fromOffset maxBytes = (Inr (read_spec fromOffset maxBytes ms), f2)"
proof -
  have "seg_holds f1 s []" "healthy f1" "\<not> seg_closed s"
    using newSegment_holds [OF assms(1,3), of "[]"] assms(1-3) by (auto simp: newSegment_healthy)
  then have "seg_holds f2 s' ms" "healthy f2"
    using seg_appends_holds [OF _ _ _ assms(4,6)] by fastforce+
  then show ?thesis by (intro Segment_Read_correct assms(5))
qed

definition ex_fs :: fs where
  "ex_fs = \<lparr>files = [], sched = []\<rparr>"

definition ex_msgs :: "Message list" where
  "ex_msgs = [\<lparr>m_Offset = 0, m_Timestamp = 5, m_Key = [1], m_Value = [2, 3]\<rparr>,
              \<lparr>m_Offset = 1, m_Timestamp = 6, m_Key = [], m_Value = [4]\<rparr>]"

lemma ex_fs_simps [simp]: "healthy ex_fs" "content ex_fs p = []" "\<not> fexists ex_fs p"
  by (simp_all add: ex_fs_def healthy_def content_def fexists_def gm_get_def)

lemma ex_msgs_simps [simp]: "list_all wf_msg ex_msgs" "ascending ex_msgs"
  by (simp_all add: ex_msgs_def wf_msg_def in_i64_def)

theorem segment_roundtrip_witness:
  "\<exists>s f1 s' f2. newSegment ex_fs ''d'' 0 100 0 = (Inr s, f1) \<and> seg_appends f1 s ex_msgs = (s', f2) \<and>
     Segment_Read f2 s' 1 50 = (Inr [ex_msgs ! 1], f2)"
proof -
  obtain s f1 where n: "newSegment ex_fs ''d'' 0 100 0 = (Inr s, f1)"
    using newSegment_healthy [of ex_fs "''d''" 0 100 0] by simp
  obtain s' f2 where a: "seg_appends f1 s ex_msgs = (s', f2)" by fastforce
  have "read_spec 1 50 ex_msgs = [ex_msgs ! 1]" by (simp add: read_spec_def ex_msgs_def)
  with segment_roundtrip [OF ex_fs_simps(1,2) n ex_msgs_simps a, of 1 50] n a show ?thesis by simp
qed

text \<open>
  C11: whatever calls of a read fail, an answer is a prefix of the answer of the failure-free
  read: no message is skipped, reordered or made up.
\<close>

theorem segment_read_prefix_under_failures:
  assumes "seg_holds f s ms" "ascending ms" "Segment_Read f s fromOffset maxBytes = (Inr rs, f')"
  shows "\<exists>n. rs = take n (read_spec fromOffset maxBytes ms)"
  using assms by (rule Segment_Read_faulty)

definition ex_seg :: Segment where
  "ex_seg = \<lparr>baseOffset = 0, logFile = ''l'', indexFile = ''i'',
     seg_size = int (length (log_bytes ex_msgs)), maxSize = 100, seg_index = [], createdAt = 0,
     seg_closed = False\<rparr>"

definition ex_seg_fs :: fs where
  "ex_seg_fs = \<lparr>files = [(''l'', log_bytes ex_msgs)], sched = [IoOk, IoOk, IoOk, IoOk, IoErr 0]\<rparr>"

lemma ex_seg_holds: "seg_holds ex_seg_fs ex_seg ex_msgs"
  by (simp add: seg_holds_def ex_seg_def ex_seg_fs_def fexists_def content_def gm_get_def index_ok_def)

theorem segment_read_prefix_under_failures_witness:
  "\<exists>rs f' n. Segment_Read ex_seg_fs ex_seg 0 1000 = (Inr rs, f') \<and> rs = take n ex_msgs \<and>
     length rs = 1"
proof -
  have r: "Segment_Read ex_seg_fs ex_seg 0 1000 =
      (Inr [hd ex_msgs], \<lparr>files = [(''l'', log_bytes ex_msgs)], sched = []\<rparr>)"
    unfolding ex_seg_fs_def ex_seg_def ex_msgs_def by code_simp
  have "read_spec 0 1000 ex_msgs = ex_msgs"
    by (simp add: read_spec_def ex_msgs_def msg_size_def headerSize_def)
  then have "\<exists>n. [hd ex_msgs] = take n ex_msgs"
    using segment_read_prefix_under_failures [OF ex_seg_holds ex_msgs_simps(2) r] by simp
  with r show ?thesis by auto
qed

text \<open>
  What a read returns right after an append that failed, possibly in a short write: the old messages,
  or those and the new one when all its bytes had got through.
\<close>

lemma read_after_failed_append:
  assumes "seg_holds f s ms" "wf_msg m" "ascending (ms @ [m])"
    "Segment_Append f s m = (Some e, s', f')" "fexists f' (logFile s)" "healthy f'"
  shows "Segment_Read f' s' fromOffset maxBytes = (Inr (read_spec fromOffset maxBytes ms), f') \<or>
    Segment_Read f' s' fromOffset maxBytes = (Inr (read_spec fromOffset maxBytes (ms @ [m])), f')"
proof -
  obtain n where s': "s' = s" and c: "content f' (logFile s) = log_bytes ms @ take n (encode_msg m)"
    using Segment_Append_fails [OF assms(1,4)] by blast
  have asc: "ascending ms" using assms(3) by (simp add: sorted_wrt_append)
  show ?thesis
  proof (cases "n < length (encode_msg m)")
    case False
    then have "seg_holds f' (s\<lparr>seg_size := int (length (log_bytes (ms @ [m])))\<rparr>) (ms @ [m])"
      using assms(1,2,5) c index_ok_append by (simp add: seg_holds_def)
    from Segment_Read_correct [OF this assms(3,6), of fromOffset maxBytes]
    show ?thesis by (simp add: s' Segment_Read_def findPosition_def)
  next
    case True
    obtain k where k: "k \<le> length ms"
        "findPosition s fromOffset = int (length (log_bytes (take k ms)))"
        "\<And>i. i < k \<Longrightarrow> m_Offset (ms ! i) < fromOffset"
      using findPosition_sound [OF assms(1) asc] by metis
    have "drop (length (log_bytes (take k ms))) (log_bytes ms @ take n (encode_msg m)) =
        log_bytes (drop k ms) @ take n (encode_msg m)"
      using log_bytes_drop [of k ms] log_bytes_simps(3) [of "take k ms" "drop k ms"] by simp
    then have "Segment_Read f' s fromOffset maxBytes = (Inr (read_spec fromOffset maxBytes ms), f')"
      using assms(1,5,6) k c read_loop_healthy [of "drop k ms" "take n (encode_msg m)" f']
        torn_record_undecodable [OF assms(2) True] filter_drop_small [OF k(3,1)]
      by (simp add: Segment_Read_def get_content seg_holds_def list_all_drop read_spec_def)
    then show ?thesis by (simp add: s')
  qed
qed

text \<open>
  \<open>seg_keeps f s ms\<close>: the log file begins with the records of \<open>ms\<close>, whatever follows, and no index entry
  leads a read past a message of \<open>ms\<close> it should return.
\<close>

definition seg_keeps :: "fs \<Rightarrow> Segment \<Rightarrow> Message list \<Rightarrow> bool" where
  "seg_keeps f s ms \<longleftrightarrow> fexists f (logFile s) \<and> (\<exists>tail. content f (logFile s) = log_bytes ms @ tail) \<and>
     0 \<le> seg_size s \<and> list_all wf_msg ms \<and> logFile s \<noteq> indexFile s \<and>
     (\<forall>e \<in> set (seg_index s). index_ok [e] ms \<or> 0 \<le> ie_position e \<and> (\<forall>m \<in> set ms. m_Offset m < ie_offset e))"

lemma seg_holds_keeps: "seg_holds f s ms \<Longrightarrow> seg_keeps f s ms"
  by (auto simp: seg_holds_def seg_keeps_def index_ok_def)

lemma Segment_Append_keeps:
  assumes "seg_keeps f s ms" "\<forall>x \<in> set ms. m_Offset x < m_Offset m" "Segment_Append f s m = (r, s', f')"
  shows "seg_keeps f' s' ms"
proof -
  obtain r1 f1 where w: "seg_write f s (logFile s) (encode_msg m) = (r1, f1)" by fastforce
  have "r1 = None \<longrightarrow> fexists f1 (logFile s)" "\<exists>tail. content f1 (logFile s) = content f (logFile s) @ tail"
    using seg_write_content [OF w] by (cases r1; auto)+
  moreover have "fexists f1 (logFile s)" if "r1 \<noteq> None"
    using that w assms(1) os_Write_content [of f "logFile s" "encode_msg m" r1 f1]
    by (auto simp: seg_write_def seg_keeps_def split: if_splits)
  ultimately have c: "fexists f1 (logFile s)" "\<exists>tail. content f1 (logFile s) = log_bytes ms @ tail"
    using assms(1) by (auto simp: seg_keeps_def)
  show ?thesis
    using assms w c
    by (auto simp: seg_keeps_def Segment_Append_def Let_def seg_write_frame split: option.splits if_splits)
qed

lemma seg_appends_keeps:
  "seg_keeps f s ms \<Longrightarrow> ascending (ms @ later) \<Longrightarrow> seg_appends f s later = (s', f') \<Longrightarrow>
     seg_keeps f' s' ms"
proof (induction later arbitrary: f s)
  case (Cons m later)
  obtain r s1 f1 where a: "Segment_Append f s m = (r, s1, f1)" by (cases "Segment_Append f s m")
  have "seg_keeps f1 s1 ms"
    using Cons.prems(2) by (intro Segment_Append_keeps [OF Cons.prems(1) _ a]) (auto simp: sorted_wrt_append)
  then show ?case using Cons.IH [of f1 s1] Cons.prems(2,3) a by (simp add: sorted_wrt_append)
qed simp

lemma read_loop_prefix:
  assumes "list_all wf_msg ms" "healthy f"
  shows "\<exists>rest f'. read_loop f (log_bytes ms @ tail) fromOffset mx tot =
    (take_budget mx tot (filter (\<lambda>m. fromOffset \<le> m_Offset m) ms) @ rest, f')"
  using assms
proof (induction ms arbitrary: tot)
  case Nil
  then show ?case by (cases "read_loop f tail fromOffset mx tot") simp
next
  case (Cons m ms)
  show ?case
  proof (cases "tot < mx")
    case True
    then show ?thesis
      using Cons.IH [of tot] Cons.IH [of "tot + msg_size m"] Cons.prems by (auto simp: read_loop_record)
  next
    case False
    then show ?thesis by (simp add: read_loop_stop)
  qed
qed

lemma Segment_Read_keeps:
  assumes "seg_keeps f s ms" "ascending ms" "healthy f"
  shows "\<exists>rest. fst (Segment_Read f s fromOffset maxBytes) = Inr (read_spec fromOffset maxBytes ms @ rest)"
proof -
  have k: "gm_get (files f) (logFile s) = Some (content f (logFile s))" "list_all wf_msg ms"
    using assms(1) by (simp_all add: seg_keeps_def get_content)
  obtain tail where tail: "content f (logFile s) = log_bytes ms @ tail" using assms(1) by (auto simp: seg_keeps_def)
  have read: "fst (Segment_Read f s fromOffset maxBytes) =
      Inr (fst (read_loop f (drop (nat (findPosition s fromOffset)) (content f (logFile s))) fromOffset maxBytes 0))"
    if "0 \<le> findPosition s fromOffset"
    using that assms(3) k by (simp add: Segment_Read_def split: prod.split)
  consider j where "j \<le> length ms" "findPosition s fromOffset = int (length (log_bytes (take j ms)))"
      "\<And>i. i < j \<Longrightarrow> m_Offset (ms ! i) < fromOffset"
    | "0 \<le> findPosition s fromOffset" "\<forall>m \<in> set ms. m_Offset m < fromOffset"
  proof (cases "findPosition s fromOffset = 0")
    case True
    then show thesis by (intro that(1) [of 0]) simp_all
  next
    case False
    then obtain e where e: "e \<in> set (seg_index s)" "ie_offset e \<le> fromOffset"
      "findPosition s fromOffset = ie_position e"
      using find_pos_cases [of "seg_index s" fromOffset 0] by (auto simp: findPosition_def)
    then consider "index_ok [e] ms" | "0 \<le> ie_position e" "\<forall>m \<in> set ms. m_Offset m < ie_offset e"
      using assms(1) unfolding seg_keeps_def by blast
    then show thesis
    proof cases
      case 1
      then obtain j where j: "j < length ms" "ie_offset e = m_Offset (ms ! j)"
        "ie_position e = int (length (log_bytes (take j ms)))" by (auto simp: index_ok_def)
      have "m_Offset (ms ! i) < fromOffset" if "i < j" for i
        using sorted_wrt_nth_less [OF assms(2), of i j] that j e by simp
      with j e show thesis by (intro that(1) [of j]) simp_all
    next
      case 2
      with e show thesis by (intro that(2)) fastforce+
    qed
  qed
  then show ?thesis
  proof cases
    case (1 j)
    have d: "drop (length (log_bytes (take j ms))) (log_bytes ms @ tail) = log_bytes (drop j ms) @ tail"
      using log_bytes_drop [of j ms] log_bytes_simps(3) [of "take j ms" "drop j ms"] by simp
    obtain rest f' where "read_loop f (log_bytes (drop j ms) @ tail) fromOffset maxBytes 0 =
        (take_budget maxBytes 0 (filter (\<lambda>m. fromOffset \<le> m_Offset m) (drop j ms)) @ rest, f')"
      using read_loop_prefix [OF list_all_drop [OF k(2)] assms(3)] by blast
    then show ?thesis
      using read 1(2) d filter_drop_small [OF 1(3,1)] by (simp add: tail read_spec_def)
  next
    case 2
    then have "filter (\<lambda>m. fromOffset \<le> m_Offset m) ms = []" by (auto simp: filter_empty_conv not_le)
    then show ?thesis using read [OF 2(1)] by (simp add: read_spec_def)
  qed
qed

text \<open>
  C12: what is stored stays readable. However many appends follow, and whichever of their writes to
  the log or to the index fail or are torn, a later read begins with all that a read before them
  returned, cut at the same budget. What comes after that is not promised: a torn append spoils the
  appends behind it, even those that succeed (\<open>append_after_torn_write_is_lost\<close>).
\<close>

theorem stored_messages_survive_failed_appends:
  assumes "seg_holds f s ms" "ascending (ms @ later)" "seg_appends f s later = (s', f')" "healthy f'"
  shows "\<exists>rest. fst (Segment_Read f' s' fromOffset maxBytes) = Inr (read_spec fromOffset maxBytes ms @ rest)"
  using seg_appends_keeps [OF seg_holds_keeps [OF assms(1)] assms(2,3)] assms(2,4)
  by (intro Segment_Read_keeps) (simp_all add: sorted_wrt_append)

definition ex_torn :: "Message list" where
  "ex_torn = [\<lparr>m_Offset = 2, m_Timestamp = 0, m_Key = [], m_Value = [7]\<rparr>,
              \<lparr>m_Offset = 3, m_Timestamp = 0, m_Key = [], m_Value = [8]\<rparr>]"

text \<open>The segment after its two messages were appended: the first has an index entry.\<close>

definition ex_indexed :: Segment where
  "ex_indexed = ex_seg\<lparr>seg_index := [\<lparr>ie_offset = 0, ie_position = 0\<rparr>]\<rparr>"

lemma ex_torn_run:
  "seg_appends (ex_seg_fs\<lparr>sched := [IoErr 8]\<rparr>) ex_indexed ex_torn =
     (ex_indexed\<lparr>seg_size := seg_size ex_indexed + 25\<rparr>,
      \<lparr>files = [(''l'', log_bytes ex_msgs @ take 8 (encode_msg (ex_torn ! 0)) @ encode_msg (ex_torn ! 1))], sched = []\<rparr>)"
  unfolding ex_seg_fs_def ex_indexed_def ex_seg_def ex_torn_def ex_msgs_def by code_simp

theorem stored_messages_survive_failed_appends_witness:
  "\<exists>s' f' rest. seg_appends (ex_seg_fs\<lparr>sched := [IoErr 8]\<rparr>) ex_indexed ex_torn = (s', f') \<and>
     fst (Segment_Read f' s' 0 1000) = Inr (ex_msgs @ rest)"
proof -
  let ?s = "ex_indexed\<lparr>seg_size := seg_size ex_indexed + 25\<rparr>"
  let ?f = "\<lparr>files = [(''l'', log_bytes ex_msgs @ take 8 (encode_msg (ex_torn ! 0)) @ encode_msg (ex_torn ! 1))], sched = []\<rparr>"
  have h: "seg_holds (ex_seg_fs\<lparr>sched := [IoErr 8]\<rparr>) ex_indexed ex_msgs"
  proof -
    have "index_ok [\<lparr>ie_offset = 0, ie_position = 0\<rparr>] ex_msgs"
      by (auto simp: index_ok_def ex_msgs_def intro!: exI [of _ 0])
    then show ?thesis using ex_seg_holds by (simp add: seg_holds_def fexists_def content_def ex_indexed_def)
  qed
  have asc: "ascending (ex_msgs @ ex_torn)" by (simp add: ex_msgs_def ex_torn_def)
  have "healthy ?f" by (simp add: healthy_def)
  moreover have "read_spec 0 1000 ex_msgs = ex_msgs"
    by (simp add: read_spec_def ex_msgs_def msg_size_def headerSize_def)
  ultimately obtain rest where "fst (Segment_Read ?f ?s 0 1000) = Inr (ex_msgs @ rest)"
    using stored_messages_survive_failed_appends [OF h asc ex_torn_run, of 0 1000] by auto
  with ex_torn_run show ?thesis by blast
qed

text \<open>
  \<open>Append\<close> leaves the bytes of a torn record in the file and writes the next record behind them: that
  append reports success, but no read finds its message. Here a read finds instead, under the offset
  of the append that failed, a message that nobody has appended.
\<close>

lemma append_after_torn_write_is_lost:
  "\<exists>f1 s2 f2. Segment_Append (ex_seg_fs\<lparr>sched := [IoErr 8]\<rparr>) ex_indexed (ex_torn ! 0) = (Some ErrIO, ex_indexed, f1) \<and>
     Segment_Append f1 ex_indexed (ex_torn ! 1) = (None, s2, f2) \<and>
     fst (Segment_Read f2 s2 0 1000) =
       Inr (ex_msgs @ [\<lparr>m_Offset = 2, m_Timestamp = 3, m_Key = [], m_Value = []\<rparr>]) \<and>
     fst (Segment_Read f2 s2 3 1000) = Inr []"
proof -
  let ?f1 = "\<lparr>files = [(''l'', log_bytes ex_msgs @ take 8 (encode_msg (ex_torn ! 0)))], sched = []\<rparr>"
  let ?f2 = "\<lparr>files = [(''l'', log_bytes ex_msgs @ take 8 (encode_msg (ex_torn ! 0)) @ encode_msg (ex_torn ! 1))], sched = []\<rparr>"
  let ?s2 = "ex_indexed\<lparr>seg_size := seg_size ex_indexed + 25\<rparr>"
  have "Segment_Append (ex_seg_fs\<lparr>sched := [IoErr 8]\<rparr>) ex_indexed (ex_torn ! 0) = (Some ErrIO, ex_indexed, ?f1)"
    "Segment_Append ?f1 ex_indexed (ex_torn ! 1) = (None, ?s2, ?f2)"
    "fst (Segment_Read ?f2 ?s2 0 1000) =
      Inr (ex_msgs @ [\<lparr>m_Offset = 2, m_Timestamp = 3, m_Key = [], m_Value = []\<rparr>])"
    "fst (Segment_Read ?f2 ?s2 3 1000) = Inr []"
    unfolding ex_seg_fs_def ex_indexed_def ex_seg_def ex_torn_def ex_msgs_def by code_simp+
  then show ?thesis by blast
qed

text \<open>
  The index never gets a second entry, whatever is appended and whatever fails: the test
  \<open>len(s.index) % 8 == 0\<close> counts index entries, not messages, so the sparse index the comment
  announces (an entry every eighth message) stops after the first one.
\<close>

lemma segment_index_stops_at_one:
  assumes "newSegment f dir base mx now = (Inr s, f1)"
  shows "length (seg_index (fst (seg_appends f1 s ms))) \<le> 1 \<and>
    (healthy f1 \<and> ms \<noteq> [] \<longrightarrow> seg_index (fst (seg_appends f1 s ms)) =
       [\<lparr>ie_offset = m_Offset (hd ms), ie_position = seg_size s\<rparr>])"
proof -
  have s: "seg_index s = []" "\<not> seg_closed s"
    using assms by (auto simp: newSegment_def split: prod.splits bool.splits)
  have "seg_index (fst (seg_appends f1 s (m # ns))) =
      [\<lparr>ie_offset = m_Offset m, ie_position = seg_size s\<rparr>]" if "healthy f1" for m ns
  proof -
    obtain r s' f' where a: "Segment_Append f1 s m = (r, s', f')" by (cases "Segment_Append f1 s m")
    then have "seg_index s' = [\<lparr>ie_offset = m_Offset m, ie_position = seg_size s\<rparr>]"
      using Segment_Append_index [OF a] Segment_Append_healthy [OF a that s(2)] s(1) by simp
    with a show ?thesis using seg_appends_index_full [of s' f' ns] by simp
  qed
  moreover have "length (seg_index (fst (seg_appends f1 s ms))) \<le> 1"
    by (rule seg_appends_index_le1) (simp add: s)
  ultimately show ?thesis by (metis hd_Cons_tl)
qed

lemma segment_index_stops_at_one_witness:
  "\<exists>s f1. newSegment ex_fs ''d'' 0 100 0 = (Inr s, f1) \<and>
     seg_index (fst (seg_appends f1 s (ex_msgs @ ex_msgs @ ex_msgs @ ex_msgs @ ex_msgs))) =
       [\<lparr>ie_offset = 0, ie_position = 0\<rparr>]"
proof -
  obtain s f1 where n: "newSegment ex_fs ''d'' 0 100 0 = (Inr s, f1)" "seg_size s = 0" "healthy f1"
    using newSegment_healthy [of ex_fs "''d''" 0 100 0] by simp
  show ?thesis
    using segment_index_stops_at_one [OF n(1), of "ex_msgs @ ex_msgs @ ex_msgs @ ex_msgs @ ex_msgs"] n
    by (simp add: ex_msgs_def)
qed

end
