(* ===== verification/Partition_Log.thy ===== *)
theory Partition_Log
  imports Segment_Log
begin

text \<open>
  \<open>internal/broker/partition.go\<close>, the operations run one at a time: a partition hands out
  offsets, collects messages in a batch, and a flush writes the batch to a chain of segments.
  \<open>part_inv\<close> relates the record and the file system to the log of all accepted messages;
  the interleavings of concurrent publishers and flushers are in \<open>Partition_Races\<close>.
\<close>

section \<open>State and operations\<close>

record Partition =
  p_ID :: int
  p_Topic :: string
  p_LeaderID :: int
  segments :: "Segment list"
  nextOffset :: int
  hwm :: int
  dataDir :: string
  maxSegSize :: int
  batch :: "Message list"
  flushCh :: bool \<comment> \<open>the token in the one-slot channel\<close>
  msgCount :: int
  bytesCount :: int

definition partDir :: "string \<Rightarrow> string \<Rightarrow> int \<Rightarrow> string" where
  "partDir dir topic i = dir @ ''/'' @ topic @ ''/'' @ fmt_d i"

definition NewPartition ::
  "fs \<Rightarrow> int \<Rightarrow> string \<Rightarrow> string \<Rightarrow> int \<Rightarrow> int \<Rightarrow> (go_error + Partition) \<times> fs" where
  "NewPartition f i topic dir maxSz now =
     (let pdir = partDir dir topic i in
      case newSegment f pdir 0 maxSz now of
        (Inl e, f') \<Rightarrow> (Inl e, f')
      | (Inr seg, f') \<Rightarrow>
          (Inr \<lparr>p_ID = i, p_Topic = topic, p_LeaderID = 0, segments = [seg], nextOffset = 0,
                hwm = 0, dataDir = pdir, maxSegSize = maxSz, batch = [], flushCh = False,
                msgCount = 0, bytesCount = 0\<rparr>, f'))"

text \<open>
  \<open>Append\<close>: the pooled message is overwritten in all four fields before it is used, so here it
  is a fresh one. The send on \<open>flushCh\<close> never blocks.
\<close>

definition Partition_Append :: "Partition \<Rightarrow> bytes \<Rightarrow> bytes \<Rightarrow> int \<Rightarrow> int \<times> Partition" where
  "Partition_Append p key val now =
     (let next = i64 (nextOffset p + 1);
          msg = \<lparr>m_Offset = i64 (next - 1), m_Timestamp = now, m_Key = key, m_Value = val\<rparr>;
          b = batch p @ [msg]
      in (m_Offset msg,
          p\<lparr>nextOffset := next, batch := b,
            flushCh := (if length b \<ge> 500 then True else flushCh p),
            msgCount := i64 (msgCount p + 1),
            bytesCount := i64 (bytesCount p + int (length key + length val))\<rparr>))"

definition activeSegment :: "Partition \<Rightarrow> Segment" where
  "activeSegment p = last (segments p)"

text \<open>One round of the loop of \<open>flush\<close>; the active segment is the last one of the list.\<close>

definition flush_msg :: "fs \<Rightarrow> Partition \<Rightarrow> Message \<Rightarrow> int \<Rightarrow> Partition \<times> fs" where
  "flush_msg f p m now =
     (let (p1, f1) =
        (if IsFull (activeSegment p)
         then (case newSegment f (dataDir p) (m_Offset m) (maxSegSize p) now of
                 (Inr ns, f') \<Rightarrow> (p\<lparr>segments := segments p @ [ns]\<rparr>, f')
               | (Inl _, f') \<Rightarrow> (p, f'))
         else (p, f)) in
      case Segment_Append f1 (activeSegment p1) m of
        (_, seg, f2) \<Rightarrow>
          (p1\<lparr>segments := butlast (segments p1) @ [seg], hwm := i64 (m_Offset m + 1)\<rparr>, f2))"

fun flush_loop :: "fs \<Rightarrow> Partition \<Rightarrow> Message list \<Rightarrow> int \<Rightarrow> Partition \<times> fs" where
  "flush_loop f p [] now = (p, f)"
| "flush_loop f p (m # ms) now =
     (case flush_msg f p m now of (p', f') \<Rightarrow> flush_loop f' p' ms now)"

definition Partition_flush :: "fs \<Rightarrow> Partition \<Rightarrow> int \<Rightarrow> Partition \<times> fs" where
  "Partition_flush f p now =
     (if batch p = [] then (p, f) else flush_loop f (p\<lparr>batch := []\<rparr>) (batch p) now)"

text \<open>One round of \<open>batchFlusher\<close>: a tick, or a token taken from \<open>flushCh\<close>.\<close>

datatype flush_wakeup = Tick | FlushToken

definition batchFlusher_round :: "fs \<Rightarrow> Partition \<Rightarrow> flush_wakeup \<Rightarrow> int \<Rightarrow> Partition \<times> fs" where
  "batchFlusher_round f p w now =
     (case w of Tick \<Rightarrow> Partition_flush f p now
      | FlushToken \<Rightarrow> if flushCh p then Partition_flush f (p\<lparr>flushCh := False\<rparr>) now else (p, f))"

definition size_of :: "Message list \<Rightarrow> int" where
  "size_of ms = sum_list (map msg_size ms)"

fun fetch_loop :: "fs \<Rightarrow> Segment list \<Rightarrow> int \<Rightarrow> int \<Rightarrow> int \<Rightarrow> Message list \<times> fs" where
  "fetch_loop f [] fromOffset maxBytes tot = ([], f)"
| "fetch_loop f (seg # segs) fromOffset maxBytes tot =
     (if baseOffset seg > fromOffset then ([], f)
      else case Segment_Read f seg fromOffset (maxBytes - tot) of
        (Inl _, f1) \<Rightarrow> fetch_loop f1 segs fromOffset maxBytes tot
      | (Inr msgs, f1) \<Rightarrow>
          let tot' = tot + size_of msgs in
          if tot' \<ge> maxBytes then (msgs, f1)
          else (case fetch_loop f1 segs fromOffset maxBytes tot' of (rs, f2) \<Rightarrow> (msgs @ rs, f2)))"

definition Partition_Fetch ::
  "fs \<Rightarrow> Partition \<Rightarrow> int \<Rightarrow> int \<Rightarrow> int \<Rightarrow> (Message list \<times> int) \<times> Partition \<times> fs" where
  "Partition_Fetch f p fromOffset maxBytes now =
     (let (p1, f1) = Partition_flush f p now; h = hwm p1 in
      if fromOffset \<ge> h then (([], h), p1, f1)
      else case fetch_loop f1 (segments p1) fromOffset maxBytes 0 of
        (ms, f2) \<Rightarrow> ((ms, h), p1, f2))"

fun close_segs :: "fs \<Rightarrow> Segment list \<Rightarrow> Segment list \<times> fs" where
  "close_segs f [] = ([], f)"
| "close_segs f (s # ss) =
     (case Segment_Close f s of (_, s', f1) \<Rightarrow>
      case close_segs f1 ss of (ss', f2) \<Rightarrow> (s' # ss', f2))"

definition Partition_Close :: "fs \<Rightarrow> Partition \<Rightarrow> int \<Rightarrow> Partition \<times> fs" where
  "Partition_Close f p now =
     (let (p1, f1) = Partition_flush f p now; (ss, f2) = close_segs f1 (segments p1)
      in (p1\<lparr>segments := ss\<rparr>, f2))"

section \<open>The chain of segments\<close>

definition seg_at :: "fs \<Rightarrow> string \<Rightarrow> int \<Rightarrow> Segment \<Rightarrow> Message list \<Rightarrow> int \<Rightarrow> bool" where
  "seg_at f d mx s ms b \<longleftrightarrow> seg_holds f s ms \<and> \<not> seg_closed s \<and> maxSize s = mx \<and>
     baseOffset s = b \<and> logFile s = logPath d b \<and> indexFile s = idxPath d b"

fun chain :: "fs \<Rightarrow> string \<Rightarrow> int \<Rightarrow> int \<Rightarrow> Segment list \<Rightarrow> Message list list \<Rightarrow> bool" where
  "chain f d mx b [] [] = True"
| "chain f d mx b (s # ss) (ms # mss) =
     (seg_at f d mx s ms b \<and> chain f d mx (b + int (length ms)) ss mss)"
| "chain f d mx b _ _ = False"

lemma chain_length: "chain f d mx b ss mss \<Longrightarrow> length ss = length mss"
  by (induction f d mx b ss mss rule: chain.induct) auto

lemma chain_snoc:
  "chain f d mx b (ss @ [s]) (mss @ [ms]) \<longleftrightarrow>
     chain f d mx b ss mss \<and> seg_at f d mx s ms (b + int (length (concat mss)))"
proof (induction ss arbitrary: b mss)
  case Nil
  then show ?case by (cases mss; cases "tl mss") auto
next
  case (Cons a ss)
  then show ?case by (cases mss) (auto simp: add.assoc dest: chain_length)
qed

lemma chain_snocE:
  assumes "chain f d mx b ss mss" "mss \<noteq> []"
  obtains ss0 s mss0 ms where "ss = ss0 @ [s]" "mss = mss0 @ [ms]" "chain f d mx b ss0 mss0"
    "seg_at f d mx s ms (b + int (length (concat mss0)))"
proof -
  have "ss \<noteq> []" using assms chain_length [OF assms(1)] by auto
  then obtain ss0 s mss0 ms where "ss = ss0 @ [s]" "mss = mss0 @ [ms]"
    using assms(2) by (metis rev_exhaust)
  with assms(1) that show thesis by (simp add: chain_snoc)
qed

text \<open>
  Segments before the last one are untouched by writes to other files: their file names carry
  base offsets below the one written.
\<close>

lemma seg_at_cong:
  assumes "seg_at f d mx s ms b"
    "content f' (logPath d b) = content f (logPath d b)"
    "fexists f' (logPath d b) = fexists f (logPath d b)"
  shows "seg_at f' d mx s ms b"
  using assms by (auto simp: seg_at_def seg_holds_def)

lemma chain_frame:
  assumes "chain f d mx b ss mss" "\<forall>ms \<in> set mss. ms \<noteq> []"
    "\<And>b'. b \<le> b' \<Longrightarrow> b' < b + int (length (concat mss)) \<Longrightarrow>
       content f' (logPath d b') = content f (logPath d b') \<and>
       fexists f' (logPath d b') = fexists f (logPath d b')"
  shows "chain f' d mx b ss mss"
  using assms
proof (induction f d mx b ss mss rule: chain.induct)
  case (2 f d mx b s ss ms mss)
  have "0 < length ms" using "2.prems"(2) by (cases ms) simp_all
  then have "content f' (logPath d b) = content f (logPath d b) \<and>
      fexists f' (logPath d b) = fexists f (logPath d b)"
    by (intro "2.prems"(3)) (simp_all del: length_greater_0_conv)
  then have "seg_at f' d mx s ms b"
    using "2.prems"(1) seg_at_cong [of f d mx s ms b f'] by simp
  moreover have "chain f' d mx (b + int (length ms)) ss mss"
  proof (rule "2.IH")
    show "chain f d mx (b + int (length ms)) ss mss" using "2.prems"(1) by simp
    show "\<forall>ms \<in> set mss. ms \<noteq> []" using "2.prems"(2) by simp
    show "content f' (logPath d b') = content f (logPath d b') \<and>
        fexists f' (logPath d b') = fexists f (logPath d b')"
      if "b + int (length ms) \<le> b'" "b' < b + int (length ms) + int (length (concat mss))" for b'
      by (rule "2.prems"(3)) (use that in simp_all)
  qed
  ultimately show ?case by simp
qed simp_all

section \<open>Invariant\<close>

text \<open>
  \<open>store_inv f p mss\<close>: the segments of \<open>p\<close> hold the message lists \<open>mss\<close> back to back from
  offset 0, the high watermark is their number, only the last segment may be empty, and no file
  of a later segment exists yet. \<open>part_inv\<close> adds the batch, which continues the offsets.
\<close>

fun offsets_from :: "int \<Rightarrow> Message list \<Rightarrow> bool" where
  "offsets_from b [] = True"
| "offsets_from b (m # ms) = (m_Offset m = b \<and> offsets_from (b + 1) ms)"

definition store_inv :: "fs \<Rightarrow> Partition \<Rightarrow> Message list list \<Rightarrow> bool" where
  "store_inv f p mss \<longleftrightarrow> healthy f \<and> 0 < maxSegSize p \<and> mss \<noteq> [] \<and>
     chain f (dataDir p) (maxSegSize p) 0 (segments p) mss \<and>
     (\<forall>ms \<in> set (butlast mss). ms \<noteq> []) \<and>
     hwm p = int (length (concat mss)) \<and> hwm p < 2 ^ 63 \<and>
     offsets_from 0 (concat mss) \<and>
     (\<forall>b. int (length (concat (butlast mss))) < b \<and> b < 2 ^ 63 \<longrightarrow>
        \<not> fexists f (logPath (dataDir p) b))"

definition part_inv :: "fs \<Rightarrow> Partition \<Rightarrow> Message list list \<Rightarrow> bool" where
  "part_inv f p mss \<longleftrightarrow> store_inv f p mss \<and> offsets_from (hwm p) (batch p) \<and>
     list_all wf_msg (batch p) \<and> nextOffset p = hwm p + int (length (batch p)) \<and>
     nextOffset p < 2 ^ 63"

definition plog :: "Partition \<Rightarrow> Message list list \<Rightarrow> Message list" where
  "plog p mss = concat mss @ batch p"

lemma offsets_from_append [simp]:
  "offsets_from b (ms @ ns) \<longleftrightarrow> offsets_from b ms \<and> offsets_from (b + int (length ms)) ns"
  by (induction ms arbitrary: b) (simp_all add: algebra_simps)

lemma offsets_from_nth: "offsets_from b ms \<Longrightarrow> i < length ms \<Longrightarrow> m_Offset (ms ! i) = b + int i"
  by (induction ms arbitrary: b i) (auto simp: nth_Cons split: nat.split)

lemma offsets_from_ascending: "offsets_from b ms \<Longrightarrow> ascending ms"
  by (auto simp: sorted_wrt_iff_nth_less offsets_from_nth)

lemma offsets_from_filter:
  assumes "offsets_from b ms" "b \<le> off"
  shows "filter (\<lambda>m. off \<le> m_Offset m) ms = drop (nat (off - b)) ms"
  using assms
proof (induction ms arbitrary: b)
  case (Cons m ms)
  show ?case
  proof (cases "b = off")
    case True
    then have "\<forall>x \<in> set (m # ms). off \<le> m_Offset x"
      using Cons.prems(1) by (metis in_set_conv_nth le_add_same_cancel1 of_nat_0_le_iff offsets_from_nth)
    with True show ?thesis by (simp add: filter_True)
  next
    case False
    then have "nat (off - b) = Suc (nat (off - (b + 1)))" using Cons.prems(2) by linarith
    with False Cons show ?thesis by simp
  qed
qed simp

lemma newSegment_seg_at:
  assumes "healthy f" "\<not> fexists f (logPath d b)" "newSegment f d b mx now = (Inr s, f')"
  shows "seg_at f' d mx s [] b"
  using assms newSegment_holds [OF assms(1,3), of "[]"]
  by (auto simp: newSegment_healthy seg_at_def content_not_exists)

lemma seg_at_append:
  assumes "seg_at f d mx s ms b" "wf_msg m" "healthy f"
  obtains s' f' where "Segment_Append f s m = (None, s', f')" "healthy f'"
    "seg_at f' d mx s' (ms @ [m]) b"
    "\<And>q. q \<noteq> logPath d b \<Longrightarrow> q \<noteq> idxPath d b \<Longrightarrow>
       content f' q = content f q \<and> fexists f' q = fexists f q"
proof -
  obtain r s' f' where a: "Segment_Append f s m = (r, s', f')" by (cases "Segment_Append f s m")
  note h = Segment_Append_healthy [OF a]
  show thesis
  proof (rule that [of s' f'])
    show "Segment_Append f s m = (None, s', f')" "healthy f'"
      using h a assms by (auto simp: seg_at_def)
    show "seg_at f' d mx s' (ms @ [m]) b"
      using Segment_Append_stores [of f s ms m s' f'] Segment_Append_fields [OF a] h a assms
      by (auto simp: seg_at_def)
    show "content f' q = content f q \<and> fexists f' q = fexists f q"
      if "q \<noteq> logPath d b" "q \<noteq> idxPath d b" for q
      using Segment_Append_frame [OF a, of q] that assms(1) by (simp add: seg_at_def)
  qed
qed

section \<open>Flushing\<close>

text \<open>Two file systems that agree on every file but the segment files of one directory.\<close>

definition same_outside :: "string \<Rightarrow> fs \<Rightarrow> fs \<Rightarrow> bool" where
  "same_outside d f f' \<longleftrightarrow>
     (\<forall>q. (\<forall>b. 0 \<le> b \<and> b < 2 ^ 63 \<longrightarrow> q \<noteq> logPath d b \<and> q \<noteq> idxPath d b) \<longrightarrow>
        content f' q = content f q \<and> fexists f' q = fexists f q)"

lemma same_outside_refl [simp]: "same_outside d f f"
  by (simp add: same_outside_def)

lemma same_outside_trans [trans]:
  "same_outside d f f' \<Longrightarrow> same_outside d f' f'' \<Longrightarrow> same_outside d f f''"
  by (simp add: same_outside_def)

lemma same_outsideI:
  assumes "0 \<le> b" "b < 2 ^ 63" "\<And>q. q \<noteq> logPath d b \<Longrightarrow> q \<noteq> idxPath d b \<Longrightarrow>
    content f' q = content f q \<and> fexists f' q = fexists f q"
  shows "same_outside d f f'"
  using assms by (simp add: same_outside_def)

lemma chain_frame_below:
  assumes "chain f d mx 0 ss mss" "\<forall>ms \<in> set mss. ms \<noteq> []"
    "b = int (length (concat mss))" "b < 2 ^ 63"
    "\<And>q. q \<noteq> logPath d b \<Longrightarrow> q \<noteq> idxPath d b \<Longrightarrow>
       content f' q = content f q \<and> fexists f' q = fexists f q"
  shows "chain f' d mx 0 ss mss"
proof (rule chain_frame [OF assms(1,2)])
  fix b' :: int
  assume "0 \<le> b'" "b' < 0 + int (length (concat mss))"
  then have "logPath d b' \<noteq> logPath d b"
    using assms(3,4) by (subst logPath_inject) simp_all
  then show "content f' (logPath d b') = content f (logPath d b') \<and>
      fexists f' (logPath d b') = fexists f (logPath d b')"
    by (intro assms(5)) simp_all
qed

text \<open>A new segment is opened only when the active one is full, hence not empty.\<close>

lemma flush_msg_store:
  assumes inv: "store_inv f p mss" and m: "wf_msg m" "m_Offset m = hwm p" "hwm p + 1 < 2 ^ 63"
  obtains mss' p' f' where "flush_msg f p m now = (p', f')" "store_inv f' p' mss'"
    "concat mss' = concat mss @ [m]" "hwm p' = hwm p + 1"
    "batch p' = batch p" "nextOffset p' = nextOffset p" "dataDir p' = dataDir p"
    "p_ID p' = p_ID p" "p_LeaderID p' = p_LeaderID p" "same_outside (dataDir p) f f'"
proof -
  let ?d = "dataDir p" and ?mx = "maxSegSize p"
  have inv': "healthy f" "0 < ?mx" "mss \<noteq> []" "chain f ?d ?mx 0 (segments p) mss"
    "\<forall>ms \<in> set (butlast mss). ms \<noteq> []" "hwm p = int (length (concat mss))"
    "offsets_from 0 (concat mss)"
    and fresh: "\<And>b. int (length (concat (butlast mss))) < b \<Longrightarrow> b < 2 ^ 63 \<Longrightarrow>
      \<not> fexists f (logPath ?d b)"
    using inv by (auto simp: store_inv_def)
  obtain ss s ms0 ms where ss: "segments p = ss @ [s]" "mss = ms0 @ [ms]"
    "chain f ?d ?mx 0 ss ms0" and s: "seg_at f ?d ?mx s ms (int (length (concat ms0)))"
    by (rule chain_snocE [OF inv'(4,3)]) simp
  have i64: "i64 (m_Offset m + 1) = hwm p + 1"
    using m inv'(6) by (simp add: i64_id)
  show thesis
  proof (cases "IsFull s")
    case False
    let ?b = "int (length (concat ms0))"
    obtain s' f' where a: "Segment_Append f s m = (None, s', f')" "healthy f'"
      "seg_at f' ?d ?mx s' (ms @ [m]) ?b" and frame: "\<And>q. q \<noteq> logPath ?d ?b \<Longrightarrow>
         q \<noteq> idxPath ?d ?b \<Longrightarrow> content f' q = content f q \<and> fexists f' q = fexists f q"
      using seg_at_append [OF s m(1) inv'(1)] by blast
    let ?p' = "p\<lparr>segments := ss @ [s'], hwm := hwm p + 1\<rparr>"
    have c: "chain f' ?d ?mx 0 ss ms0"
      using chain_frame_below [OF ss(3) _ refl _ frame] inv' m ss(2) by simp
    have so: "same_outside ?d f f'"
    proof (rule same_outsideI [of ?b])
      show "0 \<le> ?b" "?b < 2 ^ 63" using m inv'(6) ss(2) by simp_all
    qed (rule frame)
    have "\<not> fexists f' (logPath ?d b)" if "?b < b" "b < 2 ^ 63" for b
    proof -
      have "logPath ?d b \<noteq> logPath ?d ?b"
        using that by (subst logPath_inject) simp_all
      then show ?thesis using frame fresh that ss(2) by simp
    qed
    then have "store_inv f' ?p' (ms0 @ [ms @ [m]])"
      using inv' m a c ss by (auto simp: store_inv_def chain_snoc)
    then show thesis
      using that [of ?p' f' "ms0 @ [ms @ [m]]"] False a i64 ss so
      by (simp add: flush_msg_def activeSegment_def)
  next
    case True
    have ne: "ms \<noteq> []"
      using True s inv'(2) by (auto simp: IsFull_def seg_at_def seg_holds_def)
    let ?b = "int (length (concat mss))"
    have nofile: "\<not> fexists f (logPath ?d ?b)"
      using ne ss(2) m inv'(6) by (intro fresh) simp_all
    obtain ns f1 where n: "newSegment f ?d ?b ?mx now = (Inr ns, f1)"
      using newSegment_healthy [OF inv'(1)] by blast
    then have h1: "healthy f1" and frame1: "\<And>q. q \<noteq> logPath ?d ?b \<Longrightarrow> q \<noteq> idxPath ?d ?b \<Longrightarrow>
        content f1 q = content f q \<and> fexists f1 q = fexists f q"
      using inv'(1) by (auto simp: newSegment_healthy)
    note ns = newSegment_seg_at [OF inv'(1) nofile n]
    obtain s' f' where a: "Segment_Append f1 ns m = (None, s', f')" "healthy f'"
      "seg_at f' ?d ?mx s' ([] @ [m]) ?b" and frame2: "\<And>q. q \<noteq> logPath ?d ?b \<Longrightarrow>
         q \<noteq> idxPath ?d ?b \<Longrightarrow> content f' q = content f1 q \<and> fexists f' q = fexists f1 q"
      using seg_at_append [OF ns m(1) h1] by blast
    have frame: "\<And>q. q \<noteq> logPath ?d ?b \<Longrightarrow> q \<noteq> idxPath ?d ?b \<Longrightarrow>
        content f' q = content f q \<and> fexists f' q = fexists f q"
      using frame1 frame2 by simp
    let ?p' = "p\<lparr>segments := segments p @ [s'], hwm := hwm p + 1\<rparr>"
    have so: "same_outside ?d f f'"
    proof (rule same_outsideI [of ?b])
      show "0 \<le> ?b" "?b < 2 ^ 63" using m inv'(6) by simp_all
    qed (rule frame)
    have all_ne: "\<forall>ms \<in> set mss. ms \<noteq> []" using inv'(5) ss(2) ne by auto
    have c: "chain f' ?d ?mx 0 (segments p) mss"
      using chain_frame_below [OF inv'(4) all_ne refl _ frame] m inv'(6) by simp
    have "\<not> fexists f' (logPath ?d b)" if "?b < b" "b < 2 ^ 63" for b
    proof -
      have "logPath ?d b \<noteq> logPath ?d ?b"
        using that by (subst logPath_inject) simp_all
      then show ?thesis using frame fresh that ss(2) by simp
    qed
    then have "store_inv f' ?p' (mss @ [[m]])"
      using inv' m a c all_ne by (auto simp: store_inv_def chain_snoc)
    then show thesis
      using that [of ?p' f' "mss @ [[m]]"] True n a i64 ss so m inv'(6)
      by (simp add: flush_msg_def activeSegment_def butlast_append)
  qed
qed

lemma flush_loop_store:
  assumes "store_inv f p mss" "offsets_from (hwm p) ms" "list_all wf_msg ms"
    "hwm p + int (length ms) < 2 ^ 63" "flush_loop f p ms now = (p', f')"
  shows "\<exists>mss'. store_inv f' p' mss' \<and> concat mss' = concat mss @ ms \<and>
    hwm p' = hwm p + int (length ms) \<and> batch p' = batch p \<and> nextOffset p' = nextOffset p \<and>
    dataDir p' = dataDir p \<and> p_ID p' = p_ID p \<and> p_LeaderID p' = p_LeaderID p \<and>
    same_outside (dataDir p) f f'"
  using assms
proof (induction ms arbitrary: f p mss)
  case (Cons m ms)
  have "wf_msg m" "m_Offset m = hwm p" "hwm p + 1 < 2 ^ 63" using Cons.prems(2-4) by simp_all
  from flush_msg_store [OF Cons.prems(1) this, of now]
  obtain mss1 p1 f1 where 1: "flush_msg f p m now = (p1, f1)" "store_inv f1 p1 mss1"
    "concat mss1 = concat mss @ [m]" "hwm p1 = hwm p + 1"
    "batch p1 = batch p" "nextOffset p1 = nextOffset p" "dataDir p1 = dataDir p"
    "p_ID p1 = p_ID p" "p_LeaderID p1 = p_LeaderID p" "same_outside (dataDir p) f f1" by metis
  have "\<exists>mss'. store_inv f' p' mss' \<and> concat mss' = concat mss1 @ ms \<and>
    hwm p' = hwm p1 + int (length ms) \<and> batch p' = batch p1 \<and> nextOffset p' = nextOffset p1 \<and>
    dataDir p' = dataDir p1 \<and> p_ID p' = p_ID p1 \<and> p_LeaderID p' = p_LeaderID p1 \<and>
    same_outside (dataDir p1) f1 f'"
    by (rule Cons.IH [OF 1(2)]) (use Cons.prems 1 in simp_all)
  with 1 show ?case by (auto intro: same_outside_trans)
qed auto

lemma store_inv_batch [simp]: "store_inv f (p\<lparr>batch := b\<rparr>) mss = store_inv f p mss"
  by (simp add: store_inv_def)

lemma flush_part_inv:
  assumes "part_inv f p mss" "Partition_flush f p now = (p', f')"
  obtains mss' where "part_inv f' p' mss'" "concat mss' = plog p mss" "batch p' = []"
    "hwm p' = nextOffset p" "nextOffset p' = nextOffset p" "dataDir p' = dataDir p"
    "p_ID p' = p_ID p" "p_LeaderID p' = p_LeaderID p" "same_outside (dataDir p) f f'"
proof (cases "batch p = []")
  case True
  then have "p' = p" "f' = f" using assms(2) by (simp_all add: Partition_flush_def)
  with True assms(1) show thesis using that [of mss] by (simp add: part_inv_def plog_def)
next
  case False
  then have loop: "flush_loop f (p\<lparr>batch := []\<rparr>) (batch p) now = (p', f')"
    using assms(2) by (simp add: Partition_flush_def)
  have pre: "store_inv f (p\<lparr>batch := []\<rparr>) mss" "offsets_from (hwm (p\<lparr>batch := []\<rparr>)) (batch p)"
      "list_all wf_msg (batch p)" "hwm (p\<lparr>batch := []\<rparr>) + int (length (batch p)) < 2 ^ 63"
    using assms(1) unfolding part_inv_def by simp_all
  obtain mss' where mss': "store_inv f' p' mss'" "concat mss' = concat mss @ batch p"
    "hwm p' = hwm (p\<lparr>batch := []\<rparr>) + int (length (batch p))" "batch p' = batch (p\<lparr>batch := []\<rparr>)"
    "nextOffset p' = nextOffset (p\<lparr>batch := []\<rparr>)" "dataDir p' = dataDir (p\<lparr>batch := []\<rparr>)"
    "p_ID p' = p_ID (p\<lparr>batch := []\<rparr>)" "p_LeaderID p' = p_LeaderID (p\<lparr>batch := []\<rparr>)"
    "same_outside (dataDir (p\<lparr>batch := []\<rparr>)) f f'"
    using flush_loop_store [OF pre loop] by blast
  show thesis
    by (rule that [of mss']) (use mss' assms(1) in \<open>simp_all add: part_inv_def plog_def\<close>)
qed

section \<open>Creating, appending\<close>

definition no_segments :: "fs \<Rightarrow> string \<Rightarrow> bool" where
  "no_segments f d \<longleftrightarrow> (\<forall>b. 0 \<le> b \<and> b < 2 ^ 63 \<longrightarrow> \<not> fexists f (logPath d b))"

lemma NewPartition_inv:
  assumes "healthy f" "0 < mx" "no_segments f (partDir dir topic i)"
  obtains p f' where "NewPartition f i topic dir mx now = (Inr p, f')" "part_inv f' p [[]]"
    "batch p = []" "hwm p = 0" "dataDir p = partDir dir topic i" "p_ID p = i" "healthy f'"
    "same_outside (partDir dir topic i) f f'"
proof -
  let ?d = "partDir dir topic i"
  obtain s f' where n: "newSegment f ?d 0 mx now = (Inr s, f')"
    using newSegment_healthy [OF assms(1)] by blast
  have nofile: "\<not> fexists f (logPath ?d 0)"
    using assms(3) by (simp add: no_segments_def)
  have h: "healthy f'" using n assms(1) by (auto simp: newSegment_healthy)
  have "\<not> fexists f' (logPath ?d b)" if "0 < b" "b < 2 ^ 63" for b
  proof -
    have "logPath ?d b \<noteq> logPath ?d 0" using that by (subst logPath_inject) simp_all
    then show ?thesis
      using n assms that by (auto simp: newSegment_healthy no_segments_def)
  qed
  moreover have "same_outside ?d f f'"
    by (rule same_outsideI [of 0]) (use n assms(1) in \<open>auto simp: newSegment_healthy\<close>)
  ultimately show thesis
    using that assms h n newSegment_seg_at [OF assms(1) nofile n]
    by (simp add: NewPartition_def Let_def part_inv_def store_inv_def)
qed

lemma Partition_Append_inv:
  assumes "part_inv f p mss" "nextOffset p + 1 < 2 ^ 63" "in_i64 now"
    "length key < 2 ^ 32" "length val < 2 ^ 32" "Partition_Append p key val now = (off, p')"
  shows "off = nextOffset p \<and> part_inv f p' mss \<and> nextOffset p' = nextOffset p + 1 \<and>
    plog p' mss = plog p mss @ [\<lparr>m_Offset = off, m_Timestamp = now, m_Key = key, m_Value = val\<rparr>]"
proof -
  have rng: "in_i64 (nextOffset p)" "i64 (nextOffset p + 1) = nextOffset p + 1"
    using assms(1,2) by (auto simp: part_inv_def store_inv_def in_i64_def i64_id)
  have "store_inv f (p\<lparr>nextOffset := n, batch := b, flushCh := c, msgCount := x, bytesCount := y\<rparr>) mss"
    for n b c x y using assms(1) by (simp add: part_inv_def store_inv_def)
  then show ?thesis
    using assms rng
    by (auto simp: Partition_Append_def Let_def part_inv_def plog_def wf_msg_def)
qed

section \<open>Fetching\<close>

text \<open>
  What a fetch returns: the messages from \<open>fromOffset\<close> on that the segment holding it has, up to
  the byte budget. It never reaches into the next segment.
\<close>

fun fetch_spec :: "int \<Rightarrow> Message list list \<Rightarrow> int \<Rightarrow> int \<Rightarrow> Message list" where
  "fetch_spec b [] fromOffset mx = []"
| "fetch_spec b (ms # mss) fromOffset mx =
     (if fromOffset < b + int (length ms) then take_budget mx 0 (drop (nat (fromOffset - b)) ms)
      else fetch_spec (b + int (length ms)) mss fromOffset mx)"

lemma size_of_simps [simp]: "size_of [] = 0" "size_of (m # ms) = msg_size m + size_of ms"
  by (simp_all add: size_of_def)

lemma fetch_loop_chain:
  assumes "chain f d mxs b ss mss" "healthy f" "offsets_from b (concat mss)" "b \<le> fromOffset"
    "0 < maxBytes"
  shows "fetch_loop f ss fromOffset maxBytes 0 = (fetch_spec b mss fromOffset maxBytes, f)"
  using assms
proof (induction f d mxs b ss mss rule: chain.induct)
  case (2 f d mxs b s ss ms mss)
  have s: "seg_at f d mxs s ms b" and c: "chain f d mxs (b + int (length ms)) ss mss"
    and o: "offsets_from b ms" "offsets_from (b + int (length ms)) (concat mss)"
    using "2.prems" by simp_all
  have r: "Segment_Read f s fromOffset maxBytes =
      (Inr (take_budget maxBytes 0 (drop (nat (fromOffset - b)) ms)), f)"
    using Segment_Read_correct [OF _ offsets_from_ascending [OF o(1)] "2.prems"(2)] s
      offsets_from_filter [OF o(1) "2.prems"(4)]
    by (simp add: seg_at_def read_spec_def)
  show ?case
  proof (cases "fromOffset < b + int (length ms)")
    case True
    have "fetch_loop f ss fromOffset maxBytes t = ([], f)" for t
      using c True by (cases ss; cases mss) (auto simp: seg_at_def)
    then show ?thesis
      using r s True "2.prems"(4) by (simp add: seg_at_def Let_def)
  next
    case False
    then have "drop (nat (fromOffset - b)) ms = []" by simp
    then show ?thesis
      using r s False "2.prems" "2.IH" c o by (simp add: seg_at_def Let_def)
  qed
qed simp_all

lemma fetch_spec_prefix:
  assumes "b \<le> fromOffset"
  shows "\<exists>n. fetch_spec b mss fromOffset mx = take n (drop (nat (fromOffset - b)) (concat mss))"
  using assms
proof (induction mss arbitrary: b)
  case (Cons ms mss)
  show ?case
  proof (cases "fromOffset < b + int (length ms)")
    case True
    let ?ds = "drop (nat (fromOffset - b)) ms" and ?n = "length (take_budget mx 0 (drop (nat (fromOffset - b)) ms))"
    have "?n \<le> length ?ds" using take_budget_prefix [of mx 0 ?ds] by (metis length_take min.cobounded1)
    then show ?thesis
      using True take_budget_prefix [of mx 0 ?ds] by (intro exI [of _ ?n]) simp
  next
    case False
    then have "nat (fromOffset - b) - length ms = nat (fromOffset - (b + int (length ms)))" by simp
    with False Cons show ?thesis by simp
  qed
qed simp

lemma fetch_spec_nonempty:
  assumes "b \<le> fromOffset" "fromOffset < b + int (length (concat mss))" "0 < mx"
  shows "fetch_spec b mss fromOffset mx \<noteq> []"
  using assms
proof (induction mss arbitrary: b)
  case (Cons ms mss)
  show ?case
  proof (cases "fromOffset < b + int (length ms)")
    case True
    then have "drop (nat (fromOffset - b)) ms \<noteq> []" using Cons.prems(1) by simp
    with True Cons.prems(3) show ?thesis by (simp add: take_budget_nonempty)
  next
    case False
    with Cons show ?thesis by simp
  qed
qed simp

lemma Partition_Fetch_spec:
  assumes "part_inv f p mss" "0 < maxBytes"
    "Partition_Fetch f p fromOffset maxBytes now = ((ms, h), p', f')"
  obtains mss' where "part_inv f' p' mss'" "concat mss' = plog p mss" "batch p' = []"
    "hwm p' = nextOffset p" "nextOffset p' = nextOffset p" "dataDir p' = dataDir p"
    "h = nextOffset p"
    "ms = (if 0 \<le> fromOffset \<and> fromOffset < nextOffset p
           then fetch_spec 0 mss' fromOffset maxBytes else [])"
    "p_ID p' = p_ID p" "p_LeaderID p' = p_LeaderID p" "same_outside (dataDir p) f f'"
proof -
  obtain p1 f1 where fl: "Partition_flush f p now = (p1, f1)" by fastforce
  obtain mss' where m: "part_inv f1 p1 mss'" "concat mss' = plog p mss" "batch p1 = []"
    "hwm p1 = nextOffset p" "nextOffset p1 = nextOffset p" "dataDir p1 = dataDir p"
    "p_ID p1 = p_ID p" "p_LeaderID p1 = p_LeaderID p" "same_outside (dataDir p) f f1"
    using flush_part_inv [OF assms(1) fl] by metis
  then have c: "chain f1 (dataDir p1) (maxSegSize p1) 0 (segments p1) mss'" "healthy f1"
    "offsets_from 0 (concat mss')" "mss' \<noteq> []"
    by (auto simp: part_inv_def store_inv_def)
  have neg: "fetch_loop f1 (segments p1) fromOffset maxBytes 0 = ([], f1)" if "fromOffset < 0"
    using c(1,4) that by (cases "segments p1"; cases mss') (auto simp: seg_at_def)
  have pos: "fetch_loop f1 (segments p1) fromOffset maxBytes 0 =
      (fetch_spec 0 mss' fromOffset maxBytes, f1)" if "0 \<le> fromOffset"
    using fetch_loop_chain [OF c(1-3) that assms(2)] .
  have "f' = f1 \<and> p' = p1 \<and> h = nextOffset p \<and> ms = (if 0 \<le> fromOffset \<and> fromOffset < nextOffset p
           then fetch_spec 0 mss' fromOffset maxBytes else [])"
    using assms(3) fl neg pos m(4)
    by (cases "fromOffset < 0") (auto simp: Partition_Fetch_def Let_def split: if_splits)
  with m that show thesis by metis
qed

section \<open>Independence of partitions\<close>

lemma partDir_inject [simp]: "partDir d t i = partDir d t' i' \<longleftrightarrow> t = t' \<and> i = i'"
proof
  assume "partDir d t i = partDir d t' i'"
  then have "(d @ ''/'' @ t) @ CHR ''/'' # fmt_d i = (d @ ''/'' @ t') @ CHR ''/'' # fmt_d i'"
    by (simp add: partDir_def)
  then have "d @ ''/'' @ t = d @ ''/'' @ t' \<and> fmt_d i = fmt_d i'"
    by (rule split_at_last_sep) simp_all
  then show "t = t' \<and> i = i'" by simp
qed simp

lemma idxPath_neq_logPath [simp]: "idxPath d' b' \<noteq> logPath d b"
  using logPath_neq_idxPath by metis

lemma same_outside_other_dir:
  assumes "same_outside d f f'" "d' \<noteq> d" "0 \<le> b" "b < 2 ^ 63"
  shows "content f' (logPath d' b) = content f (logPath d' b) \<and>
    fexists f' (logPath d' b) = fexists f (logPath d' b)"
proof -
  have "logPath d' b \<noteq> logPath d b'" if "0 \<le> b'" "b' < 2 ^ 63" for b'
    using assms that by (subst logPath_inject) simp_all
  then show ?thesis using assms(1) by (simp add: same_outside_def)
qed

lemma chain_cong:
  assumes "chain f d mx b ss mss"
    "\<And>b'. b \<le> b' \<Longrightarrow> b' \<le> b + int (length (concat mss)) \<Longrightarrow>
       content f' (logPath d b') = content f (logPath d b') \<and>
       fexists f' (logPath d b') = fexists f (logPath d b')"
  shows "chain f' d mx b ss mss"
  using assms
proof (induction f d mx b ss mss rule: chain.induct)
  case (2 f d mx b s ss ms mss)
  have "seg_at f' d mx s ms b"
    using "2.prems"(1) seg_at_cong [of f d mx s ms b f'] "2.prems"(2) [of b] by simp
  moreover have "chain f' d mx (b + int (length ms)) ss mss"
    by (rule "2.IH") (use "2.prems" in simp_all)
  ultimately show ?case by simp
qed simp_all

lemma part_inv_other_dir:
  assumes "part_inv f p mss" "same_outside d f f'" "dataDir p \<noteq> d" "healthy f'"
  shows "part_inv f' p mss"
proof -
  note other = same_outside_other_dir [OF assms(2,3)]
  have inv: "chain f (dataDir p) (maxSegSize p) 0 (segments p) mss"
    "hwm p = int (length (concat mss))" "hwm p < 2 ^ 63"
    using assms(1) by (auto simp: part_inv_def store_inv_def)
  have "chain f' (dataDir p) (maxSegSize p) 0 (segments p) mss"
    by (rule chain_cong [OF inv(1)], rule other) (use inv in simp_all)
  moreover have "\<not> fexists f' (logPath (dataDir p) b)"
    if "int (length (concat (butlast mss))) < b" "b < 2 ^ 63" for b
    using other [of b] that assms(1) by (simp add: part_inv_def store_inv_def)
  ultimately show ?thesis
    using assms(1,4) by (auto simp: part_inv_def store_inv_def)
qed

lemma no_segments_other_dir:
  assumes "no_segments f d'" "same_outside d f f'" "d' \<noteq> d"
  shows "no_segments f' d'"
  using assms same_outside_other_dir [OF assms(2,3)] by (simp add: no_segments_def)

section \<open>The abstract log\<close>

text \<open>
  The specification of a partition is a list of messages: a publish appends one whose offset is
  the length of the list, flushes and fetches leave it alone.
\<close>

datatype part_op =
    OpAppend bytes bytes int
  | OpFlush int
  | OpFetch int int int

definition part_step :: "Partition \<times> fs \<Rightarrow> part_op \<Rightarrow> Partition \<times> fs" where
  "part_step s x =
     (case x of
        OpAppend key val now \<Rightarrow> (snd (Partition_Append (fst s) key val now), snd s)
      | OpFlush now \<Rightarrow> Partition_flush (snd s) (fst s) now
      | OpFetch fromOffset mx now \<Rightarrow> snd (Partition_Fetch (snd s) (fst s) fromOffset mx now))"

definition log_step :: "Message list \<Rightarrow> part_op \<Rightarrow> Message list" where
  "log_step l x =
     (case x of
        OpAppend key val now \<Rightarrow>
          l @ [\<lparr>m_Offset = int (length l), m_Timestamp = now, m_Key = key, m_Value = val\<rparr>]
      | _ \<Rightarrow> l)"

definition op_ok :: "part_op \<Rightarrow> bool" where
  "op_ok x \<longleftrightarrow>
     (case x of
        OpAppend key val now \<Rightarrow> in_i64 now \<and> length key < 2 ^ 32 \<and> length val < 2 ^ 32
      | OpFlush now \<Rightarrow> True
      | OpFetch fromOffset mx now \<Rightarrow> 0 < mx)"

definition refines :: "Partition \<times> fs \<Rightarrow> Message list \<Rightarrow> bool" where
  "refines s l \<longleftrightarrow> (\<exists>mss. part_inv (snd s) (fst s) mss \<and> plog (fst s) mss = l)"

lemma part_inv_length: "part_inv f p mss \<Longrightarrow> nextOffset p = int (length (plog p mss))"
  by (simp add: part_inv_def store_inv_def plog_def)

lemma part_step_refines:
  assumes "refines s l" "op_ok x" "int (length l) + 1 < 2 ^ 63"
  shows "refines (part_step s x) (log_step l x)"
proof -
  obtain p f where s: "s = (p, f)" by fastforce
  obtain mss where m: "part_inv f p mss" "plog p mss = l"
    using assms(1) by (auto simp: refines_def s)
  show ?thesis
  proof (cases x)
    case (OpAppend key val now)
    obtain off p' where a: "Partition_Append p key val now = (off, p')" by fastforce
    show ?thesis
      using Partition_Append_inv [OF m(1) _ _ _ _ a] part_inv_length [OF m(1)] assms(2,3) m(2) a
      by (auto simp: OpAppend s part_step_def log_step_def op_ok_def refines_def)
  next
    case (OpFlush now)
    obtain p' f' where fl: "Partition_flush f p now = (p', f')" by fastforce
    obtain mss' where "part_inv f' p' mss'" "concat mss' = plog p mss" "batch p' = []"
      using flush_part_inv [OF m(1) fl] by metis
    then show ?thesis
      using fl m(2) by (auto simp: OpFlush s part_step_def log_step_def refines_def plog_def)
  next
    case (OpFetch fromOffset mx now)
    obtain ms h p' f' where fe: "Partition_Fetch f p fromOffset mx now = ((ms, h), p', f')"
      by (metis prod.exhaust)
    have "0 < mx" using assms(2) by (simp add: OpFetch op_ok_def)
    then obtain mss' where "part_inv f' p' mss'" "concat mss' = plog p mss" "batch p' = []"
      using Partition_Fetch_spec [OF m(1) _ fe] by metis
    then show ?thesis
      using fe m(2) by (auto simp: OpFetch s part_step_def log_step_def refines_def plog_def)
  qed
qed

lemma length_log_step: "length (log_step l x) \<le> Suc (length l)"
  by (simp add: log_step_def split: part_op.split)

lemma part_run_refines:
  assumes "refines s l" "list_all op_ok xs" "int (length l) + int (length xs) < 2 ^ 63"
  shows "refines (foldl part_step s xs) (foldl log_step l xs)"
  using assms
proof (induction xs arbitrary: s l)
  case (Cons x xs)
  have "refines (part_step s x) (log_step l x)"
    by (rule part_step_refines) (use Cons.prems in simp_all)
  then show ?case
    using Cons.IH Cons.prems(2,3) length_log_step [of l x] by simp
qed simp

section \<open>Reading a partition to its end\<close>

text \<open>
  A client that always asks for the offset after the last message it got, as \<open>FetchStream\<close>
  advances \<open>fromOffset\<close>; \<open>n\<close> bounds the number of fetches.
\<close>

fun drain :: "nat \<Rightarrow> fs \<Rightarrow> Partition \<Rightarrow> int \<Rightarrow> int \<Rightarrow> int \<Rightarrow> Message list" where
  "drain 0 f p fromOffset mx now = []"
| "drain (Suc n) f p fromOffset mx now =
     (case Partition_Fetch f p fromOffset mx now of
        ((ms, h), p', f') \<Rightarrow>
          if ms = [] then [] else ms @ drain n f' p' (m_Offset (last ms) + 1) mx now)"

lemma plog_offsets: "part_inv f p mss \<Longrightarrow> offsets_from 0 (plog p mss)"
  by (auto simp: part_inv_def store_inv_def plog_def)

lemma Partition_Fetch_contract:
  assumes "part_inv f p mss" "0 < mx" "0 \<le> fromOffset" "fromOffset < nextOffset p"
    "Partition_Fetch f p fromOffset mx now = ((ms, h), p', f')"
  shows "ms \<noteq> [] \<and> ms = take (length ms) (drop (nat fromOffset) (plog p mss)) \<and>
    m_Offset (last ms) + 1 = fromOffset + int (length ms) \<and> h = nextOffset p \<and>
    nextOffset p' = nextOffset p \<and> (\<exists>mss'. part_inv f' p' mss' \<and> plog p' mss' = plog p mss)"
proof -
  obtain mss' where m: "part_inv f' p' mss'" "concat mss' = plog p mss" "batch p' = []"
    "nextOffset p' = nextOffset p" "h = nextOffset p" "ms = fetch_spec 0 mss' fromOffset mx"
    using Partition_Fetch_spec [OF assms(1,2,5)] assms(3,4) by (metis (full_types))
  obtain n where n: "ms = take n (drop (nat fromOffset) (plog p mss))"
    using fetch_spec_prefix [of 0 fromOffset mss' mx] m(2,6) assms(3) by auto
  have ne: "ms \<noteq> []"
    using fetch_spec_nonempty [of 0 fromOffset mss' mx] m(2,6) assms part_inv_length [OF assms(1)]
    by simp
  have pre: "ms = take (length ms) (drop (nat fromOffset) (plog p mss))"
    using n by (metis length_take min.commute take_take take_all_iff nle_le)
  have lt: "nat fromOffset + (length ms - 1) < length (plog p mss)"
    using ne pre by (cases ms) (auto dest!: arg_cong [where f = length])
  have "ms ! (length ms - 1) = take (length ms) (drop (nat fromOffset) (plog p mss)) ! (length ms - 1)"
    by (rule arg_cong [OF pre])
  then have "last ms = plog p mss ! (nat fromOffset + (length ms - 1))"
    using ne lt by (simp add: last_conv_nth)
  then have "m_Offset (last ms) = fromOffset + int (length ms - 1)"
    using offsets_from_nth [OF plog_offsets [OF assms(1)] lt] assms(3) by simp
  moreover have "int (length ms - 1) + 1 = int (length ms)" using ne by (cases ms) simp_all
  moreover have "plog p' mss' = plog p mss" using m(2,3) by (simp add: plog_def)
  ultimately show ?thesis using ne pre m(1,4,5) by auto
qed

lemma drain_complete:
  assumes "part_inv f p mss" "0 < mx" "0 \<le> fromOffset" "nextOffset p - fromOffset < int n"
  shows "drain n f p fromOffset mx now = drop (nat fromOffset) (plog p mss)"
  using assms
proof (induction n arbitrary: f p mss fromOffset)
  case 0
  then show ?case using part_inv_length [OF "0.prems"(1)] by simp
next
  case (Suc n)
  obtain ms h p' f' where fe: "Partition_Fetch f p fromOffset mx now = ((ms, h), p', f')"
    by (metis prod.exhaust)
  show ?case
  proof (cases "fromOffset < nextOffset p")
    case True
    note c = Partition_Fetch_contract [OF Suc.prems(1-3) True fe]
    then obtain mss' where m: "part_inv f' p' mss'" "plog p' mss' = plog p mss" by blast
    have "1 \<le> int (length ms)" using c by (auto simp: Suc_le_eq)
    then have "nextOffset p - (fromOffset + int (length ms)) < int n"
      using Suc.prems(4) by simp
    then have "drain n f' p' (fromOffset + int (length ms)) mx now =
        drop (nat (fromOffset + int (length ms))) (plog p mss)"
      using Suc.IH [OF m(1) Suc.prems(2), of "fromOffset + int (length ms)"] Suc.prems(3) c m(2)
      by simp
    moreover have "nat (fromOffset + int (length ms)) = length ms + nat fromOffset"
      using Suc.prems(3) by simp
    ultimately show ?thesis
      using fe c by simp (metis append_take_drop_id drop_drop)
  next
    case False
    then have "ms = []" using Partition_Fetch_spec [OF Suc.prems(1,2) fe] by metis
    then show ?thesis using False fe part_inv_length [OF Suc.prems(1)] by simp
  qed
qed

section \<open>Properties\<close>

text \<open>
  C7: a new partition in a directory without segment files refines the abstract log: after any
  sequence of publishes, flushes and fetches, on the disk and in the batch together there is
  exactly the list of published messages, numbered from 0 without gaps.
\<close>

theorem partition_refines_log:
  assumes "healthy f" "0 < maxSz" "no_segments f (partDir dir topic i)"
    "NewPartition f i topic dir maxSz now = (Inr p, f1)"
    "list_all op_ok xs" "int (length xs) < 2 ^ 63"
  shows "refines (foldl part_step (p, f1) xs) (foldl log_step [] xs)"
proof -
  have "part_inv f1 p [[]]" "batch p = []"
    using NewPartition_inv [OF assms(1-3)] assms(4) by (metis Pair_inject sum.inject(2))+
  then have "refines (p, f1) []" by (auto simp: refines_def plog_def intro: exI [of _ "[[]]"])
  then show ?thesis using part_run_refines [OF _ assms(5)] assms(6) by simp
qed

definition ex_ops :: "part_op list" where
  "ex_ops = [OpAppend [1] [2] 5, OpFlush 6, OpAppend [] [3, 4] 7, OpFetch 0 1000 8, OpAppend [] [] 9]"

lemma ex_no_segments: "no_segments ex_fs d"
  by (simp add: no_segments_def)

lemma ex_ops_ok: "list_all op_ok ex_ops"
  by (simp add: ex_ops_def op_ok_def in_i64_def)

theorem partition_refines_log_witness:
  "\<exists>p f1. NewPartition ex_fs 0 ''t'' ''d'' 40 0 = (Inr p, f1) \<and>
     refines (foldl part_step (p, f1) ex_ops)
       [\<lparr>m_Offset = 0, m_Timestamp = 5, m_Key = [1], m_Value = [2]\<rparr>,
        \<lparr>m_Offset = 1, m_Timestamp = 7, m_Key = [], m_Value = [3, 4]\<rparr>,
        \<lparr>m_Offset = 2, m_Timestamp = 9, m_Key = [], m_Value = []\<rparr>]"
proof -
  obtain p f1 where n: "NewPartition ex_fs 0 ''t'' ''d'' 40 0 = (Inr p, f1)"
    using NewPartition_inv [OF ex_fs_simps(1) _ ex_no_segments] by (metis zero_less_numeral)
  have "refines (foldl part_step (p, f1) ex_ops) (foldl log_step [] ex_ops)"
    using partition_refines_log [OF _ _ ex_no_segments n ex_ops_ok] by (simp add: ex_ops_def)
  then show ?thesis using n by (simp add: ex_ops_def log_step_def)
qed

text \<open>A partition with three messages, one of them still in the batch, for the witnesses below.\<close>

lemma ex_part_run:
  obtains p f mss where "part_inv f p mss" "nextOffset p = 3"
    "plog p mss = foldl log_step [] ex_ops"
    "(p, f) = foldl part_step (projr (fst (NewPartition ex_fs 0 ''t'' ''d'' 40 0)),
                snd (NewPartition ex_fs 0 ''t'' ''d'' 40 0)) ex_ops"
proof -
  obtain p0 f0 where n: "NewPartition ex_fs 0 ''t'' ''d'' 40 0 = (Inr p0, f0)" "part_inv f0 p0 [[]]"
    "batch p0 = []"
    using NewPartition_inv [OF ex_fs_simps(1) _ ex_no_segments] by (metis zero_less_numeral)
  obtain p f where r: "foldl part_step (p0, f0) ex_ops = (p, f)" by fastforce
  have "refines (p0, f0) []" using n by (auto simp: refines_def plog_def intro: exI [of _ "[[]]"])
  then have "refines (p, f) (foldl log_step [] ex_ops)"
    using part_run_refines [OF _ ex_ops_ok, of "(p0, f0)" "[]"] r by (simp add: ex_ops_def)
  then obtain mss where m: "part_inv f p mss" "plog p mss = foldl log_step [] ex_ops"
    by (auto simp: refines_def)
  then have "nextOffset p = 3"
    using part_inv_length [OF m(1)] by (simp add: ex_ops_def log_step_def)
  with m r n that show thesis by simp
qed

text \<open>
  C8: a fetch at an offset below the next one returns at least one message, and the messages
  are a contiguous part of the log starting exactly at that offset; the high watermark it
  reports covers every published message; the log itself is unchanged.
\<close>

theorem partition_fetch_contiguous:
  assumes "part_inv f p mss" "0 < maxBytes" "0 \<le> fromOffset" "fromOffset < nextOffset p"
    "Partition_Fetch f p fromOffset maxBytes now = ((ms, h), p', f')"
  shows "ms \<noteq> [] \<and> ms = take (length ms) (drop (nat fromOffset) (plog p mss)) \<and>
    h = nextOffset p \<and> (\<exists>mss'. part_inv f' p' mss' \<and> plog p' mss' = plog p mss)"
  using Partition_Fetch_contract [OF assms] by blast

theorem partition_fetch_contiguous_witness:
  "\<exists>f p ms h p' f'. Partition_Fetch f p 1 1000 0 = ((ms, h), p', f') \<and> ms \<noteq> [] \<and> h = 3 \<and>
     ms = take (length ms)
       [\<lparr>m_Offset = 1, m_Timestamp = 7, m_Key = [], m_Value = [3, 4]\<rparr>,
        \<lparr>m_Offset = 2, m_Timestamp = 9, m_Key = [], m_Value = []\<rparr>]"
proof -
  obtain p f mss where e: "part_inv f p mss" "nextOffset p = 3"
    "plog p mss = foldl log_step [] ex_ops" by (rule ex_part_run)
  obtain ms h p' f' where fe: "Partition_Fetch f p 1 1000 0 = ((ms, h), p', f')"
    by (metis prod.exhaust)
  from partition_fetch_contiguous [OF e(1) _ _ _ fe] e(2)
  have "ms \<noteq> [] \<and> ms = take (length ms) (drop (nat 1) (plog p mss)) \<and> h = 3" by simp
  moreover have "drop (nat 1) (plog p mss) =
      [\<lparr>m_Offset = 1, m_Timestamp = 7, m_Key = [], m_Value = [3, 4]\<rparr>,
       \<lparr>m_Offset = 2, m_Timestamp = 9, m_Key = [], m_Value = []\<rparr>]"
    using e(3) by (simp add: ex_ops_def log_step_def)
  ultimately show ?thesis using fe by metis
qed

text \<open>
  C9: a client that fetches on from the last offset it saw gets every message from its starting
  point, once and in order, within as many fetches as there are messages left plus one, whatever
  its byte budget.
\<close>

theorem partition_drain_complete:
  assumes "part_inv f p mss" "0 < maxBytes" "0 \<le> fromOffset" "nextOffset p - fromOffset < int n"
  shows "drain n f p fromOffset maxBytes now = drop (nat fromOffset) (plog p mss)"
  using assms by (rule drain_complete)

theorem partition_drain_complete_witness:
  "\<exists>f p. map m_Offset (drain 4 f p 0 1 0) = [0, 1, 2]"
proof -
  obtain p f mss where e: "part_inv f p mss" "nextOffset p = 3"
    "plog p mss = foldl log_step [] ex_ops" by (rule ex_part_run)
  have "drain 4 f p 0 1 0 = plog p mss"
    using partition_drain_complete [OF e(1), of 1 0 4 0] e(2) by simp
  then have "map m_Offset (drain 4 f p 0 1 0) = [0, 1, 2]"
    using e(3) by (simp add: ex_ops_def log_step_def)
  then show ?thesis by (intro exI)
qed

text \<open>
  A flush drops messages whose write fails: the error of \<open>seg.Append\<close> is discarded, the
  high watermark still moves past the message, and the segment does not hold it.
\<close>

lemma flush_loses_failed_write:
  assumes "\<not> IsFull (activeSegment p)" "\<not> seg_closed (activeSegment p)" "segments p \<noteq> []"
    "sched f = IoErr n # rest"
  shows "flush_msg f p m now =
    (p\<lparr>hwm := i64 (m_Offset m + 1)\<rparr>,
     f\<lparr>sched := rest,
       files := gm_put (files f) (logFile (activeSegment p))
         (content f (logFile (activeSegment p)) @ take n (encode_msg m))\<rparr>)"
proof -
  have "io_next f = (IoErr n, f\<lparr>sched := rest\<rparr>)" using assms(4) by (simp add: io_next_def)
  moreover have "butlast (segments p) @ [activeSegment p] = segments p"
    using assms(3) by (simp add: activeSegment_def)
  moreover have "p\<lparr>segments := segments p, hwm := h\<rparr> = p\<lparr>hwm := h\<rparr>" for h by simp
  ultimately show ?thesis
    using assms(1,2)
    by (simp add: flush_msg_def Segment_Append_def seg_write_def os_Write_def Let_def content_def)
qed

text \<open>
  Reopening a partition does not recover it. With the first segment file of an earlier run in
  place, the new partition starts at offset 0 and reports an empty log; the first publish gets
  offset 0 again, and from then on a fetch from 0 returns the new message only: the records of
  the earlier run are in the file but no fetch reaches them.
\<close>

lemma restart_hides_old_messages:
  assumes "healthy f" "content f (logPath (partDir dir topic i) 0) = log_bytes old"
    "list_all wf_msg old" "int (length (log_bytes old)) < maxSz" "0 < maxBytes"
    "NewPartition f i topic dir maxSz now0 = (Inr p, f1)"
    "in_i64 now" "length key < 2 ^ 32" "length val < 2 ^ 32"
    "Partition_Append p key val now = (off, p')"
  shows "fst (Partition_Fetch f1 p 0 maxBytes now1) = ([], 0) \<and> off = 0 \<and>
    fst (Partition_Fetch f1 p' 0 maxBytes now1) =
      ([\<lparr>m_Offset = 0, m_Timestamp = now, m_Key = key, m_Value = val\<rparr>], 1)"
proof -
  let ?d = "partDir dir topic i"
  let ?m = "\<lparr>m_Offset = 0, m_Timestamp = now, m_Key = key, m_Value = val\<rparr>"
  obtain s where n: "newSegment f ?d 0 maxSz now0 = (Inr s, f1)" and p: "segments p = [s]"
    "nextOffset p = 0" "hwm p = 0" "batch p = []"
    using assms(6) by (auto simp: NewPartition_def Let_def split: prod.splits sum.splits)
  have s: "seg_holds f1 s old" "healthy f1" "\<not> seg_closed s" "seg_index s = []" "baseOffset s = 0"
    "seg_size s = int (length (log_bytes old))" "\<not> IsFull s"
    using newSegment_holds [OF assms(1) n assms(2,3)] n assms(1,2,4)
    by (auto simp: newSegment_healthy IsFull_def)
  have p': "off = 0" "batch p' = [?m]" "segments p' = [s]" "dataDir p' = dataDir p"
    using assms(10) p by (auto simp: Partition_Append_def Let_def i64_id)
  obtain r s2 f2 where a: "Segment_Append f1 s ?m = (r, s2, f2)" by (cases "Segment_Append f1 s ?m")
  have m: "wf_msg ?m" using assms(7-9) by (simp add: wf_msg_def in_i64_def)
  have s2: "r = None" "healthy f2" "seg_holds f2 s2 (old @ [?m])" "baseOffset s2 = 0"
    "seg_index s2 = [\<lparr>ie_offset = 0, ie_position = int (length (log_bytes old))\<rparr>]"
    using Segment_Append_healthy [OF a s(2,3)] Segment_Append_stores [OF s(1) m] a
      Segment_Append_index [OF a] Segment_Append_fields [OF a] s by simp_all
  have fl: "Partition_flush f1 p' now1 =
      (p'\<lparr>batch := [], segments := [s2], hwm := 1\<rparr>, f2)"
    using s(7) a p p' by (simp add: Partition_flush_def flush_msg_def activeSegment_def i64_id)
  have "Segment_Read f2 s2 0 maxBytes = (Inr [?m], f2)"
    using s2 m assms(5) read_loop_record [OF m s2(2) assms(5), of "[]" 0] read_loop_torn [of "[]" f2]
    by (simp add: Segment_Read_def findPosition_def seg_holds_def get_content)
  then have "fst (Partition_Fetch f1 p' 0 maxBytes now1) = ([?m], 1)"
    using fl s2(4) by (simp add: Partition_Fetch_def Let_def)
  moreover have "fst (Partition_Fetch f1 p 0 maxBytes now1) = ([], 0)"
    using p by (simp add: Partition_Fetch_def Partition_flush_def)
  ultimately show ?thesis using p'(1) by simp
qed

lemma restart_hides_old_messages_witness:
  "\<exists>f p f1 p'. content f (logPath (partDir ''d'' ''t'' 0) 0) = log_bytes ex_msgs \<and>
     NewPartition f 0 ''t'' ''d'' 100 0 = (Inr p, f1) \<and> Partition_Append p [9] [9] 7 = (0, p') \<and>
     fst (Partition_Fetch f1 p 0 1000 8) = ([], 0) \<and>
     fst (Partition_Fetch f1 p' 0 1000 8) =
       ([\<lparr>m_Offset = 0, m_Timestamp = 7, m_Key = [9], m_Value = [9]\<rparr>], 1)"
proof -
  let ?f = "\<lparr>files = [(logPath (partDir ''d'' ''t'' 0) 0, log_bytes ex_msgs)], sched = []\<rparr>"
  have f: "healthy ?f" "content ?f (logPath (partDir ''d'' ''t'' 0) 0) = log_bytes ex_msgs"
    by (simp_all add: healthy_def content_def gm_get_def)
  obtain p f1 where n: "NewPartition ?f 0 ''t'' ''d'' 100 0 = (Inr p, f1)"
    using newSegment_healthy [OF f(1)] by (simp add: NewPartition_def Let_def)
  obtain off p' where a: "Partition_Append p [9] [9] 7 = (off, p')" by fastforce
  have len: "int (length (log_bytes ex_msgs)) < 100"
    by (simp add: ex_msgs_def length_encode_msg)
  show ?thesis
    using restart_hides_old_messages [OF f ex_msgs_simps(1) len _ n _ _ _ a, of 1000 8] f(2) n a
    by (auto simp: in_i64_def)
qed

end
