(* ===== verification/Broker_Config.thy ===== *)
theory Broker_Config
  imports Go_Files
begin

text \<open>
  \<open>internal/broker/config.go\<close>: the configuration records, their defaults, and loading. The YAML
  parser is third-party code: \<open>LoadConfig\<close> takes it as a parameter.
\<close>

record BrokerConfig =
  bc_ID :: int
  GRPCAddr :: string
  RaftAddr :: string
  WSAddr :: string

record PeerConfig =
  pc_ID :: int
  pc_Addr :: string

record ClusterConfig =
  Peers :: "PeerConfig list"

record StorageConfig =
  DataDir :: string
  SegmentMaxBytes :: int
  RetentionHours :: int

record ConsumerGroupConfig =
  SessionTimeoutMs :: int
  HeartbeatIntervalMs :: int

record Config =
  c_Broker :: BrokerConfig
  c_Cluster :: ClusterConfig
  c_Storage :: StorageConfig
  c_Consumer :: ConsumerGroupConfig

text \<open>\<open>os.ReadFile\<close>: one fallible call here, whatever number of reads it makes.\<close>

definition os_ReadFile :: "fs \<Rightarrow> string \<Rightarrow> (go_error + bytes) \<times> fs" where
  "os_ReadFile f path =
     (case io_next f of
        (IoErr _, f') \<Rightarrow> (Inl ErrIO, f')
      | (IoOk, f') \<Rightarrow> (case gm_get (files f') path of None \<Rightarrow> Inl ErrIO | Some b \<Rightarrow> Inr b, f'))"

definition LoadConfig ::
  "(bytes \<Rightarrow> go_error + Config) \<Rightarrow> fs \<Rightarrow> string \<Rightarrow> (go_error + Config) \<times> fs" where
  "LoadConfig unmarshal f path =
     (case os_ReadFile f path of
        (Inl e, f1) \<Rightarrow> (Inl e, f1)
      | (Inr bs, f1) \<Rightarrow>
     (case unmarshal bs of
        Inl e \<Rightarrow> (Inl e, f1)
      | Inr cfg \<Rightarrow>
          let cfg1 = (if SegmentMaxBytes (c_Storage cfg) = 0
                      then cfg\<lparr>c_Storage := (c_Storage cfg)\<lparr>SegmentMaxBytes := 64 * 1024 * 1024\<rparr>\<rparr>
                      else cfg);
              cfg2 = (if SessionTimeoutMs (c_Consumer cfg1) = 0
                      then cfg1\<lparr>c_Consumer := (c_Consumer cfg1)\<lparr>SessionTimeoutMs := 30000\<rparr>\<rparr>
                      else cfg1);
              cfg3 = (if HeartbeatIntervalMs (c_Consumer cfg2) = 0
                      then cfg2\<lparr>c_Consumer := (c_Consumer cfg2)\<lparr>HeartbeatIntervalMs := 3000\<rparr>\<rparr>
                      else cfg2)
          in (Inr cfg3, f1)))"

definition DefaultConfig :: "int \<Rightarrow> string \<Rightarrow> string \<Rightarrow> string \<Rightarrow> Config" where
  "DefaultConfig i grpcAddr raftAddr wsAddr =
     \<lparr>c_Broker = \<lparr>bc_ID = i, GRPCAddr = grpcAddr, RaftAddr = raftAddr, WSAddr = wsAddr\<rparr>,
      c_Cluster = \<lparr>Peers = []\<rparr>,
      c_Storage = \<lparr>DataDir = ''./data'', SegmentMaxBytes = 64 * 1024 * 1024, RetentionHours = 168\<rparr>,
      c_Consumer = \<lparr>SessionTimeoutMs = 30000, HeartbeatIntervalMs = 3000\<rparr>\<rparr>"

lemma LoadConfig_defaults:
  assumes "LoadConfig unmarshal f path = (Inr cfg, f')"
  shows "\<exists>bs cfg0. unmarshal bs = Inr cfg0 \<and> c_Broker cfg = c_Broker cfg0 \<and>
    c_Cluster cfg = c_Cluster cfg0 \<and> DataDir (c_Storage cfg) = DataDir (c_Storage cfg0) \<and>
    SegmentMaxBytes (c_Storage cfg) = (if SegmentMaxBytes (c_Storage cfg0) = 0 then 67108864
      else SegmentMaxBytes (c_Storage cfg0)) \<and>
    SessionTimeoutMs (c_Consumer cfg) = (if SessionTimeoutMs (c_Consumer cfg0) = 0 then 30000
      else SessionTimeoutMs (c_Consumer cfg0)) \<and>
    HeartbeatIntervalMs (c_Consumer cfg) = (if HeartbeatIntervalMs (c_Consumer cfg0) = 0 then 3000
      else HeartbeatIntervalMs (c_Consumer cfg0))"
proof -
  obtain bs f1 cfg0 where "os_ReadFile f path = (Inr bs, f1)" "unmarshal bs = Inr cfg0"
    using assms by (auto simp: LoadConfig_def Let_def split: prod.splits sum.splits)
  with assms show ?thesis
    by (intro exI [of _ bs] exI [of _ cfg0]) (auto simp: LoadConfig_def Let_def)
qed

end
