(* ===== verification/Broker_Core.thy ===== *)
theory Broker_Core
  imports Partition_Log Broker_Config
begin

text \<open>
  \<open>internal/broker/broker.go\<close>: the topics of a broker and the requests on them. Every operation
  takes the file system the partitions write to; a partition reached through a pointer is read
  from and stored back into the nested map.
\<close>

section \<open>State\<close>

record Event =
  ev_Type :: string
  ev_Topic :: string
  ev_Partition :: int
  ev_Offset :: int
  ev_HWM :: int

record Broker =
  b_ID :: int
  b_cfg :: Config
  b_partitions :: "(string, (int, Partition) gomap) gomap"
  shutdownCh_closed :: bool
  doneCh_closed :: bool
  EventCh :: "Event list"

definition New_Broker :: "Config \<Rightarrow> Broker" where
  "New_Broker cfg =
     \<lparr>b_ID = bc_ID (c_Broker cfg), b_cfg = cfg, b_partitions = gm_empty,
      shutdownCh_closed = False, doneCh_closed = False, EventCh = []\<rparr>"

text \<open>A non-blocking send on the event channel, which holds 4096 events.\<close>

definition send_event :: "Broker \<Rightarrow> Event \<Rightarrow> Broker" where
  "send_event b e = (if length (EventCh b) < 4096 then b\<lparr>EventCh := EventCh b @ [e]\<rparr> else b)"

definition getPartition :: "Broker \<Rightarrow> string \<Rightarrow> int \<Rightarrow> go_error + Partition" where
  "getPartition b topic i =
     (case gm_get (b_partitions b) topic of
        None \<Rightarrow> Inl (Errorf (''unknown topic: '' @ topic))
      | Some parts \<Rightarrow>
     (case gm_get parts i of
        None \<Rightarrow> Inl (Errorf (''unknown partition: '' @ topic @ ''/'' @ fmt_d i))
      | Some p \<Rightarrow> Inr p))"

definition put_partition :: "Broker \<Rightarrow> string \<Rightarrow> int \<Rightarrow> Partition \<Rightarrow> Broker" where
  "put_partition b topic i p =
     (case gm_get (b_partitions b) topic of
        None \<Rightarrow> b
      | Some parts \<Rightarrow> b\<lparr>b_partitions := gm_put (b_partitions b) topic (gm_put parts i p)\<rparr>)"

section \<open>Topics\<close>

text \<open>The loop of \<open>CreateTopic\<close>: \<open>k\<close> partitions are left to create, \<open>i\<close> is the next index.\<close>

fun create_parts :: "fs \<Rightarrow> Broker \<Rightarrow> string \<Rightarrow> int \<Rightarrow> nat \<Rightarrow> int \<Rightarrow> go_error option \<times> Broker \<times> fs" where
  "create_parts f b topic i 0 now = (None, b, f)"
| "create_parts f b topic i (Suc k) now =
     (case NewPartition f i topic (DataDir (c_Storage (b_cfg b))) (SegmentMaxBytes (c_Storage (b_cfg b))) now of
        (Inl e, f') \<Rightarrow> (Some (ErrWrap (''create partition '' @ fmt_d i) e), b, f')
      | (Inr p, f') \<Rightarrow>
          create_parts f' (put_partition b topic i (p\<lparr>p_LeaderID := b_ID b\<rparr>)) topic (i + 1) k now)"

definition CreateTopic :: "fs \<Rightarrow> Broker \<Rightarrow> string \<Rightarrow> int \<Rightarrow> int \<Rightarrow> go_error option \<times> Broker \<times> fs" where
  "CreateTopic f b topic numPartitions now =
     (if gm_get (b_partitions b) topic \<noteq> None
      then (Some (Errorf (''topic '' @ topic @ '' already exists'')), b, f)
      else create_parts f (b\<lparr>b_partitions := gm_put (b_partitions b) topic gm_empty\<rparr>)
             topic 0 (nat numPartitions) now)"

fun close_parts :: "fs \<Rightarrow> (int, Partition) gomap \<Rightarrow> int \<Rightarrow> (int, Partition) gomap \<times> fs" where
  "close_parts f [] now = ([], f)"
| "close_parts f ((i, p) # ps) now =
     (case Partition_Close f p now of (p', f1) \<Rightarrow>
      case close_parts f1 ps now of (ps', f2) \<Rightarrow> ((i, p') # ps', f2))"

definition DeleteTopic :: "fs \<Rightarrow> Broker \<Rightarrow> string \<Rightarrow> int \<Rightarrow> go_error option \<times> Broker \<times> fs" where
  "DeleteTopic f b topic now =
     (case gm_get (b_partitions b) topic of
        None \<Rightarrow> (Some (Errorf (''topic '' @ topic @ '' not found'')), b, f)
      | Some parts \<Rightarrow>
          (None, b\<lparr>b_partitions := gm_del (b_partitions b) topic\<rparr>, snd (close_parts f parts now)))"

section \<open>Messages\<close>

definition Broker_Publish ::
  "Broker \<Rightarrow> string \<Rightarrow> int \<Rightarrow> bytes \<Rightarrow> bytes \<Rightarrow> int \<Rightarrow> (go_error + int) \<times> Broker" where
  "Broker_Publish b topic i key val now =
     (case getPartition b topic i of
        Inl e \<Rightarrow> (Inl e, b)
      | Inr p \<Rightarrow>
          (case Partition_Append p key val now of (off, p') \<Rightarrow>
             (Inr off, send_event (put_partition b topic i p')
                \<lparr>ev_Type = ''message.published'', ev_Topic = topic, ev_Partition = i,
                 ev_Offset = off, ev_HWM = hwm p'\<rparr>)))"

definition Broker_Fetch ::
  "fs \<Rightarrow> Broker \<Rightarrow> string \<Rightarrow> int \<Rightarrow> int \<Rightarrow> int \<Rightarrow> int \<Rightarrow>
     (go_error + Message list \<times> int) \<times> Broker \<times> fs" where
  "Broker_Fetch f b topic i fromOffset maxBytes now =
     (case getPartition b topic i of
        Inl e \<Rightarrow> (Inl e, b, f)
      | Inr p \<Rightarrow>
          (case Partition_Fetch f p fromOffset maxBytes now of (r, p', f') \<Rightarrow>
             (Inr r, put_partition b topic i p', f')))"

section \<open>Information\<close>

record PartitionInfo =
  pi_ID :: int
  pi_Topic :: string
  pi_LeaderID :: int
  pi_HWM :: int

definition GetPartitionInfo :: "Broker \<Rightarrow> string \<Rightarrow> go_error + PartitionInfo list" where
  "GetPartitionInfo b topic =
     (case gm_get (b_partitions b) topic of
        None \<Rightarrow> Inl (Errorf (''topic '' @ topic @ '' not found''))
      | Some parts \<Rightarrow>
          Inr (map (\<lambda>(i, p). \<lparr>pi_ID = i, pi_Topic = topic, pi_LeaderID = p_LeaderID p,
                               pi_HWM = hwm p\<rparr>) parts))"

definition ListTopics :: "Broker \<Rightarrow> string list" where
  "ListTopics b = gm_keys (b_partitions b)"

record BrokerStats =
  bs_ID :: int
  MessagesIn :: int
  BytesIn :: int
  MessagesOut :: int
  BytesOut :: int
  TopicCount :: int
  PartitionCount :: int

definition all_parts :: "Broker \<Rightarrow> Partition list" where
  "all_parts b = concat (map (\<lambda>(t, ps). map snd ps) (b_partitions b))"

definition Broker_Stats :: "Broker \<Rightarrow> BrokerStats" where
  "Broker_Stats b =
     (let (totalMsgs, totalBytes, partCount) =
        foldl (\<lambda>(m, y, c) p. (i64 (m + msgCount p), i64 (y + bytesCount p), i32 (c + 1)))
          (0, 0, 0) (all_parts b)
      in \<lparr>bs_ID = b_ID b, MessagesIn = totalMsgs, BytesIn = totalBytes, MessagesOut = 0,
          BytesOut = 0, TopicCount = i32 (int (length (b_partitions b))),
          PartitionCount = partCount\<rparr>)"

section \<open>Shutdown\<close>

text \<open>Closing a closed channel panics: the result is \<open>None\<close>.\<close>

fun close_topics :: "fs \<Rightarrow> (string, (int, Partition) gomap) gomap \<Rightarrow> int \<Rightarrow>
    (string, (int, Partition) gomap) gomap \<times> fs" where
  "close_topics f [] now = ([], f)"
| "close_topics f ((t, ps) # ts) now =
     (case close_parts f ps now of (ps', f1) \<Rightarrow>
      case close_topics f1 ts now of (ts', f2) \<Rightarrow> ((t, ps') # ts', f2))"

definition Broker_Shutdown :: "fs \<Rightarrow> Broker \<Rightarrow> int \<Rightarrow> (Broker \<times> fs) option" where
  "Broker_Shutdown f b now =
     (if shutdownCh_closed b then None
      else case close_topics f (b_partitions b) now of (ts, f') \<Rightarrow>
        if doneCh_closed b then None
        else Some (b\<lparr>shutdownCh_closed := True, b_partitions := ts, doneCh_closed := True\<rparr>, f'))"

section \<open>Invariant\<close>

text \<open>
  \<open>broker_inv f b L\<close>: every partition of the broker satisfies the partition invariant with the
  log \<open>L\<close> gives for its topic and index, lives in the directory named after both, and is led by
  this broker.
\<close>

definition part_ok :: "fs \<Rightarrow> Broker \<Rightarrow> string \<Rightarrow> int \<Rightarrow> Partition \<Rightarrow> Message list \<Rightarrow> bool" where
  "part_ok f b topic i p l \<longleftrightarrow> refines (p, f) l \<and>
     dataDir p = partDir (DataDir (c_Storage (b_cfg b))) topic i \<and>
     p_LeaderID p = b_ID b \<and> p_ID p = i"

definition broker_inv :: "fs \<Rightarrow> Broker \<Rightarrow> (string \<Rightarrow> int \<Rightarrow> Message list) \<Rightarrow> bool" where
  "broker_inv f b L \<longleftrightarrow> healthy f \<and>
     (\<forall>topic i p. getPartition b topic i = Inr p \<longrightarrow> part_ok f b topic i p (L topic i))"

lemma getPartition_Inr:
  "getPartition b t i = Inr p \<longleftrightarrow>
     (\<exists>ps. gm_get (b_partitions b) t = Some ps \<and> gm_get ps i = Some p)"
  by (auto simp: getPartition_def split: option.splits)

lemma getPartition_put:
  assumes "gm_get (b_partitions b) t \<noteq> None"
  shows "getPartition (put_partition b t i p) t' i' =
    (if t' = t \<and> i' = i then Inr p else getPartition b t' i')"
  using assms by (auto simp: put_partition_def getPartition_def split: option.splits)

lemma getPartition_topic: "getPartition b t i = Inr p \<Longrightarrow> gm_get (b_partitions b) t \<noteq> None"
  by (auto simp: getPartition_Inr)

lemma put_partition_fields [simp]:
  "b_ID (put_partition b t i p) = b_ID b" "b_cfg (put_partition b t i p) = b_cfg b"
  "EventCh (put_partition b t i p) = EventCh b"
  by (simp_all add: put_partition_def split: option.split)

lemma send_event_fields [simp]:
  "b_ID (send_event b e) = b_ID b" "b_cfg (send_event b e) = b_cfg b"
  "b_partitions (send_event b e) = b_partitions b"
  by (simp_all add: send_event_def)

lemma getPartition_cong: "b_partitions b' = b_partitions b \<Longrightarrow> getPartition b' = getPartition b"
  by (simp add: getPartition_def fun_eq_iff)

lemma refines_other_dir:
  assumes "refines (p, f) l" "same_outside d f f'" "dataDir p \<noteq> d" "healthy f'"
  shows "refines (p, f') l"
  using assms part_inv_other_dir by (fastforce simp: refines_def)

text \<open>Replacing one partition, when the file system changed in its directory only.\<close>

lemma broker_inv_put:
  assumes inv: "broker_inv f b L" "gm_get (b_partitions b) t \<noteq> None"
    and new: "part_ok f' b t i p l" "healthy f'" "same_outside (dataDir p) f f'"
  shows "broker_inv f' (put_partition b t i p) (L(t := (L t)(i := l)))"
proof -
  have "part_ok f' b t' i' q (L t' i')"
    if "getPartition b t' i' = Inr q" "\<not> (t' = t \<and> i' = i)" for t' i' q
  proof -
    have q: "part_ok f b t' i' q (L t' i')" using inv(1) that by (simp add: broker_inv_def)
    then have "dataDir q \<noteq> dataDir p" using new(1) that(2) by (auto simp: part_ok_def)
    then show ?thesis using q refines_other_dir [OF _ new(3) _ new(2)] by (simp add: part_ok_def)
  qed
  then show ?thesis
    using new by (auto simp: broker_inv_def getPartition_put [OF inv(2)] part_ok_def)
qed

section \<open>Requests preserve the invariant\<close>

lemma Partition_Append_fields:
  "Partition_Append p key val now = (off, p') \<Longrightarrow>
     dataDir p' = dataDir p \<and> p_LeaderID p' = p_LeaderID p \<and> p_ID p' = p_ID p \<and> hwm p' = hwm p"
  by (auto simp: Partition_Append_def Let_def)

lemma Broker_Publish_inv:
  assumes "broker_inv f b L" "getPartition b t i = Inr p" "int (length (L t i)) + 1 < 2 ^ 63"
    "op_ok (OpAppend key val now)" "Broker_Publish b t i key val now = (r, b')"
  shows "r = Inr (int (length (L t i))) \<and>
    broker_inv f b' (L(t := (L t)(i := log_step (L t i) (OpAppend key val now)))) \<and>
    b_cfg b' = b_cfg b \<and> b_ID b' = b_ID b"
proof -
  have ok: "part_ok f b t i p (L t i)" "healthy f" using assms(1,2) by (auto simp: broker_inv_def)
  obtain off p' where a: "Partition_Append p key val now = (off, p')" by fastforce
  obtain mss where m: "part_inv f p mss" "plog p mss = L t i"
    using ok(1) by (auto simp: part_ok_def refines_def)
  have "off = int (length (L t i))"
    using Partition_Append_inv [OF m(1) _ _ _ _ a] part_inv_length [OF m(1)] assms(3,4) m(2)
    by (simp add: op_ok_def)
  moreover have "part_ok f b t i p' (log_step (L t i) (OpAppend key val now))"
    using part_step_refines [OF _ assms(4,3), of "(p, f)"] ok a Partition_Append_fields [OF a]
    by (simp add: part_ok_def part_step_def)
  note broker_inv_put [OF assms(1) getPartition_topic [OF assms(2)] this ok(2) same_outside_refl]
  moreover have "b_partitions b' = b_partitions (put_partition b t i p')" "b_cfg b' = b_cfg b"
      "b_ID b' = b_ID b" "r = Inr off"
    using assms(2,5) a by (auto simp: Broker_Publish_def)
  ultimately show ?thesis
    using getPartition_cong [of b' "put_partition b t i p'"]
    by (simp add: broker_inv_def part_ok_def)
qed

lemma Broker_Fetch_inv:
  assumes "broker_inv f b L" "getPartition b t i = Inr p" "0 < maxBytes"
    "Broker_Fetch f b t i fromOffset maxBytes now = (r, b', f')"
  obtains ms where "r = Inr (ms, int (length (L t i)))" "broker_inv f' b' L"
    "0 \<le> fromOffset \<Longrightarrow> fromOffset < int (length (L t i)) \<Longrightarrow>
       ms \<noteq> [] \<and> ms = take (length ms) (drop (nat fromOffset) (L t i))"
    "\<not> (0 \<le> fromOffset \<and> fromOffset < int (length (L t i))) \<Longrightarrow> ms = []"
    "b_cfg b' = b_cfg b" "b_ID b' = b_ID b"
proof -
  have ok: "part_ok f b t i p (L t i)" using assms(1,2) by (auto simp: broker_inv_def)
  obtain ms h p' where fe: "Partition_Fetch f p fromOffset maxBytes now = ((ms, h), p', f')"
    and r: "r = Inr (ms, h)" "b' = put_partition b t i p'"
    using assms(2,4) by (auto simp: Broker_Fetch_def split: prod.splits)
  obtain mss where m: "part_inv f p mss" "plog p mss = L t i"
    using ok by (auto simp: part_ok_def refines_def)
  have len: "nextOffset p = int (length (L t i))" using part_inv_length [OF m(1)] m(2) by simp
  obtain mss' where m': "part_inv f' p' mss'" "concat mss' = L t i" "batch p' = []"
    "dataDir p' = dataDir p" "h = nextOffset p"
    "ms = (if 0 \<le> fromOffset \<and> fromOffset < nextOffset p
           then fetch_spec 0 mss' fromOffset maxBytes else [])"
    "p_ID p' = p_ID p" "p_LeaderID p' = p_LeaderID p" "same_outside (dataDir p) f f'"
    using Partition_Fetch_spec [OF m(1) assms(3) fe] m(2) by metis
  have "part_ok f' b t i p' (L t i)" "healthy f'"
    using ok m' by (auto simp: part_ok_def refines_def plog_def part_inv_def store_inv_def)
  then have "broker_inv f' b' (L(t := (L t)(i := L t i)))"
    using broker_inv_put [OF assms(1) getPartition_topic [OF assms(2)], of f' i p' "L t i"] m'(4,9) r by simp
  then show thesis
    using that r len m'(5,6) Partition_Fetch_contract [OF m(1) assms(3) _ _ fe] m(2)
    by (simp del: fun_upd_apply)
qed

lemma part_inv_leader [simp]: "part_inv f (p\<lparr>p_LeaderID := l\<rparr>) mss = part_inv f p mss"
  by (simp add: part_inv_def store_inv_def)

text \<open>Creating partitions in directories without segment files.\<close>

lemma create_parts_ok:
  assumes "broker_inv f b L" "gm_get (b_partitions b) t \<noteq> None"
    "0 < SegmentMaxBytes (c_Storage (b_cfg b))"
    "\<And>j. i \<le> j \<Longrightarrow> j < i + int k \<Longrightarrow>
       L t j = [] \<and> no_segments f (partDir (DataDir (c_Storage (b_cfg b))) t j)"
  shows "\<exists>b' f'. create_parts f b t i k now = (None, b', f') \<and> broker_inv f' b' L \<and>
    b_cfg b' = b_cfg b \<and> b_ID b' = b_ID b \<and>
    (\<forall>t' j. (\<exists>p. getPartition b' t' j = Inr p) \<longleftrightarrow>
       (\<exists>p. getPartition b t' j = Inr p) \<or> t' = t \<and> i \<le> j \<and> j < i + int k)"
  using assms
proof (induction k arbitrary: f b i)
  case 0
  then show ?case by auto
next
  case (Suc k)
  let ?dd = "DataDir (c_Storage (b_cfg b))"
  have here: "L t i = []" "no_segments f (partDir ?dd t i)"
    using Suc.prems(4) [of i] by simp_all
  have "healthy f" using Suc.prems(1) by (simp add: broker_inv_def)
  then obtain p f1 where n: "NewPartition f i t ?dd (SegmentMaxBytes (c_Storage (b_cfg b))) now = (Inr p, f1)"
    "part_inv f1 p [[]]" "batch p = []" "dataDir p = partDir ?dd t i" "p_ID p = i" "healthy f1"
    "same_outside (partDir ?dd t i) f f1"
    using NewPartition_inv [OF _ Suc.prems(3) here(2)] by metis
  let ?p = "p\<lparr>p_LeaderID := b_ID b\<rparr>"
  let ?b = "put_partition b t i ?p"
  have "part_ok f1 b t i ?p []"
    using n by (auto simp: part_ok_def refines_def plog_def intro: exI [of _ "[[]]"])
  moreover have "(L t)(i := []) = L t" using here(1) by (simp add: fun_upd_idem)
  ultimately have inv1: "broker_inv f1 ?b L"
    using broker_inv_put [OF Suc.prems(1,2), of f1 i ?p "[]"] n by simp
  have "no_segments f1 (partDir ?dd t j)" if "i + 1 \<le> j" "j < i + 1 + int k" for j
    using no_segments_other_dir [OF _ n(7), of "partDir ?dd t j"] Suc.prems(4) [of j] that by simp
  then have "\<exists>b' f'. create_parts f1 ?b t (i + 1) k now = (None, b', f') \<and> broker_inv f' b' L \<and>
    b_cfg b' = b_cfg ?b \<and> b_ID b' = b_ID ?b \<and>
    (\<forall>t' j. (\<exists>p. getPartition b' t' j = Inr p) \<longleftrightarrow>
       (\<exists>p. getPartition ?b t' j = Inr p) \<or> t' = t \<and> i + 1 \<le> j \<and> j < i + 1 + int k)"
    using inv1 Suc.prems(2-4)
    by (intro Suc.IH) (auto simp: put_partition_def)
  then show ?case
    using n(1) by (auto simp: getPartition_put [OF Suc.prems(2)])
qed

lemma CreateTopic_ok:
  assumes "broker_inv f b L" "gm_get (b_partitions b) t = None"
    "0 < SegmentMaxBytes (c_Storage (b_cfg b))"
    "\<And>j. 0 \<le> j \<Longrightarrow> j < n \<Longrightarrow> no_segments f (partDir (DataDir (c_Storage (b_cfg b))) t j)"
  shows "\<exists>b' f'. CreateTopic f b t n now = (None, b', f') \<and> broker_inv f' b' (L(t := \<lambda>_. [])) \<and>
    b_cfg b' = b_cfg b \<and> b_ID b' = b_ID b \<and>
    (\<forall>t' j. (\<exists>p. getPartition b' t' j = Inr p) \<longleftrightarrow>
       (\<exists>p. getPartition b t' j = Inr p) \<or> t' = t \<and> 0 \<le> j \<and> j < n)"
proof -
  let ?b = "b\<lparr>b_partitions := gm_put (b_partitions b) t gm_empty\<rparr>"
  have g: "getPartition ?b t' j = Inr p \<longleftrightarrow> getPartition b t' j = Inr p" for t' j p
    using assms(2) by (auto simp: getPartition_Inr)
  have "getPartition b t j \<noteq> Inr p" for j p using assms(2) by (simp add: getPartition_Inr)
  then have inv: "broker_inv f ?b (L(t := \<lambda>_. []))"
    using assms(1) by (auto simp: broker_inv_def g part_ok_def)
  have "\<exists>b' f'. create_parts f ?b t 0 (nat n) now = (None, b', f') \<and> broker_inv f' b' (L(t := \<lambda>_. [])) \<and>
    b_cfg b' = b_cfg ?b \<and> b_ID b' = b_ID ?b \<and>
    (\<forall>t' j. (\<exists>p. getPartition b' t' j = Inr p) \<longleftrightarrow>
       (\<exists>p. getPartition ?b t' j = Inr p) \<or> t' = t \<and> 0 \<le> j \<and> j < 0 + int (nat n))"
    by (rule create_parts_ok [OF inv]) (use assms(3,4) in \<open>auto split: if_splits\<close>)
  moreover have "0 \<le> j \<and> j < 0 + int (nat n) \<longleftrightarrow> 0 \<le> j \<and> j < n" for j by auto
  ultimately show ?thesis
    using assms(2) by (simp only: g CreateTopic_def) simp
qed

section \<open>Running requests\<close>

datatype broker_op =
    ReqPublish string int bytes bytes int
  | ReqFetch string int int int int

definition broker_step :: "Broker \<times> fs \<Rightarrow> broker_op \<Rightarrow> Broker \<times> fs" where
  "broker_step s x =
     (case x of
        ReqPublish t i key val now \<Rightarrow> (snd (Broker_Publish (fst s) t i key val now), snd s)
      | ReqFetch t i fromOffset mx now \<Rightarrow> snd (Broker_Fetch (snd s) (fst s) t i fromOffset mx now))"

text \<open>
  The specification: one abstract log per existing partition; \<open>ex\<close> says which exist. A request
  to any other partition changes nothing.
\<close>

definition logs_step ::
  "(string \<Rightarrow> int \<Rightarrow> bool) \<Rightarrow> (string \<Rightarrow> int \<Rightarrow> Message list) \<Rightarrow> broker_op \<Rightarrow>
     string \<Rightarrow> int \<Rightarrow> Message list" where
  "logs_step ex L x =
     (case x of
        ReqPublish t i key val now \<Rightarrow>
          (if ex t i then L(t := (L t)(i := log_step (L t i) (OpAppend key val now))) else L)
      | ReqFetch t i fromOffset mx now \<Rightarrow> L)"

definition broker_op_ok :: "broker_op \<Rightarrow> bool" where
  "broker_op_ok x \<longleftrightarrow>
     (case x of
        ReqPublish t i key val now \<Rightarrow> op_ok (OpAppend key val now)
      | ReqFetch t i fromOffset mx now \<Rightarrow> 0 < mx)"

definition has_part :: "Broker \<Rightarrow> string \<Rightarrow> int \<Rightarrow> bool" where
  "has_part b t i \<longleftrightarrow> (\<exists>p. getPartition b t i = Inr p)"

lemma not_has_part: "\<not> has_part b t i \<Longrightarrow> \<exists>e. getPartition b t i = Inl e"
  by (cases "getPartition b t i") (auto simp: has_part_def)

lemma has_part_put: "has_part b t i \<Longrightarrow> has_part (put_partition b t i p) = has_part b"
  by (auto simp: has_part_def fun_eq_iff getPartition_put [OF getPartition_topic] split: if_splits)

lemma has_part_event [simp]: "has_part (send_event b e) = has_part b"
  by (simp add: has_part_def fun_eq_iff getPartition_cong [of "send_event b e" b])

lemma broker_step_has_part: "has_part (fst (broker_step s x)) = has_part (fst s)"
proof (cases x)
  case (ReqPublish t i key val now)
  then show ?thesis
    using not_has_part [of "fst s" t i] has_part_put [of "fst s" t i]
    by (cases "getPartition (fst s) t i")
      (auto simp: broker_step_def Broker_Publish_def has_part_def split: prod.splits)
next
  case (ReqFetch t i fromOffset mx now)
  then show ?thesis
    using not_has_part [of "fst s" t i] has_part_put [of "fst s" t i]
    by (cases "getPartition (fst s) t i")
      (auto simp: broker_step_def Broker_Fetch_def has_part_def split: prod.splits)
qed

lemma broker_step_inv:
  assumes "broker_inv (snd s) (fst s) L" "broker_op_ok x"
    "\<And>t i. int (length (L t i)) + 1 < 2 ^ 63"
  shows "broker_inv (snd (broker_step s x)) (fst (broker_step s x)) (logs_step (has_part (fst s)) L x)"
proof (cases x)
  case (ReqPublish t i key val now)
  show ?thesis
  proof (cases "getPartition (fst s) t i")
    case (Inl e)
    then show ?thesis
      using assms(1) by (simp add: ReqPublish broker_step_def Broker_Publish_def logs_step_def has_part_def)
  next
    case (Inr p)
    obtain r b' where pu: "Broker_Publish (fst s) t i key val now = (r, b')" by fastforce
    show ?thesis
      using Broker_Publish_inv [OF assms(1) Inr assms(3) _ pu] assms(2) pu Inr
      by (simp add: ReqPublish broker_step_def logs_step_def has_part_def broker_op_ok_def)
  qed
next
  case (ReqFetch t i fromOffset mx now)
  show ?thesis
  proof (cases "getPartition (fst s) t i")
    case (Inl e)
    then show ?thesis
      using assms(1) by (simp add: ReqFetch broker_step_def Broker_Fetch_def logs_step_def)
  next
    case (Inr p)
    obtain r b' f' where fe: "Broker_Fetch (snd s) (fst s) t i fromOffset mx now = (r, b', f')"
      by (metis prod.exhaust)
    have "0 < mx" using assms(2) by (simp add: ReqFetch broker_op_ok_def)
    then have "broker_inv f' b' L"
      using Broker_Fetch_inv [OF assms(1) Inr _ fe] by blast
    then show ?thesis using fe by (simp add: ReqFetch broker_step_def logs_step_def)
  qed
qed

lemma logs_step_length: "length (logs_step ex L x t i) \<le> Suc (length (L t i))"
  by (simp add: logs_step_def log_step_def split: broker_op.split)

lemma broker_run_inv:
  assumes "broker_inv (snd s) (fst s) L" "list_all broker_op_ok xs" "has_part (fst s) = ex"
    "\<And>t i. int (length (L t i)) + int (length xs) < 2 ^ 63"
  shows "broker_inv (snd (foldl broker_step s xs)) (fst (foldl broker_step s xs))
    (foldl (logs_step ex) L xs)"
  using assms
proof (induction xs arbitrary: s L)
  case (Cons x xs)
  have b: "int (length (L t i)) + 1 < 2 ^ 63" for t i using Cons.prems(4) [of t i] by simp
  have "int (length (logs_step ex L x t i)) + int (length xs) < 2 ^ 63" for t i
    using Cons.prems(4) [of t i] logs_step_length [of ex L x t i] by simp
  moreover have "broker_inv (snd (broker_step s x)) (fst (broker_step s x)) (logs_step ex L x)"
    unfolding Cons.prems(3) [symmetric]
    by (rule broker_step_inv [OF Cons.prems(1) _ b]) (use Cons.prems(2) in simp)
  moreover have "list_all broker_op_ok xs" "has_part (fst (broker_step s x)) = ex"
    using Cons.prems(2,3) by (simp_all add: broker_step_has_part)
  ultimately show ?case unfolding foldl.simps by (intro Cons.IH)
qed simp

section \<open>Errors, deletion, statistics, shutdown\<close>

lemma Publish_unknown:
  assumes "getPartition b t i = Inl e"
  shows "Broker_Publish b t i key val now = (Inl e, b)"
    "Broker_Fetch f b t i fromOffset mx now = (Inl e, b, f)"
  using assms by (simp_all add: Broker_Publish_def Broker_Fetch_def)

lemma getPartition_errors:
  "getPartition b t i = Inl e \<longleftrightarrow>
     (gm_get (b_partitions b) t = None \<and> e = Errorf (''unknown topic: '' @ t)) \<or>
     (\<exists>ps. gm_get (b_partitions b) t = Some ps \<and> gm_get ps i = None \<and>
        e = Errorf (''unknown partition: '' @ t @ ''/'' @ fmt_d i))"
  by (auto simp: getPartition_def split: option.splits)

lemma DeleteTopic_removes:
  assumes "DeleteTopic f b t now = (None, b', f')"
  shows "gm_get (b_partitions b') t = None \<and>
    (\<forall>t'. t' \<noteq> t \<longrightarrow> gm_get (b_partitions b') t' = gm_get (b_partitions b) t')"
  using assms by (auto simp: DeleteTopic_def split: option.splits)

lemma ListTopics_complete: "t \<in> set (ListTopics b) \<longleftrightarrow> gm_get (b_partitions b) t \<noteq> None"
  by (simp add: ListTopics_def gm.set_keys)

lemma foldl_stats:
  "foldl (\<lambda>(m, y, c) p. (i64 (m + msgCount p), i64 (y + bytesCount p), i32 (c + 1))) (i64 m, i64 y, i32 c) ps =
   (i64 (m + sum_list (map msgCount ps)), i64 (y + sum_list (map bytesCount ps)), i32 (c + int (length ps)))"
proof (induction ps arbitrary: m y c)
  case (Cons p ps)
  show ?case using Cons.IH by (simp add: i64_add_left i32_add_left add.assoc)
qed simp

lemma Broker_Stats_sums:
  "MessagesIn (Broker_Stats b) = i64 (sum_list (map msgCount (all_parts b))) \<and>
   BytesIn (Broker_Stats b) = i64 (sum_list (map bytesCount (all_parts b))) \<and>
   PartitionCount (Broker_Stats b) = i32 (int (length (all_parts b)))"
  using foldl_stats [of 0 0 0 "all_parts b"] by (simp add: Broker_Stats_def i64_id i32_id)

lemma Shutdown_twice_panics:
  "Broker_Shutdown f b now = Some (b', f') \<Longrightarrow> Broker_Shutdown f'' b' now' = None"
  by (auto simp: Broker_Shutdown_def split: prod.splits if_splits)

lemma create_parts_keeps_topic:
  "create_parts f b t i k now = (r, b', f') \<Longrightarrow> gm_get (b_partitions b) t \<noteq> None \<Longrightarrow>
     gm_get (b_partitions b') t \<noteq> None"
proof (induction k arbitrary: f b i)
  case (Suc k)
  then show ?case
    by (auto simp: put_partition_def split: prod.splits sum.splits option.splits)
qed simp

section \<open>Properties\<close>

text \<open>
  C6: a broker refines one independent log per partition: after any sequence of publish and
  fetch requests, to existing or unknown topics and partitions, every partition holds exactly
  the messages published to it, numbered from its first one, whatever happened to the others.
\<close>

theorem broker_refines_logs:
  assumes "broker_inv f b L" "list_all broker_op_ok xs"
    "\<And>t i. int (length (L t i)) + int (length xs) < 2 ^ 63"
    "foldl broker_step (b, f) xs = (b', f')"
  shows "broker_inv f' b' (foldl (logs_step (has_part b)) L xs)"
  using broker_run_inv [of "(b, f)" L xs "has_part b"] assms by simp

definition ex_broker :: Broker where
  "ex_broker = New_Broker (DefaultConfig 1 ''g'' ''r'' ''w'')"

lemma ex_broker_inv: "broker_inv ex_fs ex_broker (\<lambda>_ _. [])"
  by (simp add: broker_inv_def ex_broker_def New_Broker_def getPartition_Inr)

lemma ex_broker_topic:
  obtains b f where "CreateTopic ex_fs ex_broker ''events'' 2 0 = (None, b, f)"
    "broker_inv f b (\<lambda>_ _. [])" "\<And>i. has_part b ''events'' i \<longleftrightarrow> i \<in> {0, 1}"
    "\<And>t i. has_part b t i \<Longrightarrow> t = ''events''"
proof -
  have "gm_get (b_partitions ex_broker) ''events'' = None" "b_partitions ex_broker = gm_empty"
    "0 < SegmentMaxBytes (c_Storage (b_cfg ex_broker))"
    by (simp_all add: ex_broker_def New_Broker_def DefaultConfig_def)
  note c = CreateTopic_ok [OF ex_broker_inv this(1,3) ex_no_segments, of 2 0] this(2)
  have e: "((\<lambda>_ _. []) :: string \<Rightarrow> int \<Rightarrow> Message list)(''events'' := \<lambda>_. []) = (\<lambda>_ _. [])"
    by (simp add: fun_eq_iff)
  obtain b f where *: "CreateTopic ex_fs ex_broker ''events'' 2 0 = (None, b, f)"
    "broker_inv f b (\<lambda>_ _. [])"
    "\<forall>t' j. (\<exists>p. getPartition b t' j = Inr p) \<longleftrightarrow>
       (\<exists>p. getPartition ex_broker t' j = Inr p) \<or> t' = ''events'' \<and> 0 \<le> j \<and> j < 2"
    using c(1) unfolding e by (elim exE conjE) (rule that)
  have "getPartition ex_broker t' j \<noteq> Inr p" for t' j p
    using c(2) by (simp add: getPartition_Inr)
  then have h: "has_part b t' j \<longleftrightarrow> t' = ''events'' \<and> 0 \<le> j \<and> j < 2" for t' j
    using spec [OF spec [OF *(3), of t'], of j] unfolding has_part_def by blast
  have "0 \<le> i \<and> i < 2 \<longleftrightarrow> i \<in> {0, 1}" for i :: int by auto
  with h show thesis by (intro that [OF *(1,2)]) blast+
qed

theorem broker_refines_logs_witness:
  "\<exists>f b b' f'. CreateTopic ex_fs ex_broker ''events'' 2 0 = (None, b, f) \<and>
     foldl broker_step (b, f)
       [ReqPublish ''events'' 1 [1] [2] 5, ReqPublish ''nope'' 0 [1] [2] 6,
        ReqFetch ''events'' 1 0 10 7] = (b', f') \<and>
     broker_inv f' b' ((\<lambda>_ _. [])(''events'' := (\<lambda>_. [])(1 :=
       [\<lparr>m_Offset = 0, m_Timestamp = 5, m_Key = [1], m_Value = [2]\<rparr>])))"
proof -
  let ?xs = "[ReqPublish ''events'' 1 [1] [2] 5, ReqPublish ''nope'' 0 [1] [2] 6,
        ReqFetch ''events'' 1 0 10 7]"
  obtain b f where t: "CreateTopic ex_fs ex_broker ''events'' 2 0 = (None, b, f)"
    "broker_inv f b (\<lambda>_ _. [])" "has_part b ''events'' 1" "\<not> has_part b ''nope'' 0"
    by (rule ex_broker_topic) auto
  obtain b' f' where r: "foldl broker_step (b, f) ?xs = (b', f')" by fastforce
  have ok: "list_all broker_op_ok ?xs" by (simp add: broker_op_ok_def op_ok_def in_i64_def)
  have "broker_inv f' b' (foldl (logs_step (has_part b)) (\<lambda>_ _. []) ?xs)"
    by (rule broker_refines_logs [OF t(2) ok _ r]) simp
  then show ?thesis using t r by (auto simp: logs_step_def log_step_def)
qed

text \<open>
  Publish, then fetch at the returned offset: the reply is exactly the published message, with a
  high watermark just above it.
\<close>

lemma broker_publish_then_fetch:
  assumes "broker_inv f b L" "has_part b t i" "int (length (L t i)) + 1 < 2 ^ 63"
    "op_ok (OpAppend key val now)" "0 < maxBytes"
    "Broker_Publish b t i key val now = (Inr off, b1)"
    "Broker_Fetch f b1 t i off maxBytes now1 = (r, b2, f2)"
  shows "off = int (length (L t i)) \<and>
    r = Inr ([\<lparr>m_Offset = off, m_Timestamp = now, m_Key = key, m_Value = val\<rparr>], off + 1)"
proof -
  let ?L = "L(t := (L t)(i := log_step (L t i) (OpAppend key val now)))"
  obtain p where p: "getPartition b t i = Inr p" using assms(2) by (auto simp: has_part_def)
  have 1: "off = int (length (L t i))" "broker_inv f b1 ?L"
    using Broker_Publish_inv [OF assms(1) p assms(3,4,6)] by simp_all
  have "has_part b1 t i"
    using assms(2,6) broker_step_has_part [of "(b, f)" "ReqPublish t i key val now"]
    by (simp add: broker_step_def)
  then obtain p1 where p1: "getPartition b1 t i = Inr p1" by (auto simp: has_part_def)
  obtain ms where ms: "r = Inr (ms, int (length (?L t i)))"
    "0 \<le> off \<Longrightarrow> off < int (length (?L t i)) \<Longrightarrow>
       ms \<noteq> [] \<and> ms = take (length ms) (drop (nat off) (?L t i))"
    using Broker_Fetch_inv [OF 1(2) p1 assms(5,7)] by metis
  then show ?thesis
    using 1(1) by (cases ms) (auto simp: log_step_def take_Cons split: nat.splits)
qed

text \<open>
  Creating a new topic with \<open>n\<close> partitions makes exactly the partitions \<open>0\<close> to \<open>n - 1\<close>
  available, each with an empty log, and leaves every other topic as it was.
\<close>

lemma create_topic_partitions:
  assumes "broker_inv f b L" "gm_get (b_partitions b) t = None"
    "0 < SegmentMaxBytes (c_Storage (b_cfg b))"
    "\<And>j. 0 \<le> j \<Longrightarrow> j < n \<Longrightarrow> no_segments f (partDir (DataDir (c_Storage (b_cfg b))) t j)"
    "CreateTopic f b t n now = (r, b', f')"
  shows "r = None \<and> broker_inv f' b' (L(t := \<lambda>_. [])) \<and>
    (\<forall>t' j. has_part b' t' j \<longleftrightarrow> has_part b t' j \<or> t' = t \<and> 0 \<le> j \<and> j < n)"
proof -
  have ex: "\<exists>b' f'. CreateTopic f b t n now = (None, b', f') \<and> broker_inv f' b' (L(t := \<lambda>_. [])) \<and>
    b_cfg b' = b_cfg b \<and> b_ID b' = b_ID b \<and>
    (\<forall>t' j. (\<exists>p. getPartition b' t' j = Inr p) \<longleftrightarrow>
       (\<exists>p. getPartition b t' j = Inr p) \<or> t' = t \<and> 0 \<le> j \<and> j < n)"
    by (rule CreateTopic_ok [OF assms(1-3)]) (rule assms(4))
  obtain b1 f1 where c: "CreateTopic f b t n now = (None, b1, f1)"
    "broker_inv f1 b1 (L(t := \<lambda>_. []))"
    "\<forall>t' j. (\<exists>p. getPartition b1 t' j = Inr p) \<longleftrightarrow>
       (\<exists>p. getPartition b t' j = Inr p) \<or> t' = t \<and> 0 \<le> j \<and> j < n"
    using ex by (elim exE conjE) (rule that)
  have "r = None" "b' = b1" "f' = f1" using c(1) assms(5) by simp_all
  with c(2,3) show ?thesis unfolding has_part_def by blast
qed

text \<open>
  When creating one of the partitions fails, the topic stays registered with the partitions
  made so far, so that every further attempt to create it is refused as already existing.
\<close>

lemma create_topic_failure_sticks:
  assumes "gm_get (b_partitions b) t = None" "CreateTopic f b t n now = (Some e, b', f')"
  shows "gm_get (b_partitions b') t \<noteq> None \<and>
    CreateTopic f2 b' t n2 now2 = (Some (Errorf (''topic '' @ t @ '' already exists'')), b', f2)"
proof -
  have "gm_get (b_partitions b') t \<noteq> None"
    using assms create_parts_keeps_topic
    by (fastforce simp: CreateTopic_def)
  then show ?thesis by (auto simp: CreateTopic_def)
qed

lemma create_topic_failure_sticks_witness:
  "\<exists>b' f'. CreateTopic (ex_fs\<lparr>sched := [IoErr 0]\<rparr>) ex_broker ''a'' 3 0 =
       (Some (ErrWrap ''create partition 0'' ErrIO), b', f') \<and>
     fst (CreateTopic ex_fs b' ''a'' 3 1) = Some (Errorf ''topic a already exists'')"
proof -
  let ?b = "ex_broker\<lparr>b_partitions := gm_put (b_partitions ex_broker) ''a'' gm_empty\<rparr>"
  have g: "gm_get (b_partitions ex_broker) ''a'' = None"
    by (simp add: ex_broker_def New_Broker_def)
  have "NewPartition (ex_fs\<lparr>sched := [IoErr 0]\<rparr>) 0 ''a'' d m 0 = (Inl ErrIO, ex_fs)" for d m
    by (simp add: NewPartition_def newSegment_def os_MkdirAll_def io_next_def ex_fs_def Let_def)
  moreover have "fmt_d 0 = ''0''" by code_simp
  ultimately have c: "CreateTopic (ex_fs\<lparr>sched := [IoErr 0]\<rparr>) ex_broker ''a'' 3 0 =
      (Some (ErrWrap ''create partition 0'' ErrIO), ?b, ex_fs)"
    using g by (simp add: CreateTopic_def numeral_3_eq_3)
  show ?thesis using c create_topic_failure_sticks [OF g c, of ex_fs 3 1] by auto
qed

end
