(* ===== verification/Consumer_Group.thy ===== *)
theory Consumer_Group
  imports Go_Prelude "HOL-Library.List_Lexorder" "HOL-Library.Char_ord" "HOL-Library.Multiset" 
begin

text \<open>
  \<open>internal/consumer/group.go\<close>: one consumer group. \<open>Group\<close> is the struct, every method is a
  function on it; a method that reads the clock takes the current time, in nanoseconds, as an
  argument. The channel \<open>rebalanceCh\<close> has capacity one and carries no data, so it is the flag
  \<open>g_rebalanceCh\<close>: a send that would block is dropped by the code. The methods run under \<open>g.mu\<close>,
  one at a time; their interleaving with the coordinator is in \<open>Consumer_Coordinator\<close>.
\<close>

section \<open>Data\<close>

datatype GroupState = Empty | PreRebalance | CompletingRebalance | Stable

record Member =
  mb_ID :: string
  mb_Topics :: "string list"
  mb_LastHeartbeat :: int
  mb_Assignment :: "int list"

record Group =
  g_ID :: string
  g_state :: GroupState
  g_generation :: int
  g_members :: "(string, Member) gomap"
  g_assignment :: "(string, int list) gomap"
  g_topicPartitions :: "(string, int) gomap"
  g_sessionTimeout :: int
  g_rebalanceCh :: bool
  g_offsets :: "(string, int) gomap"

definition NewGroup :: "string \<Rightarrow> int \<Rightarrow> Group" where
  "NewGroup gid timeout =
     \<lparr>g_ID = gid, g_state = Empty, g_generation = 0, g_members = gm_empty, g_assignment = gm_empty,
      g_topicPartitions = gm_empty, g_sessionTimeout = timeout, g_rebalanceCh = False,
      g_offsets = gm_empty\<rparr>"

text \<open>\<open>time.Since\<close>: the difference saturates at the range of \<open>time.Duration\<close>.\<close>

definition time_since :: "int \<Rightarrow> int \<Rightarrow> int" where
  "time_since now t = max (- (2 ^ 63)) (min (2 ^ 63 - 1) (now - t))"

section \<open>Membership\<close>

definition memberIDs :: "Group \<Rightarrow> string list" where
  "memberIDs g = gm_keys (g_members g)"

definition signal_rebalance :: "Group \<Rightarrow> Group" where
  "signal_rebalance g = g\<lparr>g_state := PreRebalance, g_rebalanceCh := True\<rparr>"

fun register_topics :: "string list \<Rightarrow> (string, int) gomap \<Rightarrow> (string, int) gomap" where
  "register_topics [] tp = tp"
| "register_topics (t # ts) tp =
     register_topics ts (if gm_get tp t = None then gm_put tp t 1 else tp)"

definition Group_Join :: "int \<Rightarrow> Group \<Rightarrow> string \<Rightarrow> string list \<Rightarrow> (int \<times> string list \<times> bool) \<times> Group" where
  "Group_Join now g mid topics =
     (let isNew = (gm_get (g_members g) mid = None);
          g1 = g\<lparr>g_members := gm_put (g_members g) mid
                   \<lparr>mb_ID = mid, mb_Topics = topics, mb_LastHeartbeat = now, mb_Assignment = []\<rparr>,
                 g_topicPartitions := register_topics topics (g_topicPartitions g)\<rparr>;
          g2 = (if isNew \<or> g_state g1 \<noteq> Stable then signal_rebalance g1 else g1)
      in ((g_generation g1, memberIDs g1, g_state g2 = Stable), g2))"

definition Group_Leave :: "Group \<Rightarrow> string \<Rightarrow> Group" where
  "Group_Leave g mid =
     (let g1 = g\<lparr>g_members := gm_del (g_members g) mid, g_assignment := gm_del (g_assignment g) mid\<rparr>
      in if 0 < length (g_members g1) then signal_rebalance g1 else g1\<lparr>g_state := Empty\<rparr>)"

definition Group_Heartbeat :: "int \<Rightarrow> Group \<Rightarrow> string \<Rightarrow> int \<Rightarrow> (go_error + bool) \<times> Group" where
  "Group_Heartbeat now g mid gen =
     (case gm_get (g_members g) mid of
        None \<Rightarrow> (Inl (Errorf (''unknown member: '' @ mid)), g)
      | Some m \<Rightarrow>
          (Inr (g_state g \<noteq> Stable),
           g\<lparr>g_members := gm_put (g_members g) mid (m\<lparr>mb_LastHeartbeat := now\<rparr>)\<rparr>))"

definition Group_Sync :: "Group \<Rightarrow> string \<Rightarrow> int \<Rightarrow> go_error + int list" where
  "Group_Sync g mid gen =
     (if g_generation g \<noteq> gen then Inl (Errorf ''generation mismatch'')
      else case gm_get (g_assignment g) mid of
        None \<Rightarrow> Inl (Errorf (''no assignment for member '' @ mid))
      | Some parts \<Rightarrow> Inr parts)"

text \<open>One tick of \<open>heartbeatWatcher\<close>: the loop deletes from the map it ranges over.\<close>

fun expire_loop :: "int \<Rightarrow> int \<Rightarrow> (string \<times> Member) list \<Rightarrow>
    (string, Member) gomap \<Rightarrow> (string, int list) gomap \<Rightarrow> bool \<Rightarrow>
    (string, Member) gomap \<times> (string, int list) gomap \<times> bool" where
  "expire_loop now timeout [] ms asg ex = (ms, asg, ex)"
| "expire_loop now timeout ((mid, m) # rest) ms asg ex =
     (if time_since now (mb_LastHeartbeat m) > timeout
      then expire_loop now timeout rest (gm_del ms mid) (gm_del asg mid) True
      else expire_loop now timeout rest ms asg ex)"

definition heartbeatWatcher_tick :: "int \<Rightarrow> Group \<Rightarrow> Group" where
  "heartbeatWatcher_tick now g =
     (case expire_loop now (g_sessionTimeout g) (g_members g) (g_members g) (g_assignment g) False of
        (ms, asg, expired) \<Rightarrow>
          let g1 = g\<lparr>g_members := ms, g_assignment := asg\<rparr> in
          if expired \<and> 0 < length ms then signal_rebalance g1 else g1)"

section \<open>Offsets\<close>

definition offset_key :: "string \<Rightarrow> int \<Rightarrow> string" where
  "offset_key topic part = topic @ ''/'' @ fmt_d part"

definition CommitOffset :: "Group \<Rightarrow> string \<Rightarrow> int \<Rightarrow> int \<Rightarrow> Group" where
  "CommitOffset g topic part off = g\<lparr>g_offsets := gm_put (g_offsets g) (offset_key topic part) off\<rparr>"

definition FetchOffset :: "Group \<Rightarrow> string \<Rightarrow> int \<Rightarrow> int" where
  "FetchOffset g topic part =
     (case gm_get (g_offsets g) (offset_key topic part) of None \<Rightarrow> 0 | Some off \<Rightarrow> off)"

definition SetTopicPartitionCount :: "Group \<Rightarrow> string \<Rightarrow> int \<Rightarrow> Group" where
  "SetTopicPartitionCount g topic cnt = g\<lparr>g_topicPartitions := gm_put (g_topicPartitions g) topic cnt\<rparr>"

section \<open>Rebalancing\<close>

text \<open>
  The struct \<open>partKey\<close>; its order is the comparison function the code gives to \<open>sort.Slice\<close>.
\<close>

datatype partKey = PartKey (pk_topic: string) (pk_part: int)

definition partKey_before :: "partKey \<Rightarrow> partKey \<Rightarrow> bool" where
  "partKey_before a b =
     (if pk_topic a \<noteq> pk_topic b then pk_topic a < pk_topic b else pk_part a < pk_part b)"

instantiation partKey :: linorder
begin

definition less_partKey :: "partKey \<Rightarrow> partKey \<Rightarrow> bool" where
  "less_partKey = partKey_before"

definition less_eq_partKey :: "partKey \<Rightarrow> partKey \<Rightarrow> bool" where
  "less_eq_partKey a b \<longleftrightarrow> a = b \<or> a < b"

instance
  by standard (auto simp: less_partKey_def partKey_before_def less_eq_partKey_def partKey.expand split: if_splits)

end

definition allParts :: "(string, int) gomap \<Rightarrow> partKey list" where
  "allParts tp = concat (map (\<lambda>(t, cnt). map (\<lambda>i. PartKey t (int i)) [0..<nat cnt]) tp)"

definition slice_of :: "(string, int list) gomap \<Rightarrow> string \<Rightarrow> int list" where
  "slice_of asg m = (case gm_get asg m of None \<Rightarrow> [] | Some ps \<Rightarrow> ps)"

fun init_assignment :: "string list \<Rightarrow> (string, int list) gomap \<Rightarrow> (string, int list) gomap" where
  "init_assignment [] asg = asg"
| "init_assignment (m # ms) asg = init_assignment ms (gm_put asg m [])"

fun assign_loop :: "string list \<Rightarrow> nat \<Rightarrow> partKey list \<Rightarrow> (string, int list) gomap \<Rightarrow>
    (string, int list) gomap" where
  "assign_loop ms i [] asg = asg"
| "assign_loop ms i (pk # pks) asg =
     (if length ms = 0 then asg
      else let m = ms ! (i mod length ms) in
        assign_loop ms (Suc i) pks (gm_put asg m (slice_of asg m @ [pk_part pk])))"

definition Group_Rebalance :: "Group \<Rightarrow> (string, int list) gomap \<times> Group" where
  "Group_Rebalance g =
     (let g1 = g\<lparr>g_state := CompletingRebalance, g_generation := i32 (g_generation g + 1)\<rparr>;
          parts = sort (allParts (g_topicPartitions g1));
          members = sort (memberIDs g1);
          newAssignment = assign_loop members 0 parts (init_assignment members gm_empty)
      in (newAssignment, g1\<lparr>g_assignment := newAssignment, g_state := Stable\<rparr>))"

section \<open>Assigning partitions\<close>

lemma slice_of_put: "slice_of (gm_put asg m ps) m' = (if m' = m then ps else slice_of asg m')"
  by (simp add: slice_of_def)

lemma init_assignment_get:
  "gm_get (init_assignment ms asg) m = (if m \<in> set ms then Some [] else gm_get asg m)"
  by (induction ms arbitrary: asg) auto

lemma init_assignment_wf: "gm_wf asg \<Longrightarrow> gm_wf (init_assignment ms asg)"
  by (induction ms arbitrary: asg) auto

lemma assign_loop_wf: "gm_wf asg \<Longrightarrow> gm_wf (assign_loop ms i pks asg)"
  by (induction ms i pks asg rule: assign_loop.induct) (auto simp: Let_def)

lemma assign_loop_keys:
  "set ms \<subseteq> set (gm_keys asg) \<Longrightarrow> set (gm_keys (assign_loop ms i pks asg)) = set (gm_keys asg)"
proof (induction ms i pks asg rule: assign_loop.induct)
  case (2 ms i pk pks asg)
  show ?case
  proof (cases "ms = []")
    case False
    then have "ms ! (i mod length ms) \<in> set (gm_keys asg)" using 2(2) by auto
    then have "insert (ms ! (i mod length ms)) (set (gm_keys asg)) = set (gm_keys asg)" by blast
    then show ?thesis using 2 False by (simp add: Let_def gm.set_keys_put)
  qed simp
qed simp

text \<open>The reference: member \<open>k\<close> of \<open>n\<close> gets the positions congruent to \<open>k\<close>, counting from \<open>i\<close>.\<close>

definition every_nth :: "nat \<Rightarrow> nat \<Rightarrow> nat \<Rightarrow> 'a list \<Rightarrow> 'a list" where
  "every_nth n k i xs = map ((!) xs) (filter (\<lambda>j. (i + j) mod n = k) [0..<length xs])"

lemma every_nth_Nil [simp]: "every_nth n k i [] = []"
  by (simp add: every_nth_def)

lemma every_nth_Cons:
  "every_nth n k i (x # xs) = (if i mod n = k then [x] else []) @ every_nth n k (Suc i) xs"
proof -
  have "[0..<length (x # xs)] = 0 # map Suc [0..<length xs]"
    by (simp add: map_Suc_upt upt_conv_Cons del: upt_Suc)
  then show ?thesis by (simp add: every_nth_def filter_map o_def del: upt_Suc)
qed

lemma assign_loop_slice:
  assumes "distinct ms" "k < length ms"
  shows "slice_of (assign_loop ms i pks asg) (ms ! k) =
    slice_of asg (ms ! k) @ map pk_part (every_nth (length ms) k i pks)"
proof (induction pks arbitrary: i asg)
  case (Cons pk pks)
  have "ms \<noteq> []" using assms(2) by auto
  moreover have "ms ! k = ms ! (i mod length ms) \<longleftrightarrow> i mod length ms = k"
    using assms nth_eq_iff_index_eq [OF assms(1), of k "i mod length ms"] calculation by auto
  ultimately show ?case by (simp add: Let_def Cons.IH slice_of_put every_nth_Cons)
qed simp

lemma assign_loop_mset:
  assumes "distinct ms" "ms \<noteq> []"
  shows "(\<Sum>m\<leftarrow>ms. mset (slice_of (assign_loop ms i pks asg) m)) =
    (\<Sum>m\<leftarrow>ms. mset (slice_of asg m)) + mset (map pk_part pks)"
proof (induction pks arbitrary: i asg)
  case (Cons pk pks)
  let ?m = "ms ! (i mod length ms)"
  let ?asg = "gm_put asg ?m (slice_of asg ?m @ [pk_part pk])"
  have m: "?m \<in> set ms" using assms(2) by simp
  have "(\<Sum>m\<in>set ms. mset (slice_of ?asg m)) = (\<Sum>m\<in>set ms. mset (slice_of asg m)) + {#pk_part pk#}"
    using m by (subst (1 2) sum.remove [of _ ?m]) (auto simp: slice_of_put intro: sum.cong)
  then have "(\<Sum>m\<leftarrow>ms. mset (slice_of ?asg m)) = (\<Sum>m\<leftarrow>ms. mset (slice_of asg m)) + {#pk_part pk#}"
    using assms(1) by (simp add: sum_list_distinct_conv_sum_set)
  with assms(2) show ?case by (simp add: Let_def Cons.IH)
qed simp

lemma length_every_nth:
  assumes "k < n"
  shows "length (every_nth n k 0 xs) = (length xs + (n - 1 - k)) div n"
proof -
  have "length (filter (\<lambda>j. j mod n = k) [0..<l]) = (l + (n - 1 - k)) div n" for l
  proof (induction l)
    case 0
    then show ?case using assms by simp
  next
    case (Suc l)
    have "Suc (l + (n - 1 - k)) mod n = 0 \<longleftrightarrow> l mod n = k"
    proof -
      have e: "(Suc (l + (n - 1 - k)) + k) mod n = l mod n"
      proof -
        have "Suc (l + (n - 1 - k)) + k = l + n" using assms by simp
        then show ?thesis by simp
      qed
      show ?thesis
      proof
        assume "Suc (l + (n - 1 - k)) mod n = 0"
        then show "l mod n = k"
          using e assms mod_add_left_eq [of "Suc (l + (n - 1 - k))" n k] by simp
      next
        assume "l mod n = k"
        then have "l = l div n * n + k" using div_mult_mod_eq [of l n] by simp
        then have "Suc (l + (n - 1 - k)) = Suc (l div n) * n" using assms by simp
        then show "Suc (l + (n - 1 - k)) mod n = 0" by (metis mod_mult_self2_is_0)
      qed
    qed
    then show ?case using Suc by (simp add: div_Suc)
  qed
  then show ?thesis by (simp add: every_nth_def)
qed

lemma every_nth_balanced:
  assumes "k < n" "k' < n"
  shows "length (every_nth n k 0 xs) \<le> length (every_nth n k' 0 xs) + 1"
proof -
  have "(length xs + (n - 1 - k)) div n \<le> ((length xs + (n - 1 - k')) + n) div n"
    by (rule div_le_mono) (use assms in simp)
  also have "\<dots> = (length xs + (n - 1 - k')) div n + 1"
    using assms by (subst div_add_self2) simp_all
  finally show ?thesis by (simp only: length_every_nth [OF assms(1)] length_every_nth [OF assms(2)])
qed

lemma mset_allParts:
  "mset (map pk_part (allParts tp)) = (\<Sum>(t, cnt)\<leftarrow>tp. mset (map int [0..<nat cnt]))"
proof (induction tp)
  case (Cons p tp)
  have "mset (map pk_part (map (\<lambda>i. PartKey t (int i)) [0..<n])) = mset (map int [0..<n])" for t n
    by (simp only: map_map o_def partKey.sel)
  with Cons show ?case by (cases p) (simp add: allParts_def)
qed (simp add: allParts_def)

text \<open>Maps with the same lookups hold the same pairs, in some order.\<close>

lemma gm_get_Some_iff: "gm_wf m \<Longrightarrow> gm_get m k = Some v \<longleftrightarrow> (k, v) \<in> set m"
  by (simp add: gm_get_def gm_wf_def gm_keys_def)

lemma gm_same_mset:
  assumes "gm_wf m" "gm_wf m'" "\<And>k. gm_get m k = gm_get m' k"
  shows "mset m = mset m'"
proof -
  have "set m = set m'"
    using gm_get_Some_iff [OF assms(1)] gm_get_Some_iff [OF assms(2)] assms(3) by auto
  moreover have "distinct m" "distinct m'"
    using assms(1,2) by (auto simp: gm_wf_def gm_keys_def distinct_map)
  ultimately show ?thesis by (simp add: set_eq_iff_mset_eq_distinct)
qed

lemma sort_eq_mset: "mset xs = mset ys \<Longrightarrow> sort xs = sort (ys :: 'a :: linorder list)"
  by (metis mset_sort properties_for_sort sorted_sort)

lemma allParts_order:
  assumes "gm_wf tp" "gm_wf tp'" "\<And>t. gm_get tp t = gm_get tp' t"
  shows "sort (allParts tp) = sort (allParts tp')"
proof -
  let ?f = "\<lambda>(t, cnt). mset (map (\<lambda>i. PartKey t (int i)) [0..<nat cnt])"
  have conv: "mset (allParts m) = sum_mset (image_mset ?f (mset m))" for m
    by (induction m) (auto simp: allParts_def)
  show ?thesis
    by (rule sort_eq_mset) (simp only: conv gm_same_mset [OF assms])
qed

lemma memberIDs_order:
  assumes "gm_wf (g_members g)" "gm_wf (g_members g')"
    "set (memberIDs g) = set (memberIDs g')"
  shows "sort (memberIDs g) = sort (memberIDs g')"
proof -
  have "mset (memberIDs g) = mset (memberIDs g')"
    using assms by (simp add: memberIDs_def gm_wf_def set_eq_iff_mset_eq_distinct)
  then show ?thesis by (rule sort_eq_mset)
qed

section \<open>The group invariant\<close>

text \<open>
  The maps are maps, nothing is assigned to a non-member, and in a stable group every member
  has an assignment.
\<close>

definition group_inv :: "Group \<Rightarrow> bool" where
  "group_inv g \<longleftrightarrow>
     gm_wf (g_members g) \<and> gm_wf (g_assignment g) \<and> gm_wf (g_topicPartitions g) \<and>
     set (gm_keys (g_assignment g)) \<subseteq> set (memberIDs g) \<and>
     (g_state g = Stable \<longrightarrow> set (gm_keys (g_assignment g)) = set (memberIDs g)) \<and>
     (g_state g = Empty \<longrightarrow> g_members g = [])"

lemma group_invI:
  assumes "gm_wf (g_members g)" "gm_wf (g_assignment g)" "gm_wf (g_topicPartitions g)"
    "set (gm_keys (g_assignment g)) \<subseteq> set (memberIDs g)"
    "g_state g = Stable \<Longrightarrow> set (gm_keys (g_assignment g)) = set (memberIDs g)"
    "g_state g = Empty \<Longrightarrow> g_members g = []"
  shows "group_inv g"
  using assms by (simp add: group_inv_def)

lemma gm_empty_Nil [simp]: "gm_empty = []"
  by (simp add: gm_empty_def)

lemma gm_put_not_Nil [simp]: "gm_put m k v \<noteq> []"
  using gm.set_keys_put [of m k v] by (auto simp: gm_keys_def)

lemma gm_keys_Nil [simp]: "gm_keys [] = []" "gm_keys m = [] \<longleftrightarrow> m = []" "gm_get [] k = None" "gm_wf []"
  by (simp_all add: gm_keys_def gm_get_def gm_wf_def)

lemma register_topics_wf: "gm_wf tp \<Longrightarrow> gm_wf (register_topics ts tp)"
  by (induction ts tp rule: register_topics.induct) auto

lemma NewGroup_inv: "group_inv (NewGroup gid timeout)"
  by (rule group_invI) (simp_all add: NewGroup_def memberIDs_def gm_wf_def)

lemma Group_Join_inv: "group_inv g \<Longrightarrow> group_inv (snd (Group_Join now g mid topics))"
  by (rule group_invI)
    (auto simp: group_inv_def Group_Join_def signal_rebalance_def Let_def memberIDs_def
      gm.set_keys_put register_topics_wf gm.set_keys split: if_splits)

lemma Group_Leave_inv:
  assumes "group_inv g"
  shows "group_inv (Group_Leave g mid)"
proof -
  have sub: "set (gm_keys (gm_del (g_assignment g) mid)) \<subseteq> set (gm_keys (gm_del (g_members g) mid))"
    using assms by (auto simp: group_inv_def memberIDs_def gm.set_keys_del)
  show ?thesis
  proof (cases "gm_del (g_members g) mid = []")
    case True
    with assms sub show ?thesis
      by (intro group_invI) (simp_all add: group_inv_def Group_Leave_def Let_def memberIDs_def)
  next
    case False
    with assms sub show ?thesis
      by (intro group_invI)
        (simp_all add: group_inv_def Group_Leave_def Let_def memberIDs_def signal_rebalance_def)
  qed
qed

lemma Group_Heartbeat_inv: "group_inv g \<Longrightarrow> group_inv (snd (Group_Heartbeat now g mid gen))"
  by (rule group_invI)
    (auto simp: group_inv_def Group_Heartbeat_def memberIDs_def gm.set_keys_put gm.set_keys
      split: option.splits)

lemma CommitOffset_inv: "group_inv g \<Longrightarrow> group_inv (CommitOffset g topic part off)"
  by (simp add: group_inv_def CommitOffset_def memberIDs_def)

lemma SetTopicPartitionCount_inv: "group_inv g \<Longrightarrow> group_inv (SetTopicPartitionCount g topic cnt)"
  by (simp add: group_inv_def SetTopicPartitionCount_def memberIDs_def)

lemma expire_loop_spec:
  "expire_loop now timeout xs ms asg ex = (ms', asg', ex') \<Longrightarrow>
     (gm_wf ms \<longrightarrow> gm_wf ms') \<and> (gm_wf asg \<longrightarrow> gm_wf asg') \<and>
     (\<forall>k. gm_get ms' k = (if \<exists>m. (k, m) \<in> set xs \<and> timeout < time_since now (mb_LastHeartbeat m)
          then None else gm_get ms k)) \<and>
     (\<forall>k. gm_get asg' k = (if \<exists>m. (k, m) \<in> set xs \<and> timeout < time_since now (mb_LastHeartbeat m)
          then None else gm_get asg k)) \<and>
     ex' = (ex \<or> (\<exists>(k, m) \<in> set xs. timeout < time_since now (mb_LastHeartbeat m)))"
proof (induction now timeout xs ms asg ex rule: expire_loop.induct)
  case (2 now timeout mid m rest ms asg ex)
  show ?case
  proof (cases "time_since now (mb_LastHeartbeat m) > timeout")
    case True
    with 2(1) [OF True] 2(3) show ?thesis by auto
  next
    case False
    with 2(2) [OF False] 2(3) show ?thesis by auto
  qed
qed simp

lemma heartbeatWatcher_get:
  assumes "gm_wf (g_members g)"
  shows "gm_get (g_members (heartbeatWatcher_tick now g)) k =
      (case gm_get (g_members g) k of None \<Rightarrow> None
       | Some m \<Rightarrow> if g_sessionTimeout g < time_since now (mb_LastHeartbeat m) then None else Some m)"
    and "gm_get (g_assignment (heartbeatWatcher_tick now g)) k =
      (case gm_get (g_members g) k of None \<Rightarrow> gm_get (g_assignment g) k
       | Some m \<Rightarrow> if g_sessionTimeout g < time_since now (mb_LastHeartbeat m) then None
                  else gm_get (g_assignment g) k)"
proof -
  obtain ms asg ex where e: "expire_loop now (g_sessionTimeout g) (g_members g) (g_members g)
      (g_assignment g) False = (ms, asg, ex)"
    by (metis prod_cases3)
  note spec = expire_loop_spec [OF e, folded gm_get_Some_iff [OF assms]]
  have r: "g_members (heartbeatWatcher_tick now g) = ms" "g_assignment (heartbeatWatcher_tick now g) = asg"
    by (simp_all add: heartbeatWatcher_tick_def e Let_def signal_rebalance_def)
  show "gm_get (g_members (heartbeatWatcher_tick now g)) k =
      (case gm_get (g_members g) k of None \<Rightarrow> None
       | Some m \<Rightarrow> if g_sessionTimeout g < time_since now (mb_LastHeartbeat m) then None else Some m)"
    using spec by (cases "gm_get (g_members g) k") (simp_all add: r)
  show "gm_get (g_assignment (heartbeatWatcher_tick now g)) k =
      (case gm_get (g_members g) k of None \<Rightarrow> gm_get (g_assignment g) k
       | Some m \<Rightarrow> if g_sessionTimeout g < time_since now (mb_LastHeartbeat m) then None
                  else gm_get (g_assignment g) k)"
    using spec by (cases "gm_get (g_members g) k") (simp_all add: r)
qed

lemma heartbeatWatcher_tick_other:
  "g_topicPartitions (heartbeatWatcher_tick now g) = g_topicPartitions g"
  "g_generation (heartbeatWatcher_tick now g) = g_generation g"
  "g_state (heartbeatWatcher_tick now g) \<in> {g_state g, PreRebalance}"
  by (auto simp: heartbeatWatcher_tick_def Let_def signal_rebalance_def split: prod.splits if_splits)

lemma heartbeatWatcher_inv:
  assumes "group_inv g"
  shows "group_inv (heartbeatWatcher_tick now g)"
proof -
  obtain ms asg ex where e: "expire_loop now (g_sessionTimeout g) (g_members g) (g_members g)
      (g_assignment g) False = (ms, asg, ex)"
    by (metis prod_cases3)
  have wf: "gm_wf ms" "gm_wf asg"
    using expire_loop_spec [OF e] assms by (auto simp: group_inv_def)
  let ?g = "heartbeatWatcher_tick now g"
  have r: "g_members ?g = ms" "g_assignment ?g = asg"
    by (simp_all add: heartbeatWatcher_tick_def e Let_def signal_rebalance_def)
  have keys: "set (gm_keys (g_assignment g)) \<subseteq> set (gm_keys (g_members g)) \<Longrightarrow>
      set (gm_keys asg) \<subseteq> set (gm_keys ms)"
    "set (gm_keys (g_assignment g)) = set (gm_keys (g_members g)) \<Longrightarrow>
      set (gm_keys asg) = set (gm_keys ms)"
    using expire_loop_spec [OF e] by (auto simp: gm.set_keys set_eq_iff subset_iff)
  have none: "ms = []" if "g_members g = []"
    using e that by simp
  show ?thesis
    using assms wf keys none heartbeatWatcher_tick_other [of now g]
    by (intro group_invI) (auto simp: r group_inv_def memberIDs_def)
qed

section \<open>Rebalance\<close>

lemma Rebalance_fields:
  "g_state (snd (Group_Rebalance g)) = Stable"
  "g_generation (snd (Group_Rebalance g)) = i32 (g_generation g + 1)"
  "g_members (snd (Group_Rebalance g)) = g_members g"
  "g_topicPartitions (snd (Group_Rebalance g)) = g_topicPartitions g"
  "g_assignment (snd (Group_Rebalance g)) = fst (Group_Rebalance g)"
  "g_rebalanceCh (snd (Group_Rebalance g)) = g_rebalanceCh g"
  "g_offsets (snd (Group_Rebalance g)) = g_offsets g"
  "g_ID (snd (Group_Rebalance g)) = g_ID g"
  by (simp_all add: Group_Rebalance_def Let_def)

lemma Rebalance_assignment:
  "fst (Group_Rebalance g) =
     assign_loop (sort (memberIDs g)) 0 (sort (allParts (g_topicPartitions g)))
       (init_assignment (sort (memberIDs g)) gm_empty)"
  by (simp add: Group_Rebalance_def Let_def memberIDs_def)

lemma Rebalance_keys: "set (gm_keys (fst (Group_Rebalance g))) = set (memberIDs g)"
proof -
  have "set (gm_keys (init_assignment (sort (memberIDs g)) gm_empty)) = set (memberIDs g)"
    by (auto simp: gm.set_keys init_assignment_get split: if_splits)
  then show ?thesis unfolding Rebalance_assignment by (subst assign_loop_keys) simp_all
qed

lemma Rebalance_wf: "gm_wf (fst (Group_Rebalance g))"
  unfolding Rebalance_assignment by (intro assign_loop_wf init_assignment_wf) simp

lemma Rebalance_inv: "group_inv g \<Longrightarrow> group_inv (snd (Group_Rebalance g))"
  by (rule group_invI)
    (simp_all add: Rebalance_fields Rebalance_keys Rebalance_wf memberIDs_def group_inv_def)

lemma sorted_members: "group_inv g \<Longrightarrow> distinct (memberIDs g)"
  by (simp add: group_inv_def memberIDs_def gm_wf_def)

lemma init_slice: "slice_of (init_assignment ms []) m = []"
  by (simp add: slice_of_def init_assignment_get)

lemma Rebalance_slice:
  assumes "group_inv g" "k < length (memberIDs g)"
  shows "slice_of (fst (Group_Rebalance g)) (sort (memberIDs g) ! k) =
    map pk_part (every_nth (length (memberIDs g)) k 0 (sort (allParts (g_topicPartitions g))))"
  unfolding Rebalance_assignment
  using assms by (subst assign_loop_slice) (simp_all add: sorted_members init_slice)

definition ex_group :: Group where
  "ex_group =
     snd (Group_Join 5 (snd (Group_Join 0 (SetTopicPartitionCount (NewGroup ''g'' 10) ''t'' 3)
       ''b'' [''t''])) ''a'' [''t''])"

definition ex_group' :: Group where
  "ex_group' =
     snd (Group_Join 0 (SetTopicPartitionCount
       (snd (Group_Join 5 (NewGroup ''g'' 10) ''a'' [''t''])) ''t'' 3) ''b'' [''t''])"

lemma ex_group_inv: "group_inv ex_group" "group_inv ex_group'"
  unfolding ex_group_def ex_group'_def
  by (intro Group_Join_inv SetTopicPartitionCount_inv NewGroup_inv)+

lemma ex_group_eval:
  "memberIDs ex_group = [''b'', ''a'']" "memberIDs ex_group' = [''a'', ''b'']"
  "g_topicPartitions ex_group = [(''t'', 3)]" "g_topicPartitions ex_group' = [(''t'', 3)]"
  "gm_get (g_members ex_group) ''b'' = Some \<lparr>mb_ID = ''b'', mb_Topics = [''t''], mb_LastHeartbeat = 0, mb_Assignment = []\<rparr>"
  "g_members ex_group \<noteq> []"
  by code_simp+

lemma ex_group_rebalance:
  "fst (Group_Rebalance ex_group) = [(''a'', [0, 2]), (''b'', [1])]"
  by code_simp

lemma rebalance_facts:
  assumes "group_inv g" "g_members g \<noteq> []"
  shows "(\<Sum>m\<leftarrow>memberIDs g. mset (slice_of (fst (Group_Rebalance g)) m)) =
    mset (map pk_part (allParts (g_topicPartitions g)))"
proof -
  let ?ms = "sort (memberIDs g)"
  have ne: "?ms \<noteq> []"
    using assms(2) by (metis gm_keys_Nil(2) memberIDs_def mset_sort mset_zero_iff)
  have "(\<Sum>m\<leftarrow>?ms. mset (slice_of (fst (Group_Rebalance g)) m)) =
      mset (map pk_part (sort (allParts (g_topicPartitions g))))"
    unfolding Rebalance_assignment
    using sorted_members [OF assms(1)] ne by (subst assign_loop_mset) (simp_all add: init_slice)
  moreover have "(\<Sum>m\<leftarrow>?ms. f m) = (\<Sum>m\<leftarrow>memberIDs g. f m)" for f :: "string \<Rightarrow> int multiset"
    by (metis mset_map mset_sort sum_mset_sum_list)
  ultimately show ?thesis by simp
qed

section \<open>Properties\<close>

text \<open>
  C14: the assignment is round robin over the sorted members: the \<open>k\<close>-th of \<open>n\<close> members gets the ids of
  the partitions at the positions congruent to \<open>k\<close> modulo \<open>n\<close> in the list of all partitions of all
  topics, sorted by topic and id, so the numbers of partitions of two members differ by at most one.
\<close>

theorem rebalance_round_robin_balanced:
  assumes "group_inv g" "k < length (memberIDs g)" "k' < length (memberIDs g)"
  shows "slice_of (fst (Group_Rebalance g)) (sort (memberIDs g) ! k) =
      map pk_part (every_nth (length (memberIDs g)) k 0 (sort (allParts (g_topicPartitions g)))) \<and>
    length (slice_of (fst (Group_Rebalance g)) (sort (memberIDs g) ! k)) \<le>
      length (slice_of (fst (Group_Rebalance g)) (sort (memberIDs g) ! k')) + 1"
  using every_nth_balanced [OF assms(2,3)] by (simp add: Rebalance_slice assms)

theorem rebalance_round_robin_balanced_witness:
  "group_inv ex_group \<and> memberIDs ex_group = [''b'', ''a''] \<and> gm_get (g_topicPartitions ex_group) ''t'' = Some 3 \<and>
   slice_of (fst (Group_Rebalance ex_group)) ''a'' = [0, 2] \<and>
   slice_of (fst (Group_Rebalance ex_group)) ''b'' = [1]"
proof -
  have n: "0 < length (memberIDs ex_group)" "1 < length (memberIDs ex_group)"
    by (simp_all add: ex_group_eval)
  have m: "sort (memberIDs ex_group) = [''a'', ''b'']" by code_simp
  have "map pk_part (every_nth (Suc (Suc 0)) 0 0 (sort (allParts [(''t'', 3)]))) = [0, 2]"
    "map pk_part (every_nth (Suc (Suc 0)) (Suc 0) 0 (sort (allParts [(''t'', 3)]))) = [1]" by code_simp+
  then show ?thesis
    using rebalance_round_robin_balanced [OF ex_group_inv(1) n(1) n(2)]
      rebalance_round_robin_balanced [OF ex_group_inv(1) n(2) n(1)] ex_group_inv(1)
    by (simp add: m ex_group_eval gm_get_def)
qed

text \<open>
  C15: the assignment does not depend on the order in which Go ranges over its maps, nor on the
  order in which members joined: groups with the same members and partition counts get the same
  assignment.
\<close>

theorem rebalance_deterministic:
  assumes "group_inv g" "group_inv g'" "set (memberIDs g) = set (memberIDs g')"
    "\<And>t. gm_get (g_topicPartitions g) t = gm_get (g_topicPartitions g') t"
  shows "fst (Group_Rebalance g) = fst (Group_Rebalance g')"
proof -
  have "sort (memberIDs g) = sort (memberIDs g')"
    using assms by (intro memberIDs_order) (simp_all add: group_inv_def)
  moreover have "sort (allParts (g_topicPartitions g)) = sort (allParts (g_topicPartitions g'))"
    using assms by (intro allParts_order) (simp_all add: group_inv_def)
  ultimately show ?thesis unfolding Rebalance_assignment by simp
qed

theorem rebalance_deterministic_witness:
  "fst (Group_Rebalance ex_group') = [(''a'', [0, 2]), (''b'', [1])]"
proof -
  have "set (memberIDs ex_group) = set (memberIDs ex_group')"
    unfolding ex_group_eval by (simp add: insert_commute)
  then have "fst (Group_Rebalance ex_group) = fst (Group_Rebalance ex_group')"
    by (rule rebalance_deterministic [OF ex_group_inv]) (simp add: ex_group_eval)
  then show ?thesis by (simp only: ex_group_rebalance)
qed

lemma offset_key_inject: "offset_key t p = offset_key t' p' \<longleftrightarrow> t = t' \<and> p = p'"
  using split_at_last_sep [of t "CHR ''/''" "fmt_d p" t' "fmt_d p'"]
  by (auto simp: offset_key_def)

lemma committed_offset_lookup:
  "FetchOffset (CommitOffset g t p off) t' p' = (if t' = t \<and> p' = p then off else FetchOffset g t' p')"
  by (auto simp: FetchOffset_def CommitOffset_def offset_key_inject)

text \<open>
  C19: a committed offset is what is fetched for that topic and partition, and a commit changes no
  other partition's offset, although both are packed into one string key and a topic name may
  itself contain the separator.
\<close>

theorem committed_offsets_independent:
  "FetchOffset (CommitOffset g t p off) t' p' = (if t' = t \<and> p' = p then off else FetchOffset g t' p')"
  by (rule committed_offset_lookup)

text \<open>
  C18: a watcher tick removes exactly the members whose last heartbeat is older than the session
  timeout, takes their partitions away, keeps the assignments of the others, and keeps the
  invariant of the group.
\<close>

theorem watcher_expires_exactly_silent_members:
  assumes "group_inv g" "gm_get (g_members g) mid = Some m"
  shows "(gm_get (g_members (heartbeatWatcher_tick now g)) mid = None \<longleftrightarrow>
       g_sessionTimeout g < time_since now (mb_LastHeartbeat m)) \<and>
    gm_get (g_assignment (heartbeatWatcher_tick now g)) mid =
      (if g_sessionTimeout g < time_since now (mb_LastHeartbeat m) then None
       else gm_get (g_assignment g) mid) \<and>
    group_inv (heartbeatWatcher_tick now g)"
  using assms heartbeatWatcher_inv [OF assms(1)]
  by (simp add: group_inv_def heartbeatWatcher_get)

theorem watcher_expires_exactly_silent_members_witness:
  "gm_get (g_members (heartbeatWatcher_tick 11 ex_group)) ''b'' = None"
proof -
  have "g_sessionTimeout ex_group < time_since 11 0" by code_simp
  then show ?thesis
    using watcher_expires_exactly_silent_members [OF ex_group_inv(1) ex_group_eval(5), of 11] by simp
qed

text \<open>
  An assignment is a list of partition numbers without their topics. Two members that subscribe to
  two topics of one partition each are both answered with partition 0: neither can tell whose it is.
\<close>

lemma two_members_own_one_partition:
  "\<exists>g. group_inv g \<and> g_state g = Stable \<and> g_topicPartitions g = [(''t'', 1), (''u'', 1)] \<and>
     (\<forall>m \<in> {''a'', ''b''}. Group_Sync g m (g_generation g) = Inr [0])"
proof (intro exI conjI)
  let ?g = "snd (Group_Rebalance (snd (Group_Join 5 (snd (Group_Join 0 (NewGroup ''g'' 10)
    ''a'' [''t'', ''u''])) ''b'' [''t'', ''u''])))"
  show "group_inv ?g" by (intro Rebalance_inv Group_Join_inv NewGroup_inv)
  show "g_state ?g = Stable" "g_topicPartitions ?g = [(''t'', 1), (''u'', 1)]" by code_simp+
  have "Group_Sync ?g ''a'' (g_generation ?g) = Inr [0]" "Group_Sync ?g ''b'' (g_generation ?g) = Inr [0]"
    by code_simp+
  then show "\<forall>m \<in> {''a'', ''b''}. Group_Sync ?g m (g_generation ?g) = Inr [0]" by simp
qed

end
