(* ===== verification/Step_Systems.thy ===== *)
theory Step_Systems
  imports Main
begin

text \<open>
  Transition systems: the states reachable from an initial state, and the interface through which
  a component's invariant is lifted to all of them. Components with concurrent or external
  stimuli (consumer groups, the Raft node, the event hub) state their steps as a relation and
  interpret \<open>invariant_system\<close> on it.
\<close>

inductive reachable :: "('s \<Rightarrow> bool) \<Rightarrow> ('s \<Rightarrow> 's \<Rightarrow> bool) \<Rightarrow> 's \<Rightarrow> bool" for init step where
  reach_init: "init s \<Longrightarrow> reachable init step s"
| reach_step: "reachable init step s \<Longrightarrow> step s s' \<Longrightarrow> reachable init step s'"

lemma reachable_steps: "reachable init step s \<Longrightarrow> step\<^sup>*\<^sup>* s s' \<Longrightarrow> reachable init step s'"
  by (rotate_tac) (induction rule: rtranclp.induct, auto intro: reach_step)

locale invariant_system =
  fixes init :: "'s \<Rightarrow> bool"
    and step :: "'s \<Rightarrow> 's \<Rightarrow> bool"
    and inv :: "'s \<Rightarrow> bool"
  assumes init_inv: "init s \<Longrightarrow> inv s"
    and step_inv: "inv s \<Longrightarrow> step s s' \<Longrightarrow> inv s'"
begin

lemma reachable_inv: "reachable init step s \<Longrightarrow> inv s"
  by (induction rule: reachable.induct) (auto intro: init_inv step_inv)

lemma steps_inv: "step\<^sup>*\<^sup>* s s' \<Longrightarrow> inv s \<Longrightarrow> inv s'"
  by (induction rule: rtranclp.induct) (auto intro: step_inv)

end

text \<open>
  A system whose every step changes an observation monotonically: for every preorder the
  observation only grows along a run.
\<close>

locale monotone_system =
  fixes step :: "'s \<Rightarrow> 's \<Rightarrow> bool"
    and obs :: "'s \<Rightarrow> 'o"
    and le :: "'o \<Rightarrow> 'o \<Rightarrow> bool"
  assumes le_refl: "le x x"
    and le_trans: "le x y \<Longrightarrow> le y z \<Longrightarrow> le x z"
    and step_mono: "step s s' \<Longrightarrow> le (obs s) (obs s')"
begin

lemma steps_mono: "step\<^sup>*\<^sup>* s s' \<Longrightarrow> le (obs s) (obs s')"
  by (induction rule: rtranclp.induct) (auto intro: le_refl le_trans step_mono)

end

end
