(* ===== verification/Consumer_Coordinator.thy ===== *)
theory Consumer_Coordinator
  imports Consumer_Group Step_Systems
begin

text \<open>
  \<open>internal/consumer/coordinator.go\<close>: the coordinator, its groups, and the goroutine
  \<open>watchGroup\<close> it starts for each. A group pointer is the group's id (the map never replaces or
  drops a group), and \<open>gsys\<close> is what it points to: the group together with where its watcher
  stands. \<open>group_step\<close> is one locked section of any goroutine, so the reachable states are those
  of every interleaving.
\<close>

section \<open>The watcher goroutine\<close>

text \<open>
  Waiting for the channel, about to refresh the partition counts, about to call \<open>Rebalance\<close>, or
  about to report the new assignment.
\<close>

datatype watch_pc = WWait | WUpdate | WRebalance | WReport

record gsys =
  gs_group :: Group
  gs_pc :: watch_pc
  gs_events :: "(string \<times> int \<times> (string, int list) gomap) list"

fun update_counts :: "(string \<Rightarrow> int) \<Rightarrow> string list \<Rightarrow> (string, int) gomap \<Rightarrow> (string, int) gomap" where
  "update_counts fn [] tp = tp"
| "update_counts fn (t # ts) tp =
     update_counts fn ts (let cnt = fn t in if cnt > 0 then gm_put tp t cnt else tp)"

text \<open>
  The next locked section of \<open>watchGroup\<close>; \<open>None\<close> when it blocks on the channel. The assignment
  it reports is the map the group still holds, not a copy, so the event carries what the map
  contains by then.
\<close>

definition watchGroup_next :: "(string \<Rightarrow> int) \<Rightarrow> bool \<Rightarrow> gsys \<Rightarrow> gsys option" where
  "watchGroup_next fn hasCallback s =
     (let g = gs_group s in
      case gs_pc s of
        WWait \<Rightarrow>
          if g_rebalanceCh g
          then Some (s\<lparr>gs_group := g\<lparr>g_rebalanceCh := False\<rparr>, gs_pc := WUpdate\<rparr>) else None
      | WUpdate \<Rightarrow>
          Some (s\<lparr>gs_group := g\<lparr>g_topicPartitions :=
                    update_counts fn (gm_keys (g_topicPartitions g)) (g_topicPartitions g)\<rparr>,
                  gs_pc := WRebalance\<rparr>)
      | WRebalance \<Rightarrow> Some (s\<lparr>gs_group := snd (Group_Rebalance g), gs_pc := WReport\<rparr>)
      | WReport \<Rightarrow>
          Some (s\<lparr>gs_pc := WWait,
                  gs_events := (if hasCallback
                    then gs_events s @ [(g_ID g, g_generation g, g_assignment g)]
                    else gs_events s)\<rparr>))"

text \<open>The calls other goroutines make on a group.\<close>

datatype group_op =
    OJoin int string "string list"
  | OLeave string
  | OHeartbeat int string int
  | OCommit string int int
  | OSetCount string int
  | OTick int

fun exec_op :: "group_op \<Rightarrow> Group \<Rightarrow> Group" where
  "exec_op (OJoin now mid topics) g = snd (Group_Join now g mid topics)"
| "exec_op (OLeave mid) g = Group_Leave g mid"
| "exec_op (OHeartbeat now mid gen) g = snd (Group_Heartbeat now g mid gen)"
| "exec_op (OCommit t p off) g = CommitOffset g t p off"
| "exec_op (OSetCount t cnt) g = SetTopicPartitionCount g t cnt"
| "exec_op (OTick now) g = heartbeatWatcher_tick now g"

inductive group_step :: "gsys \<Rightarrow> gsys \<Rightarrow> bool" where
  step_op: "group_step s (s\<lparr>gs_group := exec_op op (gs_group s)\<rparr>)"
| step_watch: "watchGroup_next fn cb s = Some s' \<Longrightarrow> group_step s s'"

inductive_cases group_stepE: "group_step s s'"

definition new_gsys :: "string \<Rightarrow> int \<Rightarrow> gsys" where
  "new_gsys gid timeout = \<lparr>gs_group = NewGroup gid timeout, gs_pc = WWait, gs_events = []\<rparr>"

section \<open>The coordinator\<close>

record Coordinator =
  co_groups :: "(string, gsys) gomap"
  co_hasOnRebalance :: bool

definition NewCoordinator :: Coordinator where
  "NewCoordinator = \<lparr>co_groups = gm_empty, co_hasOnRebalance = False\<rparr>"

definition GetOrCreateGroup :: "Coordinator \<Rightarrow> string \<Rightarrow> int \<Rightarrow> Coordinator" where
  "GetOrCreateGroup c gid sessionTimeoutMs =
     (case gm_get (co_groups c) gid of
        Some _ \<Rightarrow> c
      | None \<Rightarrow>
          c\<lparr>co_groups := gm_put (co_groups c) gid (new_gsys gid (i64 (sessionTimeoutMs * 1000000)))\<rparr>)"

definition GetGroup :: "Coordinator \<Rightarrow> string \<Rightarrow> Group option" where
  "GetGroup c gid = map_option gs_group (gm_get (co_groups c) gid)"

text \<open>A method call through a group pointer.\<close>

definition on_group :: "Coordinator \<Rightarrow> string \<Rightarrow> (Group \<Rightarrow> Group) \<Rightarrow> Coordinator" where
  "on_group c gid f =
     (case gm_get (co_groups c) gid of
        None \<Rightarrow> c
      | Some s \<Rightarrow> c\<lparr>co_groups := gm_put (co_groups c) gid (s\<lparr>gs_group := f (gs_group s)\<rparr>)\<rparr>)"

fun set_counts :: "string \<Rightarrow> int \<Rightarrow> string list \<Rightarrow> Coordinator \<Rightarrow> Coordinator" where
  "set_counts topic cnt [] c = c"
| "set_counts topic cnt (gid # gids) c =
     set_counts topic cnt gids (on_group c gid (\<lambda>g. SetTopicPartitionCount g topic cnt))"

definition SetTopicPartitions :: "Coordinator \<Rightarrow> string \<Rightarrow> int \<Rightarrow> Coordinator" where
  "SetTopicPartitions c topic cnt = set_counts topic cnt (gm_keys (co_groups c)) c"

fun GroupState_String :: "GroupState \<Rightarrow> string" where
  "GroupState_String Empty = ''Empty''"
| "GroupState_String PreRebalance = ''PreRebalance''"
| "GroupState_String CompletingRebalance = ''CompletingRebalance''"
| "GroupState_String Stable = ''Stable''"

record GroupSummary =
  sm_ID :: string
  sm_State :: string
  sm_Generation :: int
  sm_Members :: "string list"

definition ListGroups :: "Coordinator \<Rightarrow> GroupSummary list" where
  "ListGroups c =
     map (\<lambda>(gid, s). let g = gs_group s in
       \<lparr>sm_ID = g_ID g, sm_State = GroupState_String (g_state g),
        sm_Generation = g_generation g, sm_Members = memberIDs g\<rparr>) (co_groups c)"

text \<open>The steps of the coordinator and the goroutines of its groups.\<close>

inductive coord_step :: "Coordinator \<Rightarrow> Coordinator \<Rightarrow> bool" where
  coord_create: "coord_step c (GetOrCreateGroup c gid ms)"
| coord_set: "coord_step c (SetTopicPartitions c topic cnt)"
| coord_op: "coord_step c (on_group c gid (exec_op op))"
| coord_watch: "gm_get (co_groups c) gid = Some s \<Longrightarrow>
    watchGroup_next fn (co_hasOnRebalance c) s = Some s' \<Longrightarrow>
    coord_step c (c\<lparr>co_groups := gm_put (co_groups c) gid s'\<rparr>)"

inductive_cases coord_stepE: "coord_step c c'"

definition coord_init :: "Coordinator \<Rightarrow> bool" where
  "coord_init c \<longleftrightarrow> co_groups c = gm_empty"

section \<open>The invariant of a group and its watcher\<close>

text \<open>
  A rebalance that is due is never forgotten: either the channel holds a token or the watcher has
  taken one and has not rebalanced yet.
\<close>

definition gsys_inv :: "string \<Rightarrow> gsys \<Rightarrow> bool" where
  "gsys_inv gid s \<longleftrightarrow>
     group_inv (gs_group s) \<and> g_ID (gs_group s) = gid \<and>
     g_state (gs_group s) \<noteq> CompletingRebalance \<and>
     (g_state (gs_group s) = PreRebalance \<longrightarrow>
        g_rebalanceCh (gs_group s) \<or> gs_pc s \<in> {WUpdate, WRebalance})"

lemma exec_op_inv: "group_inv g \<Longrightarrow> group_inv (exec_op op g)"
  by (cases op) (simp_all add: Group_Join_inv Group_Leave_inv Group_Heartbeat_inv CommitOffset_inv
      SetTopicPartitionCount_inv heartbeatWatcher_inv)

lemma exec_op_ID: "g_ID (exec_op op g) = g_ID g"
  by (cases op) (simp_all add: Group_Join_def Group_Leave_def Group_Heartbeat_def CommitOffset_def
      SetTopicPartitionCount_def heartbeatWatcher_tick_def signal_rebalance_def Let_def
      split: option.splits prod.splits)

lemma exec_op_signal:
  "g_state (exec_op op g) \<in> {g_state g, Empty} \<and> g_rebalanceCh (exec_op op g) = g_rebalanceCh g \<or>
   g_state (exec_op op g) = PreRebalance \<and> g_rebalanceCh (exec_op op g)"
  by (cases op) (auto simp: Group_Join_def Group_Leave_def Group_Heartbeat_def CommitOffset_def
      SetTopicPartitionCount_def heartbeatWatcher_tick_def signal_rebalance_def Let_def
      split: option.splits prod.splits)

lemma update_counts_wf: "gm_wf tp \<Longrightarrow> gm_wf (update_counts fn ts tp)"
  by (induction fn ts tp rule: update_counts.induct) (auto simp: Let_def)

lemma update_counts_get:
  "gm_get (update_counts fn ts tp) t = (if t \<in> set ts \<and> fn t > 0 then Some (fn t) else gm_get tp t)"
  by (induction fn ts tp rule: update_counts.induct) (auto simp: Let_def)

lemma watch_inv:
  assumes "gsys_inv gid s" "watchGroup_next fn cb s = Some s'"
  shows "gsys_inv gid s'"
proof -
  have g: "group_inv (gs_group s)" "g_ID (gs_group s) = gid" "g_state (gs_group s) \<noteq> CompletingRebalance"
    using assms(1) by (simp_all add: gsys_inv_def)
  show ?thesis
  proof (cases "gs_pc s")
    case WWait
    then have "s' = s\<lparr>gs_group := (gs_group s)\<lparr>g_rebalanceCh := False\<rparr>, gs_pc := WUpdate\<rparr>"
      using assms(2) by (simp add: watchGroup_next_def Let_def split: if_splits)
    then show ?thesis using g by (simp add: gsys_inv_def group_inv_def memberIDs_def)
  next
    case WUpdate
    then have "s' = s\<lparr>gs_group := (gs_group s)\<lparr>g_topicPartitions := update_counts fn
        (gm_keys (g_topicPartitions (gs_group s))) (g_topicPartitions (gs_group s))\<rparr>, gs_pc := WRebalance\<rparr>"
      using assms(2) by (simp add: watchGroup_next_def Let_def)
    then show ?thesis
      using g by (simp add: gsys_inv_def group_inv_def memberIDs_def update_counts_wf)
  next
    case WRebalance
    then have "s' = s\<lparr>gs_group := snd (Group_Rebalance (gs_group s)), gs_pc := WReport\<rparr>"
      using assms(2) by (simp add: watchGroup_next_def Let_def)
    then show ?thesis
      using g Rebalance_inv [OF g(1)] by (simp add: gsys_inv_def Rebalance_fields)
  next
    case WReport
    then have "gs_group s' = gs_group s"
      using assms(2) by (auto simp: watchGroup_next_def Let_def)
    then show ?thesis using assms(1) WReport by (simp add: gsys_inv_def)
  qed
qed

lemma op_inv: "gsys_inv gid s \<Longrightarrow> gsys_inv gid (s\<lparr>gs_group := exec_op op (gs_group s)\<rparr>)"
  using exec_op_signal [of op "gs_group s"]
  by (auto simp: gsys_inv_def exec_op_inv exec_op_ID)

interpretation group_sys: invariant_system "\<lambda>s. \<exists>timeout. s = new_gsys gid timeout" group_step "gsys_inv gid" for gid
proof unfold_locales
  fix s assume "\<exists>timeout. s = new_gsys gid timeout"
  then show "gsys_inv gid s"
    by (auto simp: gsys_inv_def new_gsys_def NewGroup_inv) (simp_all add: NewGroup_def)
next
  fix s s' assume "gsys_inv gid s" "group_step s s'"
  then show "gsys_inv gid s'" by (auto elim!: group_stepE intro: op_inv watch_inv)
qed

section \<open>Every group of a coordinator runs the group system\<close>

definition coord_sim :: "Coordinator \<Rightarrow> bool" where
  "coord_sim c \<longleftrightarrow> gm_wf (co_groups c) \<and>
     (\<forall>gid s. gm_get (co_groups c) gid = Some s \<longrightarrow>
        reachable (\<lambda>s. \<exists>timeout. s = new_gsys gid timeout) group_step s)"

lemma coord_simD:
  "coord_sim c \<Longrightarrow> gm_get (co_groups c) gid = Some s \<Longrightarrow>
     reachable (\<lambda>s. \<exists>timeout. s = new_gsys gid timeout) group_step s"
  by (simp add: coord_sim_def)

lemma coord_sim_put:
  assumes "coord_sim c" "reachable (\<lambda>s. \<exists>timeout. s = new_gsys gid timeout) group_step s'"
  shows "coord_sim (c\<lparr>co_groups := gm_put (co_groups c) gid s'\<rparr>)"
  using assms by (auto simp: coord_sim_def)

lemma coord_sim_on_group:
  assumes "coord_sim c"
  shows "coord_sim (on_group c gid (exec_op op))"
proof (cases "gm_get (co_groups c) gid")
  case (Some s)
  have "reachable (\<lambda>s. \<exists>timeout. s = new_gsys gid timeout) group_step
      (s\<lparr>gs_group := exec_op op (gs_group s)\<rparr>)"
    using coord_simD [OF assms Some] step_op by (rule reach_step)
  then show ?thesis using coord_sim_put [OF assms] by (simp add: on_group_def Some)
qed (use assms in \<open>simp add: on_group_def\<close>)

lemma coord_sim_set_counts: "coord_sim c \<Longrightarrow> coord_sim (set_counts topic cnt gids c)"
proof (induction topic cnt gids c rule: set_counts.induct)
  case (2 topic cnt gid gids c)
  have "(\<lambda>g. SetTopicPartitionCount g topic cnt) = exec_op (OSetCount topic cnt)" by auto
  then show ?case using 2 coord_sim_on_group [of c gid "OSetCount topic cnt"] by simp
qed simp

lemma coord_step_sim:
  assumes "coord_sim c" "coord_step c c'"
  shows "coord_sim c'"
  using assms(2)
proof (cases rule: coord_step.cases)
  case (coord_create gid ms)
  have "reachable (\<lambda>s. \<exists>timeout. s = new_gsys gid timeout) group_step (new_gsys gid timeout)" for timeout
    by (rule reach_init) blast
  then show ?thesis using coord_sim_put [OF assms(1)] assms(1) coord_create
    by (auto simp: GetOrCreateGroup_def split: option.splits)
next
  case (coord_set topic cnt)
  then show ?thesis using coord_sim_set_counts [OF assms(1)] by (simp add: SetTopicPartitions_def)
next
  case (coord_op gid op)
  then show ?thesis using coord_sim_on_group [OF assms(1)] by simp
next
  case (coord_watch gid s fn s')
  then show ?thesis
    using coord_sim_put [OF assms(1) reach_step [OF coord_simD [OF assms(1)] step_watch]] by blast
qed

interpretation coord_sys: invariant_system coord_init coord_step coord_sim
  by unfold_locales (simp add: coord_init_def coord_sim_def, rule coord_step_sim)

section \<open>Properties\<close>

lemma reachable_group_inv:
  assumes "reachable coord_init coord_step c" "gm_get (co_groups c) gid = Some s"
  shows "gsys_inv gid s"
  using group_sys.reachable_inv [OF coord_simD [OF coord_sys.reachable_inv [OF assms(1)] assms(2)]] .

text \<open>A schedule of one group: calls of other goroutines and steps of its watcher.\<close>

fun gs_run :: "(string \<Rightarrow> int) \<Rightarrow> bool \<Rightarrow> gsys \<Rightarrow> group_op option list \<Rightarrow> gsys option" where
  "gs_run fn cb s [] = Some s"
| "gs_run fn cb s (Some op # xs) = gs_run fn cb (s\<lparr>gs_group := exec_op op (gs_group s)\<rparr>) xs"
| "gs_run fn cb s (None # xs) =
     (case watchGroup_next fn cb s of None \<Rightarrow> None | Some s' \<Rightarrow> gs_run fn cb s' xs)"

lemma gs_run_steps: "gs_run fn cb s xs = Some s' \<Longrightarrow> group_step\<^sup>*\<^sup>* s s'"
proof (induction fn cb s xs rule: gs_run.induct)
  case (2 fn cb s op xs)
  then show ?case using converse_rtranclp_into_rtranclp [of group_step, OF step_op] by simp
next
  case (3 fn cb s xs)
  then show ?case
    using converse_rtranclp_into_rtranclp [of group_step, OF step_watch] by (auto split: option.splits)
qed simp

lemma stable_sync_core:
  assumes "reachable coord_init coord_step c" "GetGroup c gid = Some g"
    "g_state g = Stable" "mid \<in> set (memberIDs g)"
  shows "Group_Sync g mid (g_generation g) = Inr (slice_of (g_assignment g) mid)"
proof -
  obtain s where s: "gm_get (co_groups c) gid = Some s" "g = gs_group s"
    using assms(2) by (auto simp: GetGroup_def)
  have "set (gm_keys (g_assignment g)) = set (memberIDs g)"
    using reachable_group_inv [OF assms(1) s(1)] s(2) assms(3) by (simp add: gsys_inv_def group_inv_def)
  then obtain ps where "gm_get (g_assignment g) mid = Some ps"
    using assms(4) by (auto simp: gm.set_keys)
  then show ?thesis by (simp add: Group_Sync_def slice_of_def)
qed

text \<open>
  C16: in every reachable state of a coordinator, under any interleaving of joins, leaves,
  heartbeats, expiries and rebalances, a member of a stable group that asks with the current
  generation gets its partitions.
\<close>

theorem stable_member_can_sync:
  assumes "reachable coord_init coord_step c" "GetGroup c gid = Some g"
    "g_state g = Stable" "mid \<in> set (memberIDs g)"
  shows "Group_Sync g mid (g_generation g) = Inr (slice_of (g_assignment g) mid)"
  using stable_sync_core [OF assms] .

text \<open>
  What a completed rebalance of \<open>s\<close> looks like in \<open>s'\<close>: same members, next generation, stable, the
  partition counts the callback gives (unless the watcher had asked for them before), an assignment
  for exactly the members, and every partition of every topic with one owner.
\<close>

definition rebalanced :: "(string \<Rightarrow> int) \<Rightarrow> gsys \<Rightarrow> gsys \<Rightarrow> bool" where
  "rebalanced fn s s' \<longleftrightarrow>
     gm_wf (g_topicPartitions (gs_group s')) \<and>
     (\<forall>t. gm_get (g_topicPartitions (gs_group s')) t =
        (if gs_pc s \<noteq> WRebalance \<and> 0 < fn t then map_option (\<lambda>_. fn t) else (\<lambda>c. c))
          (gm_get (g_topicPartitions (gs_group s)) t)) \<and>
     g_state (gs_group s') = Stable \<and> g_members (gs_group s') = g_members (gs_group s) \<and>
     g_generation (gs_group s') = i32 (g_generation (gs_group s) + 1) \<and>
     set (gm_keys (g_assignment (gs_group s'))) = set (memberIDs (gs_group s)) \<and>
     (g_members (gs_group s) \<noteq> [] \<longrightarrow>
        (\<Sum>m\<leftarrow>memberIDs (gs_group s). mset (slice_of (g_assignment (gs_group s')) m)) =
          mset (map pk_part (allParts (g_topicPartitions (gs_group s')))))"

lemma watch_rebalance:
  assumes "gs_pc t = WRebalance" "group_inv (gs_group t)"
    "g_members (gs_group t) = g_members (gs_group s)"
    "g_generation (gs_group t) = g_generation (gs_group s)"
    "\<And>x. gm_get (g_topicPartitions (gs_group t)) x =
        (if gs_pc s \<noteq> WRebalance \<and> 0 < fn x then map_option (\<lambda>_. fn x) else (\<lambda>c. c))
          (gm_get (g_topicPartitions (gs_group s)) x)"
  shows "\<exists>s'. gs_run fn cb t [None] = Some s' \<and> rebalanced fn s s'"
  using rebalance_facts [OF assms(2)] assms
  by (simp add: watchGroup_next_def Let_def rebalanced_def Rebalance_fields Rebalance_keys memberIDs_def
      group_inv_def)

lemma watch_update:
  assumes "gs_pc t = WUpdate" "group_inv (gs_group t)"
    "g_members (gs_group t) = g_members (gs_group s)"
    "g_generation (gs_group t) = g_generation (gs_group s)"
    "g_topicPartitions (gs_group t) = g_topicPartitions (gs_group s)" "gs_pc s \<noteq> WRebalance"
  shows "\<exists>s'. gs_run fn cb t [None, None] = Some s' \<and> rebalanced fn s s'"
proof -
  let ?t = "t\<lparr>gs_group := (gs_group t)\<lparr>g_topicPartitions := update_counts fn
    (gm_keys (g_topicPartitions (gs_group t))) (g_topicPartitions (gs_group t))\<rparr>, gs_pc := WRebalance\<rparr>"
  have "group_inv (gs_group ?t)"
    using assms(2) by (simp add: group_inv_def memberIDs_def update_counts_wf)
  then have "\<exists>s'. gs_run fn cb ?t [None] = Some s' \<and> rebalanced fn s s'"
    by (intro watch_rebalance) (use assms in \<open>auto simp: update_counts_get gm.set_keys\<close>)
  moreover have "gs_run fn cb t [None, None] = gs_run fn cb ?t [None]"
    using assms(1) by (simp add: watchGroup_next_def Let_def)
  ultimately show ?thesis by simp
qed

lemma watch_receive:
  assumes "gs_pc t = WWait" "g_rebalanceCh (gs_group t)" "group_inv (gs_group t)"
    "g_members (gs_group t) = g_members (gs_group s)"
    "g_generation (gs_group t) = g_generation (gs_group s)"
    "g_topicPartitions (gs_group t) = g_topicPartitions (gs_group s)" "gs_pc s \<noteq> WRebalance"
  shows "\<exists>s'. gs_run fn cb t [None, None, None] = Some s' \<and> rebalanced fn s s'"
proof -
  let ?t = "t\<lparr>gs_group := (gs_group t)\<lparr>g_rebalanceCh := False\<rparr>, gs_pc := WUpdate\<rparr>"
  have "group_inv (gs_group ?t)"
    using assms(3) by (simp add: group_inv_def memberIDs_def)
  then have "\<exists>s'. gs_run fn cb ?t [None, None] = Some s' \<and> rebalanced fn s s'"
    by (intro watch_update) (use assms in simp_all)
  moreover have "gs_run fn cb t [None, None, None] = gs_run fn cb ?t [None, None]"
    using assms(1,2) by (simp add: watchGroup_next_def Let_def)
  ultimately show ?thesis by simp
qed

lemma watch_report:
  assumes "gs_pc t = WReport" "g_rebalanceCh (gs_group t)" "group_inv (gs_group t)"
  shows "\<exists>s'. gs_run fn cb t [None, None, None, None] = Some s' \<and> rebalanced fn t s'"
proof -
  obtain t' where t': "watchGroup_next fn cb t = Some t'" "gs_group t' = gs_group t" "gs_pc t' = WWait"
    using assms(1) by (simp add: watchGroup_next_def Let_def)
  have "\<exists>s'. gs_run fn cb t' [None, None, None] = Some s' \<and> rebalanced fn t s'"
    by (rule watch_receive) (use assms t' in simp_all)
  moreover have "gs_run fn cb t [None, None, None, None] = gs_run fn cb t' [None, None, None]"
    using t'(1) by simp
  ultimately show ?thesis by (simp only: simp_thms)
qed

lemma due_rebalance:
  assumes "reachable coord_init coord_step c" "gm_get (co_groups c) gid = Some s"
    "g_state (gs_group s) = PreRebalance"
  shows "\<exists>n s'. n \<le> 4 \<and> gs_run fn cb s (replicate n None) = Some s' \<and> rebalanced fn s s'"
proof -
  have inv: "group_inv (gs_group s)"
    and pend: "g_rebalanceCh (gs_group s) \<or> gs_pc s \<in> {WUpdate, WRebalance}"
    using reachable_group_inv [OF assms(1,2)] assms(3) by (simp_all add: gsys_inv_def)
  have runs: "\<exists>s'. gs_run fn cb s xs = Some s' \<and> rebalanced fn s s' \<Longrightarrow>
      xs = replicate n None \<Longrightarrow> n \<le> 4 \<Longrightarrow> ?thesis" for xs n
    by blast
  show ?thesis
  proof (cases "gs_pc s")
    case WWait
    with pend show ?thesis
      by (intro runs [OF watch_receive, of 3]) (simp_all add: inv numeral_3_eq_3)
  next
    case WUpdate
    then show ?thesis by (intro runs [OF watch_update, of 2]) (simp_all add: inv numeral_2_eq_2)
  next
    case WRebalance
    then show ?thesis by (intro runs [OF watch_rebalance, of 1]) (simp_all add: inv)
  next
    case WReport
    with pend show ?thesis
      by (intro runs [OF watch_report, of 4]) (simp_all add: inv numeral_eq_Suc)
  qed
qed

text \<open>
  C17: a rebalance that is due happens. From every reachable state in which a group waits for a
  rebalance, at most four steps of its watcher complete one.
\<close>

theorem due_rebalance_completes:
  assumes "reachable coord_init coord_step c" "gm_get (co_groups c) gid = Some s"
    "g_state (gs_group s) = PreRebalance"
  shows "\<exists>n s'. n \<le> 4 \<and> gs_run fn cb s (replicate n None) = Some s' \<and> rebalanced fn s s'"
  using due_rebalance [OF assms] .

section \<open>What the protocol does not guarantee\<close>

definition ex_c :: Coordinator where
  "ex_c = GetOrCreateGroup NewCoordinator ''g'' 1000"

definition ex_join :: Coordinator where
  "ex_join = on_group ex_c ''g'' (exec_op (OJoin 0 ''a'' [''t'']))"

lemma gm_put_put [simp]: "gm_put (gm_put m k v) k w = gm_put m k w"
  by (simp add: gm_put_def)

lemma gm_put_same: "gm_get m k = Some v \<Longrightarrow> gm_put m k v = m"
  by (simp add: gm_put_def gm_get_def AList.update_triv)

text \<open>A schedule of one group is a schedule of the coordinator.\<close>

lemma coord_run_steps:
  "gs_run fn (co_hasOnRebalance c) s xs = Some s' \<Longrightarrow> gm_get (co_groups c) gid = Some s \<Longrightarrow>
    coord_step\<^sup>*\<^sup>* c (c\<lparr>co_groups := gm_put (co_groups c) gid s'\<rparr>)"
proof (induction xs arbitrary: c s)
  case Nil
  then show ?case by (simp add: gm_put_same)
next
  case (Cons x xs)
  have "\<exists>s1. gs_run fn (co_hasOnRebalance c) s1 xs = Some s' \<and>
      coord_step c (c\<lparr>co_groups := gm_put (co_groups c) gid s1\<rparr>)"
  proof (cases x)
    case None
    then obtain s1 where "watchGroup_next fn (co_hasOnRebalance c) s = Some s1"
      "gs_run fn (co_hasOnRebalance c) s1 xs = Some s'"
      using Cons.prems(1) by (auto split: option.splits)
    then show ?thesis using coord_watch [OF Cons.prems(2)] by blast
  next
    case (Some op)
    have "coord_step c (c\<lparr>co_groups := gm_put (co_groups c) gid (s\<lparr>gs_group := exec_op op (gs_group s)\<rparr>)\<rparr>)"
      using coord_op [of c gid op] Cons.prems(2) by (simp add: on_group_def)
    then show ?thesis using Cons.prems(1) Some by auto
  qed
  then obtain s1 where s1: "gs_run fn (co_hasOnRebalance c) s1 xs = Some s'"
    "coord_step c (c\<lparr>co_groups := gm_put (co_groups c) gid s1\<rparr>)"
    by blast
  have "coord_step\<^sup>*\<^sup>* (c\<lparr>co_groups := gm_put (co_groups c) gid s1\<rparr>) (c\<lparr>co_groups := gm_put (co_groups c) gid s'\<rparr>)"
    using Cons.IH [of "c\<lparr>co_groups := gm_put (co_groups c) gid s1\<rparr>" s1] s1(1) by simp
  with s1(2) show ?case by (rule converse_rtranclp_into_rtranclp)
qed

lemmas coord_run_reach = reachable_steps [OF _ coord_run_steps]

lemma ex_c_reach: "reachable coord_init coord_step ex_c"
proof -
  have "reachable coord_init coord_step NewCoordinator"
    by (rule reach_init) (simp add: coord_init_def NewCoordinator_def)
  then show ?thesis unfolding ex_c_def using coord_create by (rule reach_step)
qed

text \<open>Every schedule of the example group from its creation is reachable.\<close>

lemma ex_run_reach:
  assumes "gs_run fn False (new_gsys ''g'' 1000000000) xs = Some s"
  shows "reachable coord_init coord_step (ex_c\<lparr>co_groups := gm_put (co_groups ex_c) ''g'' s\<rparr>)"
proof -
  have "gm_get (co_groups ex_c) ''g'' = Some (new_gsys ''g'' 1000000000)" "co_hasOnRebalance ex_c = False"
    by code_simp+
  with assms show ?thesis by (intro coord_run_reach [OF ex_c_reach]) simp_all
qed

definition ex_joined :: gsys where
  "ex_joined = \<lparr>gs_group = snd (Group_Join 0 (NewGroup ''g'' 1000000000) ''a'' [''t'']),
     gs_pc = WWait, gs_events = []\<rparr>"

definition ex_one :: gsys where
  "ex_one = \<lparr>gs_group = snd (Group_Rebalance ((snd (Group_Join 0 (NewGroup ''g'' 1000000000)
       ''a'' [''t'']))\<lparr>g_rebalanceCh := False, g_topicPartitions := [(''t'', 2)]\<rparr>)),
     gs_pc = WReport, gs_events = []\<rparr>"

lemma ex_joined_run:
  "gs_run (\<lambda>_. 2) False (new_gsys ''g'' 1000000000) [Some (OJoin 0 ''a'' [''t''])] = Some ex_joined"
  by code_simp

lemma ex_one_run:
  "gs_run (\<lambda>_. 2) False (new_gsys ''g'' 1000000000)
     [Some (OJoin 0 ''a'' [''t'']), None, None, None] = Some ex_one"
  by code_simp

theorem due_rebalance_completes_witness:
  "\<exists>n s'. n \<le> 4 \<and> gs_run (\<lambda>_. 2) False ex_joined (replicate n None) = Some s' \<and> rebalanced (\<lambda>_. 2) ex_joined s'"
proof -
  have "gm_get (co_groups (ex_c\<lparr>co_groups := gm_put (co_groups ex_c) ''g'' ex_joined\<rparr>)) ''g'' = Some ex_joined"
    by simp
  moreover have "g_state (gs_group ex_joined) = PreRebalance" by code_simp
  ultimately show ?thesis by (rule due_rebalance_completes [OF ex_run_reach [OF ex_joined_run]])
qed

theorem stable_member_can_sync_witness:
  "Group_Sync (gs_group ex_one) ''a'' 1 = Inr [0, 1]"
proof -
  have "GetGroup (ex_c\<lparr>co_groups := gm_put (co_groups ex_c) ''g'' ex_one\<rparr>) ''g'' = Some (gs_group ex_one)"
    by (simp add: GetGroup_def)
  moreover have "g_state (gs_group ex_one) = Stable" "''a'' \<in> set (memberIDs (gs_group ex_one))"
    "g_generation (gs_group ex_one) = 1" "slice_of (g_assignment (gs_group ex_one)) ''a'' = [0, 1]"
    by code_simp+
  ultimately show ?thesis
    using stable_member_can_sync [OF ex_run_reach [OF ex_one_run]] by metis
qed

text \<open>
  \<open>Heartbeat\<close> ignores the generation it is given. In a reachable state a member that still
  works with the partitions of generation 1 is told that no rebalance is needed, although the
  group is in generation 2 and one of its partitions has been given to another member.
\<close>

lemma heartbeat_hides_new_generation:
  "\<exists>s1 s2. reachable (\<lambda>s. \<exists>timeout. s = new_gsys ''g'' timeout) group_step s1 \<and> group_step\<^sup>*\<^sup>* s1 s2 \<and>
     Group_Sync (gs_group s1) ''a'' 1 = Inr [0, 1] \<and>
     Group_Sync (gs_group s2) ''b'' 2 = Inr [1] \<and>
     fst (Group_Heartbeat 2 (gs_group s2) ''a'' 1) = Inr False"
proof -
  let ?obs = "\<lambda>s. (Group_Sync (gs_group s) ''b'' 2, fst (Group_Heartbeat 2 (gs_group s) ''a'' 1))"
  have r1: "reachable (\<lambda>s. \<exists>timeout. s = new_gsys ''g'' timeout) group_step ex_one"
    by (rule reachable_steps [OF reach_init gs_run_steps [OF ex_one_run]]) blast
  have "map_option ?obs (gs_run (\<lambda>_. 2) False ex_one
      [None, Some (OJoin 1 ''b'' [''t'']), None, None, None]) = Some (Inr [1], Inr False)"
    by code_simp
  then obtain s2 where s2: "gs_run (\<lambda>_. 2) False ex_one
      [None, Some (OJoin 1 ''b'' [''t'']), None, None, None] = Some s2" "?obs s2 = (Inr [1], Inr False)"
    by (auto simp: map_option_eq_Some)
  have "Group_Sync (gs_group ex_one) ''a'' 1 = Inr [0, 1]" by code_simp
  with r1 gs_run_steps [OF s2(1)] s2(2) show ?thesis by blast
qed

text \<open>
  A group whose last member leaves becomes empty, but a group whose members all expire stays
  stable with no member.
\<close>

lemma expired_group_stays_stable:
  "g_members (Group_Leave (gs_group ex_one) ''a'') = [] \<and> g_state (Group_Leave (gs_group ex_one) ''a'') = Empty \<and>
   reachable (\<lambda>s. \<exists>timeout. s = new_gsys ''g'' timeout) group_step
     (ex_one\<lparr>gs_group := heartbeatWatcher_tick 2000000000 (gs_group ex_one)\<rparr>) \<and>
   g_members (heartbeatWatcher_tick 2000000000 (gs_group ex_one)) = [] \<and>
   g_state (heartbeatWatcher_tick 2000000000 (gs_group ex_one)) = Stable"
proof (intro conjI)
  have "reachable (\<lambda>s. \<exists>timeout. s = new_gsys ''g'' timeout) group_step ex_one"
    by (rule reachable_steps [OF reach_init gs_run_steps [OF ex_one_run]]) blast
  then show "reachable (\<lambda>s. \<exists>timeout. s = new_gsys ''g'' timeout) group_step
     (ex_one\<lparr>gs_group := heartbeatWatcher_tick 2000000000 (gs_group ex_one)\<rparr>)"
    using step_op [of ex_one "OTick 2000000000"] by (auto intro: reach_step)
qed code_simp+

lemma on_group_get:
  "gm_get (co_groups (on_group c gid f)) k =
     (if k = gid then map_option (\<lambda>s. s\<lparr>gs_group := f (gs_group s)\<rparr>) (gm_get (co_groups c) k)
      else gm_get (co_groups c) k)"
  by (auto simp: on_group_def split: option.splits)

lemma set_counts_get:
  "gid \<notin> set gids \<Longrightarrow> GetGroup (set_counts t n gids c) gid = GetGroup c gid"
  "gid \<in> set gids \<Longrightarrow> GetGroup (set_counts t n gids c) gid =
     map_option (\<lambda>g. SetTopicPartitionCount g t n) (GetGroup c gid)"
proof (induction t n gids c rule: set_counts.induct)
  case (2 t n gid' gids c)
  have twice: "SetTopicPartitionCount (SetTopicPartitionCount g t n) t n = SetTopicPartitionCount g t n" for g
    by (simp add: SetTopicPartitionCount_def)
  { case 1 then show ?case using "2.IH"(1) by (simp add: GetGroup_def on_group_get) }
  { case 2 then show ?case
      using "2.IH" by (cases "gid \<in> set gids"; cases "gid = gid'")
        (auto simp: GetGroup_def on_group_get option.map_comp o_def twice) }
qed simp_all

lemma SetTopicPartitions_GetGroup:
  "GetGroup (SetTopicPartitions c t n) gid = map_option (\<lambda>g. SetTopicPartitionCount g t n) (GetGroup c gid)"
proof (cases "gid \<in> set (gm_keys (co_groups c))")
  case True
  then show ?thesis by (simp add: SetTopicPartitions_def set_counts_get(2))
next
  case False
  then have "GetGroup c gid = None" by (simp add: gm.set_keys GetGroup_def)
  with False show ?thesis by (simp add: SetTopicPartitions_def set_counts_get(1))
qed

lemma allParts_contains:
  assumes "gm_wf tp" "gm_get tp t = Some n"
  shows "mset (map int [0..<nat n]) \<subseteq># mset (map pk_part (allParts tp))"
proof -
  have "(t, n) \<in> set tp" using assms by (simp add: gm_get_Some_iff)
  then obtain xs ys where "tp = xs @ (t, n) # ys" by (meson split_list)
  then show ?thesis unfolding mset_allParts by simp
qed

text \<open>
  Setting the partition count of a topic makes every group assign that topic, whether or not
  any member subscribed to it: after \<open>SetTopicPartitions\<close> the next rebalance of any reachable
  group with members hands out all the topic's partition ids.
\<close>

lemma unsubscribed_topic_assigned:
  assumes "reachable coord_init coord_step c" "GetGroup c gid = Some g" "g_members g \<noteq> []"
  shows "\<exists>g'. GetGroup (SetTopicPartitions c t n) gid = Some g' \<and>
    mset (map int [0..<nat n]) \<subseteq># (\<Sum>m\<leftarrow>memberIDs g. mset (slice_of (fst (Group_Rebalance g')) m))"
proof -
  let ?g = "SetTopicPartitionCount g t n"
  obtain s where s: "gm_get (co_groups c) gid = Some s" "g = gs_group s"
    using assms(2) by (auto simp: GetGroup_def)
  have inv: "group_inv ?g"
    using reachable_group_inv [OF assms(1) s(1)] s(2) by (simp add: gsys_inv_def SetTopicPartitionCount_inv)
  have m: "memberIDs ?g = memberIDs g" "g_members ?g \<noteq> []" "gm_get (g_topicPartitions ?g) t = Some n"
    using assms(3) by (simp_all add: SetTopicPartitionCount_def memberIDs_def)
  have "gm_wf (g_topicPartitions ?g)" using inv by (simp add: group_inv_def)
  from allParts_contains [OF this m(3)] rebalance_facts [OF inv m(2)]
  have "mset (map int [0..<nat n]) \<subseteq># (\<Sum>m\<leftarrow>memberIDs g. mset (slice_of (fst (Group_Rebalance ?g)) m))"
    by (simp only: m(1))
  then show ?thesis using assms(2) by (simp add: SetTopicPartitions_GetGroup)
qed

lemma unsubscribed_topic_assigned_witness:
  "mset [0, 1] \<subseteq># mset (slice_of (fst (Group_Rebalance
     (SetTopicPartitionCount (gs_group ex_joined) ''x'' 2))) ''a'')"
proof -
  let ?c = "ex_c\<lparr>co_groups := gm_put (co_groups ex_c) ''g'' ex_joined\<rparr>"
  have g: "GetGroup ?c ''g'' = Some (gs_group ex_joined)" by (simp add: GetGroup_def)
  have m: "g_members (gs_group ex_joined) \<noteq> []" "memberIDs (gs_group ex_joined) = [''a'']"
    "mset (map int [0..<nat 2]) = mset [0, 1]"
    by code_simp+
  from unsubscribed_topic_assigned [OF ex_run_reach [OF ex_joined_run] g m(1), of "''x''" 2]
  show ?thesis unfolding SetTopicPartitions_GetGroup g m by simp
qed

end
