(* ===== verification/Raft_Log.thy ===== *)
theory Raft_Log
  imports Go_Prelude
begin

text \<open>
  \<open>internal/raft/log.go\<close>: the replicated log. Slicing a Go slice out of range panics: such an
  operation returns \<open>None\<close>. The commands that entries carry are in \<open>Raft_Commands\<close>.
\<close>

type_synonym EntryType = string

definition EntryJoinGroup :: EntryType where "EntryJoinGroup = ''join_group''"
definition EntryLeaveGroup :: EntryType where "EntryLeaveGroup = ''leave_group''"
definition EntryAssignGroup :: EntryType where "EntryAssignGroup = ''assign_group''"
definition EntryNoop :: EntryType where "EntryNoop = ''noop''"

record LogEntry =
  le_Term :: int
  le_Index :: int
  le_Type :: EntryType
  le_Data :: bytes

definition zero_entry :: LogEntry where
  "zero_entry = \<lparr>le_Term = 0, le_Index = 0, le_Type = [], le_Data = []\<rparr>"

record RaftLog =
  rl_entries :: "LogEntry list"

definition newRaftLog :: RaftLog where
  "newRaftLog = \<lparr>rl_entries = [\<lparr>le_Term = 0, le_Index = 0, le_Type = EntryNoop, le_Data = []\<rparr>]\<rparr>"

definition Log_Append :: "RaftLog \<Rightarrow> LogEntry \<Rightarrow> RaftLog" where
  "Log_Append l e = l\<lparr>rl_entries := rl_entries l @ [e\<lparr>le_Index := int (length (rl_entries l))\<rparr>]\<rparr>"

fun append_indexed :: "int \<Rightarrow> int \<Rightarrow> LogEntry list \<Rightarrow> LogEntry list \<Rightarrow> LogEntry list" where
  "append_indexed prev i [] acc = acc"
| "append_indexed prev i (e # es) acc =
     append_indexed prev (i + 1) es (acc @ [e\<lparr>le_Index := prev + i + 1\<rparr>])"

definition Log_AppendEntries :: "RaftLog \<Rightarrow> int \<Rightarrow> LogEntry list \<Rightarrow> (bool \<times> RaftLog) option" where
  "Log_AppendEntries l prevIndex es =
     (if prevIndex \<ge> int (length (rl_entries l)) then Some (False, l)
      else if prevIndex + 1 < 0 then None
      else Some (True,
        l\<lparr>rl_entries := append_indexed prevIndex 0 es (take (nat (prevIndex + 1)) (rl_entries l))\<rparr>))"

definition Log_Entry :: "RaftLog \<Rightarrow> int \<Rightarrow> LogEntry \<times> bool" where
  "Log_Entry l index =
     (if index < 0 \<or> index \<ge> int (length (rl_entries l)) then (zero_entry, False)
      else (rl_entries l ! nat index, True))"

definition LastIndex :: "RaftLog \<Rightarrow> int" where
  "LastIndex l = int (length (rl_entries l)) - 1"

definition LastTerm :: "RaftLog \<Rightarrow> int option" where
  "LastTerm l = (if rl_entries l = [] then None else Some (le_Term (last (rl_entries l))))"

definition EntriesFrom :: "RaftLog \<Rightarrow> int \<Rightarrow> LogEntry list option" where
  "EntriesFrom l index =
     (if index \<ge> int (length (rl_entries l)) then Some []
      else if index < 0 then None
      else Some (drop (nat index) (rl_entries l)))"

section \<open>Well-formed logs\<close>

text \<open>Entry \<open>i\<close> carries index \<open>i\<close>, and the sentinel is there.\<close>

definition log_wf :: "RaftLog \<Rightarrow> bool" where
  "log_wf l \<longleftrightarrow> rl_entries l \<noteq> [] \<and>
     map le_Index (rl_entries l) = map int [0..<length (rl_entries l)]"

lemma append_indexed_eq:
  "append_indexed prev i es acc =
     acc @ map (\<lambda>(k, e). e\<lparr>le_Index := prev + i + int k + 1\<rparr>) (zip [0..<length es] es)"
proof (induction prev i es acc rule: append_indexed.induct)
  case (2 prev i e es acc)
  have "[0..<length (e # es)] = 0 # map Suc [0..<length es]"
    by (simp add: map_Suc_upt upt_conv_Cons del: upt_Suc)
  then show ?case
    using 2 by (simp add: zip_map1 o_def case_prod_unfold ac_simps del: upt_Suc)
qed simp

lemma length_append_indexed [simp]: "length (append_indexed prev i es acc) = length acc + length es"
  by (simp add: append_indexed_eq)

lemma map_Index_append_indexed:
  "map le_Index (append_indexed prev i es acc) =
     map le_Index acc @ map (\<lambda>k. prev + i + int k + 1) [0..<length es]"
proof (rule nth_equalityI)
  fix k assume "k < length (map le_Index (append_indexed prev i es acc))"
  then show "map le_Index (append_indexed prev i es acc) ! k =
      (map le_Index acc @ map (\<lambda>k. prev + i + int k + 1) [0..<length es]) ! k"
    by (cases "k < length acc") (auto simp: append_indexed_eq nth_append not_less)
qed simp

lemma newRaftLog_wf [simp]: "log_wf newRaftLog"
  by (simp add: log_wf_def newRaftLog_def)

lemma Log_Append_wf: "log_wf l \<Longrightarrow> log_wf (Log_Append l e)"
  by (simp add: log_wf_def Log_Append_def)

lemma Log_AppendEntries_wf:
  assumes "log_wf l" "0 \<le> prev" "Log_AppendEntries l prev es = Some (ok, l')"
  shows "log_wf l'"
proof (cases "prev < int (length (rl_entries l))")
  case True
  define n where "n = nat (prev + 1)"
  have n: "prev = int n - 1" "0 < n" "n \<le> length (rl_entries l)"
    using True assms(2) by (simp_all add: n_def)
  have l': "rl_entries l' = append_indexed prev 0 es (take n (rl_entries l))"
    using assms(2,3) True by (auto simp: Log_AppendEntries_def n_def)
  have "map le_Index (take n (rl_entries l)) = map int [0..<n]"
    using assms(1) n(3) by (simp add: log_wf_def take_map [symmetric]) (simp add: take_map)
  moreover have "map (\<lambda>k. prev + 0 + int k + 1) [0..<length es] = map int [n..<n + length es]"
    by (rule nth_equalityI) (simp_all add: n(1))
  ultimately have m: "map le_Index (rl_entries l') = map int ([0..<n] @ [n..<n + length es])"
    unfolding l' map_Index_append_indexed map_append by (simp only:)
  have u: "[0..<n] @ [n..<n + length es] = [0..<n + length es]"
    using upt_add_eq_append [of 0 n "length es"] by simp
  have len: "length (rl_entries l') = n + length es" using n(3) by (simp add: l')
  have "map le_Index (rl_entries l') = map int [0..<length (rl_entries l')]"
    by (simp only: m u len)
  moreover have "rl_entries l' \<noteq> []" using len n(2) by (cases "rl_entries l'") simp_all
  ultimately show ?thesis unfolding log_wf_def by blast
next
  case False
  with assms show ?thesis by (simp add: Log_AppendEntries_def)
qed

lemma Entry_Index: "log_wf l \<Longrightarrow> Log_Entry l i = (e, True) \<Longrightarrow> le_Index e = i"
proof -
  assume wf: "log_wf l" and e: "Log_Entry l i = (e, True)"
  then have i: "nat i < length (rl_entries l)" "0 \<le> i" "e = rl_entries l ! nat i"
    by (auto simp: Log_Entry_def split: if_splits)
  have "map le_Index (rl_entries l) ! nat i = map int [0..<length (rl_entries l)] ! nat i"
    using wf by (simp add: log_wf_def)
  then show "le_Index e = i" using i by simp
qed

lemma Entry_Append_old:
  "i \<le> LastIndex l \<Longrightarrow> Log_Entry (Log_Append l e) i = Log_Entry l i"
  by (auto simp: Log_Entry_def Log_Append_def LastIndex_def nth_append)

lemma Entry_Append_new:
  "Log_Entry (Log_Append l e) (LastIndex l + 1) = (e\<lparr>le_Index := LastIndex l + 1\<rparr>, True)"
  by (simp add: Log_Entry_def Log_Append_def LastIndex_def)

lemma LastIndex_Append [simp]: "LastIndex (Log_Append l e) = LastIndex l + 1"
  by (simp add: LastIndex_def Log_Append_def)

section \<open>Shipping a suffix\<close>

lemma append_indexed_same:
  assumes "map le_Index es = map (\<lambda>k. prev + i + int k + 1) [0..<length es]"
  shows "append_indexed prev i es acc = acc @ es"
proof -
  have "map (\<lambda>(k, e). e\<lparr>le_Index := prev + i + int k + 1\<rparr>) (zip [0..<length es] es) = es"
  proof (rule nth_equalityI)
    fix k assume "k < length (map (\<lambda>(k, e). e\<lparr>le_Index := prev + i + int k + 1\<rparr>) (zip [0..<length es] es))"
    then have k: "k < length es" by simp
    have "le_Index (es ! k) = prev + i + int k + 1"
      using arg_cong [OF assms, of "\<lambda>xs. xs ! k"] k by simp
    then show "map (\<lambda>(k, e). e\<lparr>le_Index := prev + i + int k + 1\<rparr>) (zip [0..<length es] es) ! k = es ! k"
      using k by simp
  qed simp
  then show ?thesis by (simp add: append_indexed_eq)
qed

text \<open>
  If a follower's log agrees with the leader's up to \<open>next - 1\<close>, shipping the leader's entries
  from \<open>next\<close> on makes the logs equal.
\<close>

lemma shipping_core:
  assumes "log_wf leader" "1 \<le> next" "next \<le> LastIndex leader + 1"
    "take (nat next) (rl_entries follower) = take (nat next) (rl_entries leader)"
  shows "\<exists>es. EntriesFrom leader next = Some es \<and>
    Log_AppendEntries follower (next - 1) es = Some (True, leader)"
proof -
  define n where "n = nat next"
  let ?L = "rl_entries leader"
  have n: "next = int n" "0 < n" "n \<le> length ?L"
    using assms(2,3) by (simp_all add: n_def LastIndex_def)
  have es: "EntriesFrom leader next = Some (drop n ?L)"
    using n by (simp add: EntriesFrom_def)
  have len: "n \<le> length (rl_entries follower)"
    using arg_cong [OF assms(4), of length] n by (simp add: n_def [symmetric])
  have "map le_Index (drop n ?L) = map (\<lambda>k. (next - 1) + 0 + int k + 1) [0..<length (drop n ?L)]"
  proof -
    have "map le_Index (drop n ?L) = map int [n..<length ?L]"
      using assms(1) by (simp add: log_wf_def drop_map [symmetric]) (simp add: drop_map)
    also have "\<dots> = map (\<lambda>k. (next - 1) + 0 + int k + 1) [0..<length (drop n ?L)]"
      by (rule nth_equalityI) (simp_all add: n(1))
    finally show ?thesis .
  qed
  from append_indexed_same [OF this]
  have "append_indexed (next - 1) 0 (drop n ?L) (take n (rl_entries follower)) = ?L"
    using assms(4) by (simp add: n_def [symmetric])
  then have "Log_AppendEntries follower (next - 1) (drop n ?L) = Some (True, leader)"
    using n len by (simp add: Log_AppendEntries_def)
  with es show ?thesis by blast
qed

end
