(* ===== verification/Go_Json.thy ===== *)
theory Go_Json
  imports Go_Prelude "HOL-Library.List_Lexorder" "HOL-Library.Char_ord"
begin

text \<open>
  The part of Go's \<open>encoding/json\<close> that the commands of \<open>internal/raft/log.go\<close> and the events of
  \<open>internal/transport/ws_server.go\<close> go through: the text \<open>json.Marshal\<close> prints, the syntax check
  and the values \<open>json.Unmarshal\<close> reads. A text is a \<open>string\<close> of bytes. Printing is a function on
  \<open>json\<close> values; reading is a scanner that cuts the text into tokens, and a stack machine like the
  one of the package that runs on the tokens, without recursion on the nesting.
\<close>

section \<open>UTF-8\<close>

definition byte_val :: "char \<Rightarrow> nat" where
  "byte_val c = of_char c"

definition is_cont :: "char \<Rightarrow> bool" where
  "is_cont c \<longleftrightarrow> 128 \<le> byte_val c \<and> byte_val c < 192"

text \<open>
  The length of the encoded rune a text begins with, as \<open>utf8.DecodeRune\<close> accepts it; 0 where it
  answers \<open>RuneError\<close> of width 1.
\<close>

definition seq2 :: "char \<Rightarrow> char \<Rightarrow> bool" where
  "seq2 a b \<longleftrightarrow> 194 \<le> byte_val a \<and> byte_val a < 224 \<and> is_cont b"

definition seq3 :: "char \<Rightarrow> char \<Rightarrow> char \<Rightarrow> bool" where
  "seq3 a b c \<longleftrightarrow> 224 \<le> byte_val a \<and> byte_val a < 240 \<and> is_cont b \<and> is_cont c \<and>
     (byte_val a = 224 \<longrightarrow> 160 \<le> byte_val b) \<and> (byte_val a = 237 \<longrightarrow> byte_val b < 160)"

definition seq4 :: "char \<Rightarrow> char \<Rightarrow> char \<Rightarrow> char \<Rightarrow> bool" where
  "seq4 a b c d \<longleftrightarrow> 240 \<le> byte_val a \<and> byte_val a < 245 \<and> is_cont b \<and> is_cont c \<and> is_cont d \<and>
     (byte_val a = 240 \<longrightarrow> 144 \<le> byte_val b) \<and> (byte_val a = 244 \<longrightarrow> byte_val b < 144)"

definition rune_len :: "string \<Rightarrow> nat" where
  "rune_len s =
     (case s of
        [] \<Rightarrow> 0
      | a # r \<Rightarrow>
          if byte_val a < 128 then 1
          else if 2 \<le> length s \<and> seq2 a (s ! 1) then 2
          else if 3 \<le> length s \<and> seq3 a (s ! 1) (s ! 2) then 3
          else if 4 \<le> length s \<and> seq4 a (s ! 1) (s ! 2) (s ! 3) then 4
          else 0)"

text \<open>\<open>utf8.AppendRune\<close> of a byte_val point that is not a surrogate.\<close>

definition encode_rune :: "nat \<Rightarrow> string" where
  "encode_rune n =
     map char_of
       (if n < 128 then [n]
        else if n < 2048 then [192 + n div 64, 128 + n mod 64]
        else if n < 65536 then [224 + n div 4096, 128 + n div 64 mod 64, 128 + n mod 64]
        else [240 + n div 262144, 128 + n div 4096 mod 64, 128 + n div 64 mod 64, 128 + n mod 64])"

definition rune_error :: string where
  "rune_error = encode_rune 65533"

fun valid_utf8 :: "string \<Rightarrow> bool" where
  "valid_utf8 [] = True"
| "valid_utf8 (c # s) =
     (let n = rune_len (c # s) in 0 < n \<and> valid_utf8 (drop (n - 1) s))"

text \<open>What a string is after every byte outside a valid encoding has become \<open>RuneError\<close>.\<close>

fun sanitize :: "string \<Rightarrow> string" where
  "sanitize [] = []"
| "sanitize (c # s) =
     (let n = rune_len (c # s) in
      if n = 0 then rune_error @ sanitize s
      else c # take (n - 1) s @ sanitize (drop (n - 1) s))"

lemma sanitize_valid: "valid_utf8 s \<Longrightarrow> sanitize s = s"
  by (induction s rule: sanitize.induct) (auto simp: Let_def)

section \<open>Printing\<close>

definition hex_digit :: "nat \<Rightarrow> char" where
  "hex_digit n = (if n < 10 then char_of (48 + n) else char_of (87 + n))"

definition hex_escape :: "nat \<Rightarrow> string" where
  "hex_escape n = [CHR 0x5C, CHR ''u'', hex_digit (n div 4096), hex_digit (n div 256 mod 16),
     hex_digit (n div 16 mod 16), hex_digit (n mod 16)]"

text \<open>A byte below 128, in a string, with the HTML escapes that \<open>Marshal\<close> uses.\<close>

definition escape_ascii :: "char \<Rightarrow> string" where
  "escape_ascii c =
     (if c = CHR 0x22 \<or> c = CHR 0x5C then [CHR 0x5C, c]
      else if c = CHR 0x08 then [CHR 0x5C, CHR ''b'']
      else if c = CHR 0x0C then [CHR 0x5C, CHR ''f'']
      else if c = CHR 0x0A then [CHR 0x5C, CHR ''n'']
      else if c = CHR 0x0D then [CHR 0x5C, CHR ''r'']
      else if c = CHR 0x09 then [CHR 0x5C, CHR ''t'']
      else if byte_val c < 32 \<or> c = CHR ''<'' \<or> c = CHR ''>'' \<or> c = CHR ''&'' then hex_escape (byte_val c)
      else [c])"

definition is_line_sep :: "string \<Rightarrow> bool" where
  "is_line_sep s \<longleftrightarrow> take 3 s = encode_rune 8232 \<or> take 3 s = encode_rune 8233"

fun escape :: "string \<Rightarrow> string" where
  "escape [] = []"
| "escape (c # s) =
     (let n = rune_len (c # s) in
      if byte_val c < 128 then escape_ascii c @ escape s
      else if n = 0 then hex_escape 65533 @ escape s
      else if is_line_sep (c # s) then hex_escape (8224 + byte_val (s ! 1) mod 16) @ escape (drop 2 s)
      else c # take (n - 1) s @ escape (drop (n - 1) s))"

definition quote :: "string \<Rightarrow> string" where
  "quote s = CHR 0x22 # escape s @ [CHR 0x22]"

text \<open>
  A JSON value. A number is its literal; the members of an object are in the order of the text.
\<close>

datatype json =
    JNull
  | JBool bool
  | JNum string
  | JStr string
  | JArr "json list"
  | JObj "(string \<times> json) list"

definition JInt :: "int \<Rightarrow> json" where
  "JInt i = JNum (fmt_d i)"

fun joined :: "'a \<Rightarrow> 'a list list \<Rightarrow> 'a list" where
  "joined c [] = []"
| "joined c [x] = x"
| "joined c (x # y # zs) = x @ c # joined c (y # zs)"

fun print_json :: "json \<Rightarrow> string" where
  "print_json JNull = ''null''"
| "print_json (JBool b) = (if b then ''true'' else ''false'')"
| "print_json (JNum n) = n"
| "print_json (JStr s) = quote s"
| "print_json (JArr vs) = ''['' @ joined (CHR '','') (map print_json vs) @ '']''"
| "print_json (JObj kvs) =
     ''{'' @ joined (CHR '','') (map (\<lambda>(k, v). quote k @ '':'' @ print_json v) kvs) @ ''}''"

section \<open>Reading strings\<close>

definition hex_value :: "char \<Rightarrow> nat option" where
  "hex_value c =
     (if 48 \<le> byte_val c \<and> byte_val c \<le> 57 then Some (byte_val c - 48)
      else if 97 \<le> byte_val c \<and> byte_val c \<le> 102 then Some (byte_val c - 87)
      else if 65 \<le> byte_val c \<and> byte_val c \<le> 70 then Some (byte_val c - 55)
      else None)"

definition hex4 :: "string \<Rightarrow> nat option" where
  "hex4 s =
     (if length s < 4 then None
      else case (hex_value (s ! 0), hex_value (s ! 1), hex_value (s ! 2), hex_value (s ! 3)) of
        (Some a, Some b, Some c, Some d) \<Rightarrow> Some (4096 * a + 256 * b + 16 * c + d)
      | _ \<Rightarrow> None)"

text \<open>\<open>getu4\<close>: the byte_val unit of an escape at the front, if there is one.\<close>

definition getu4 :: "string \<Rightarrow> nat option" where
  "getu4 s = (case s of a # b # r \<Rightarrow> if a = CHR 0x5C \<and> b = CHR ''u'' then hex4 r else None | _ \<Rightarrow> None)"

definition simple_escape :: "char \<Rightarrow> char option" where
  "simple_escape c =
     (if c = CHR 0x22 \<or> c = CHR 0x5C \<or> c = CHR ''/'' then Some c
      else if c = CHR ''b'' then Some (CHR 0x08)
      else if c = CHR ''f'' then Some (CHR 0x0C)
      else if c = CHR ''n'' then Some (CHR 0x0A)
      else if c = CHR ''r'' then Some (CHR 0x0D)
      else if c = CHR ''t'' then Some (CHR 0x09)
      else None)"

text \<open>
  A byte_val unit, read with what follows it: the text it stands for and how much of the text that
  follows it uses up, a second escape where the two are a surrogate pair.
\<close>

definition unit_text :: "nat \<Rightarrow> string \<Rightarrow> string \<times> nat" where
  "unit_text u r =
     (if u < 55296 \<or> 57344 \<le> u then (encode_rune u, 0)
      else case getu4 r of
        None \<Rightarrow> (rune_error, 0)
      | Some v \<Rightarrow>
          if u < 56320 \<and> 56320 \<le> v \<and> v < 57344
          then (encode_rune (65536 + (u - 55296) * 1024 + (v - 56320)), 6)
          else (rune_error, 0))"

text \<open>The string whose text follows an opening quote, and what is left after the closing one.\<close>

fun scan_string :: "string \<Rightarrow> (string \<times> string) option" where
  "scan_string [] = None"
| "scan_string (c # s) =
     (if c = CHR 0x22 then Some ([], s)
      else if byte_val c < 32 then None
      else if c = CHR 0x5C then
        (case s of
           [] \<Rightarrow> None
         | e # r \<Rightarrow>
             if e = CHR ''u'' then
               (case hex4 r of
                  None \<Rightarrow> None
                | Some u \<Rightarrow>
                    let (t, k) = unit_text u (drop 4 r) in
                    map_option (apfst ((@) t)) (scan_string (drop (4 + k) r)))
             else (case simple_escape e of
                 None \<Rightarrow> None
               | Some d \<Rightarrow> map_option (apfst ((#) d)) (scan_string r)))
      else let n = rune_len (c # s) in
        if n = 0 then map_option (apfst ((@) rune_error)) (scan_string s)
        else map_option (apfst ((@) (c # take (n - 1) s))) (scan_string (drop (n - 1) s)))"

declare scan_string.simps(2) [simp del] escape.simps(2) [simp del] sanitize.simps(2) [simp del]
  valid_utf8.simps(2) [simp del]

lemma scan_string_tail:
  assumes "scan_string (c # s) = Some (t, r)"
  shows "r = s \<or> (\<exists>k x. scan_string (drop k s) = Some (x, r))"
  using assms
  by (auto simp: scan_string.simps(2) Let_def apfst_def map_prod_def
      split: if_splits option.splits list.splits prod.splits) (metis drop0 drop_Suc_Cons)+

lemma scan_string_shorter: "scan_string s = Some (t, r) \<Longrightarrow> length r < length s"
proof (induction s arbitrary: t rule: length_induct)
  case (1 s)
  then obtain c z where s: "s = c # z" by (cases s) auto
  from scan_string_tail [OF 1(2) [unfolded s]] show ?case
  proof
    assume "\<exists>k x. scan_string (drop k z) = Some (x, r)"
    then obtain k x where k: "scan_string (drop k z) = Some (x, r)" by blast
    have "length (drop k z) < length s" by (simp add: s)
    with 1(1) k have "length r < length (drop k z)" by blast
    then show ?thesis by (simp add: s)
  qed (simp add: s)
qed

section \<open>Reading numbers\<close>

definition is_digit :: "char \<Rightarrow> bool" where
  "is_digit c \<longleftrightarrow> 48 \<le> byte_val c \<and> byte_val c \<le> 57"

definition is_number_char :: "char \<Rightarrow> bool" where
  "is_number_char c \<longleftrightarrow> is_digit c \<or> c \<in> {CHR ''-'', CHR ''+'', CHR ''.'', CHR ''e'', CHR ''E''}"

definition digits1 :: "string \<Rightarrow> bool" where
  "digits1 s \<longleftrightarrow> s \<noteq> [] \<and> list_all is_digit s"

text \<open>The grammar of a number: sign, integer part, fraction, exponent.\<close>

definition int_part :: "string \<Rightarrow> bool" where
  "int_part s \<longleftrightarrow> digits1 s \<and> (hd s = CHR ''0'' \<longrightarrow> tl s = [])"

definition exponent :: "string \<Rightarrow> bool" where
  "exponent s =
     (case s of
        [] \<Rightarrow> True
      | e # r \<Rightarrow> (e = CHR ''e'' \<or> e = CHR ''E'') \<and>
          digits1 (case r of [] \<Rightarrow> [] | g # r' \<Rightarrow> if g = CHR ''+'' \<or> g = CHR ''-'' then r' else r))"

definition fraction :: "string \<Rightarrow> bool" where
  "fraction s =
     (case s of
        [] \<Rightarrow> True
      | d # r \<Rightarrow>
          if d = CHR ''.'' then digits1 (takeWhile is_digit r) \<and> exponent (dropWhile is_digit r)
          else exponent s)"

definition unsigned :: "string \<Rightarrow> string" where
  "unsigned s = (case s of [] \<Rightarrow> [] | c # r \<Rightarrow> if c = CHR ''-'' then r else s)"

definition number_literal :: "string \<Rightarrow> bool" where
  "number_literal s \<longleftrightarrow>
     int_part (takeWhile is_digit (unsigned s)) \<and> fraction (dropWhile is_digit (unsigned s))"

section \<open>Tokens\<close>

datatype token =
    TOpenObj | TCloseObj | TOpenArr | TCloseArr | TColon | TComma
  | TNull | TBool bool | TNum string | TStr string

definition is_space :: "char \<Rightarrow> bool" where
  "is_space c \<longleftrightarrow> byte_val c \<in> {32, 9, 10, 13}"

definition punctuation :: "char \<Rightarrow> token option" where
  "punctuation c =
     (if c = CHR ''{'' then Some TOpenObj else if c = CHR ''}'' then Some TCloseObj
      else if c = CHR ''['' then Some TOpenArr else if c = CHR '']'' then Some TCloseArr
      else if c = CHR '':'' then Some TColon else if c = CHR '','' then Some TComma
      else None)"

text \<open>The token a text begins with that is no string and no punctuation, and the number of its bytes.\<close>

definition word_token :: "string \<Rightarrow> (token \<times> nat) option" where
  "word_token s =
     (if take 4 s = ''null'' then Some (TNull, 4)
      else if take 4 s = ''true'' then Some (TBool True, 4)
      else if take 5 s = ''false'' then Some (TBool False, 5)
      else let n = takeWhile is_number_char s in
        if number_literal n then Some (TNum n, length n) else None)"

function tokens :: "string \<Rightarrow> token list option" where
  "tokens [] = Some []"
| "tokens (c # s) =
     (if is_space c then tokens s
      else case punctuation c of
        Some t \<Rightarrow> map_option ((#) t) (tokens s)
      | None \<Rightarrow>
          if c = CHR 0x22 then
            (case scan_string s of
               None \<Rightarrow> None
             | Some (x, r) \<Rightarrow> map_option ((#) (TStr x)) (tokens r))
          else (case word_token (c # s) of
              None \<Rightarrow> None
            | Some (t, n) \<Rightarrow> map_option ((#) t) (tokens (drop (n - 1) s))))"
  by pat_completeness auto
termination
  by (relation "measure length") (auto dest: scan_string_shorter)

declare tokens.simps(2) [simp del]

section \<open>The stack machine\<close>

text \<open>
  What the machine has open: an array with its elements so far, or an object with its members so
  far and the key whose value comes next. The modes are the parse states of the package's scanner:
  a value (\<open>True\<close> where an array may end instead), a key, a colon, a separator, or the end.
\<close>

datatype frame = FArr "json list" | FObj "(string \<times> json) list" string

datatype mode = MValue bool | MKey bool | MColon | MNext | MDone json

fun give :: "json \<Rightarrow> frame list \<Rightarrow> mode \<times> frame list" where
  "give v [] = (MDone v, [])"
| "give v (FArr vs # st) = (MNext, FArr (vs @ [v]) # st)"
| "give v (FObj kvs k # st) = (MNext, FObj (kvs @ [(k, v)]) [] # st)"

definition maxNestingDepth :: nat where
  "maxNestingDepth = 10000"

fun parse_step :: "mode \<times> frame list \<Rightarrow> token \<Rightarrow> (mode \<times> frame list) option" where
  "parse_step (MValue close, st) t =
     (case t of
        TNull \<Rightarrow> Some (give JNull st)
      | TBool b \<Rightarrow> Some (give (JBool b) st)
      | TNum n \<Rightarrow> Some (give (JNum n) st)
      | TStr s \<Rightarrow> Some (give (JStr s) st)
      | TOpenArr \<Rightarrow> if length st < maxNestingDepth then Some (MValue True, FArr [] # st) else None
      | TOpenObj \<Rightarrow> if length st < maxNestingDepth then Some (MKey True, FObj [] [] # st) else None
      | TCloseArr \<Rightarrow>
          (case st of FArr vs # st' \<Rightarrow> if close then Some (give (JArr vs) st') else None | _ \<Rightarrow> None)
      | _ \<Rightarrow> None)"
| "parse_step (MKey close, st) t =
     (case (t, st) of
        (TStr k, FObj kvs _ # st') \<Rightarrow> Some (MColon, FObj kvs k # st')
      | (TCloseObj, FObj kvs _ # st') \<Rightarrow> if close then Some (give (JObj kvs) st') else None
      | _ \<Rightarrow> None)"
| "parse_step (MColon, st) t = (if t = TColon then Some (MValue False, st) else None)"
| "parse_step (MNext, st) t =
     (case (t, st) of
        (TComma, FArr _ # _) \<Rightarrow> Some (MValue False, st)
      | (TComma, FObj _ _ # _) \<Rightarrow> Some (MKey False, st)
      | (TCloseArr, FArr vs # st') \<Rightarrow> Some (give (JArr vs) st')
      | (TCloseObj, FObj kvs _ # st') \<Rightarrow> Some (give (JObj kvs) st')
      | _ \<Rightarrow> None)"
| "parse_step (MDone v, st) t = None"

fun parse_tokens :: "mode \<times> frame list \<Rightarrow> token list \<Rightarrow> json option" where
  "parse_tokens c [] = (case fst c of MDone v \<Rightarrow> Some v | _ \<Rightarrow> None)"
| "parse_tokens c (t # ts) = (case parse_step c t of None \<Rightarrow> None | Some c' \<Rightarrow> parse_tokens c' ts)"

definition parse_json :: "string \<Rightarrow> json option" where
  "parse_json s = (case tokens s of None \<Rightarrow> None | Some ts \<Rightarrow> parse_tokens (MValue False, []) ts)"

section \<open>Strings are read back\<close>

lemma byte_val_inject [simp]: "byte_val c = byte_val d \<longleftrightarrow> c = d"
  by (simp add: byte_val_def)

lemma byte_val_char_of [simp]: "n < 256 \<Longrightarrow> byte_val (char_of n) = n"
  by (simp add: byte_val_def of_char_of)

lemma char_of_byte_val [simp]: "char_of (byte_val c) = c"
  by (simp add: byte_val_def)

lemma byte_val_less: "byte_val c < 256"
  by (cases c) (simp add: byte_val_def)

lemma append_single [simp]: "(@) [c] = (#) c"
  by (simp add: fun_eq_iff)

lemma hex_value_digit [simp]: "n < 16 \<Longrightarrow> hex_value (hex_digit n) = Some n"
  by (auto simp: hex_value_def hex_digit_def)

lemma hex_digits_sum:
  "4096 * (n div 4096) + 256 * (n div 256 mod 16) + 16 * (n div 16 mod 16) + n mod 16 = (n::nat)"
proof -
  have d: "n div 256 = n div 16 div 16" "n div 4096 = n div 16 div 16 div 16"
    by (simp_all add: div_mult2_eq [symmetric])
  show ?thesis
    unfolding d
    using mult_div_mod_eq [of 16 n] mult_div_mod_eq [of 16 "n div 16"]
      mult_div_mod_eq [of 16 "n div 16 div 16"] by linarith
qed

lemma hex4_digits:
  assumes "n < 65536"
  shows "hex4 (hex_digit (n div 4096) # hex_digit (n div 256 mod 16) # hex_digit (n div 16 mod 16) #
    hex_digit (n mod 16) # z) = Some n"
proof -
  have "n div 4096 < 16" using assms by simp
  then show ?thesis using hex_digits_sum [of n] by (simp add: hex4_def)
qed

lemma scan_string_u:
  "hex4 r = Some u \<Longrightarrow> unit_text u (drop 4 r) = (t, k) \<Longrightarrow>
     scan_string (CHR 0x5C # CHR ''u'' # r) = map_option (apfst ((@) t)) (scan_string (drop (4 + k) r))"
  by (simp add: scan_string.simps(2) byte_val_def)

lemma scan_hex_escape:
  assumes "n < 65536" "unit_text n z = (t, k)"
  shows "scan_string (hex_escape n @ z) = map_option (apfst ((@) t)) (scan_string (drop k z))"
proof -
  have "drop (4 + k) (hex_digit (n div 4096) # hex_digit (n div 256 mod 16) #
      hex_digit (n div 16 mod 16) # hex_digit (n mod 16) # z) = drop k z"
    by (simp add: add.commute [of 4] drop_drop [symmetric] del: drop_drop)
  with scan_string_u [OF hex4_digits [OF assms(1), of z], of t k] assms(2) show ?thesis
    by (simp add: hex_escape_def)
qed

lemma scan_hex_escape_plain:
  "n < 55296 \<or> 57344 \<le> n \<and> n < 65536 \<Longrightarrow>
     scan_string (hex_escape n @ z) = map_option (apfst ((@) (encode_rune n))) (scan_string z)"
  using scan_hex_escape [of n z "encode_rune n" 0] by (auto simp: unit_text_def)

lemma scan_string_plain:
  "byte_val c < 128 \<Longrightarrow> \<not> byte_val c < 32 \<Longrightarrow> c \<noteq> CHR 0x22 \<Longrightarrow> c \<noteq> CHR 0x5C \<Longrightarrow>
     scan_string (c # z) = map_option (apfst ((#) c)) (scan_string z)"
  by (simp add: scan_string.simps(2) rune_len_def)

lemma scan_string_simple:
  "d \<noteq> CHR ''u'' \<Longrightarrow> simple_escape d = Some c \<Longrightarrow>
     scan_string (CHR 0x5C # d # z) = map_option (apfst ((#) c)) (scan_string z)"
  by (simp add: scan_string.simps(2) byte_val_def)

lemma escape_ascii_cases:
  "escape_ascii c = hex_escape (byte_val c) \<or>
   escape_ascii c = [c] \<and> c \<noteq> CHR 0x22 \<and> c \<noteq> CHR 0x5C \<and> \<not> byte_val c < 32 \<or>
   (\<exists>d. escape_ascii c = [CHR 0x5C, d] \<and> d \<noteq> CHR ''u'' \<and> simple_escape d = Some c)"
  unfolding escape_ascii_def by (auto simp: simple_escape_def)

lemma scan_escape_ascii:
  assumes "byte_val c < 128"
  shows "scan_string (escape_ascii c @ z) = map_option (apfst ((#) c)) (scan_string z)"
  using escape_ascii_cases [of c]
proof (elim disjE exE conjE)
  assume "escape_ascii c = hex_escape (byte_val c)"
  then show ?thesis using assms by (simp add: scan_hex_escape_plain encode_rune_def)
qed (simp_all add: assms scan_string_plain scan_string_simple)

lemma rune_len_cases:
  "rune_len s = 0 \<or>
   (\<exists>a r. s = a # r \<and> byte_val a < 128 \<and> rune_len s = 1) \<or>
   (\<exists>a b r. s = a # b # r \<and> seq2 a b \<and> rune_len s = 2) \<or>
   (\<exists>a b c r. s = a # b # c # r \<and> seq3 a b c \<and> rune_len s = 3) \<or>
   (\<exists>a b c d r. s = a # b # c # d # r \<and> seq4 a b c d \<and> rune_len s = 4)"
proof (cases s)
  case (Cons a r)
  then show ?thesis
    by (cases r; cases "tl r"; cases "tl (tl r)") (auto simp: rune_len_def)
qed (simp add: rune_len_def)

lemma rune_len_ascii [simp]: "byte_val a < 128 \<Longrightarrow> rune_len (a # r) = 1"
  by (simp add: rune_len_def)

lemma rune_len_seq2 [simp]: "seq2 a b \<Longrightarrow> rune_len (a # b # r) = 2"
  by (simp add: rune_len_def seq2_def)

lemma rune_len_seq3 [simp]: "seq3 a b c \<Longrightarrow> rune_len (a # b # c # r) = 3"
  by (simp add: rune_len_def seq2_def seq3_def)

lemma rune_len_seq4 [simp]: "seq4 a b c d \<Longrightarrow> rune_len (a # b # c # d # r) = 4"
  by (simp add: rune_len_def seq2_def seq3_def seq4_def)

lemma rune_len_append: "0 < rune_len s \<Longrightarrow> rune_len (take (rune_len s) s @ z) = rune_len s"
  using rune_len_cases [of s] by (auto simp: numeral_eq_Suc)

lemma rune_len_le: "rune_len s \<le> length s"
  using rune_len_cases [of s] by auto

lemma scan_rune:
  assumes "rune_len (c # s) = n" "0 < n" "128 \<le> byte_val c"
  shows "scan_string (c # take (n - 1) s @ z) = map_option (apfst ((@) (c # take (n - 1) s))) (scan_string z)"
proof -
  have t: "take n (c # s) = c # take (n - 1) s" using assms(2) by (cases n) simp_all
  have len: "length (take (n - 1) s) = n - 1" using rune_len_le [of "c # s"] assms(1,2) by auto
  have "rune_len (c # take (n - 1) s @ z) = n"
    using rune_len_append [of "c # s" z] assms(1,2) t by simp
  then show ?thesis
    using assms(2,3) len by (auto simp: scan_string.simps(2) Let_def byte_val_def)
qed

lemma line_sep_text:
  "encode_rune 8232 = [CHR 0xE2, CHR 0x80, CHR 0xA8]"
  "encode_rune 8233 = [CHR 0xE2, CHR 0x80, CHR 0xA9]"
  by (simp_all add: encode_rune_def char_of_def bit_Suc_0_iff)

lemma line_sep_bytes:
  assumes "is_line_sep (c # s)"
  shows "\<exists>d r. c = CHR 0xE2 \<and> s = CHR 0x80 # d # r \<and> (d = CHR 0xA8 \<or> d = CHR 0xA9)"
proof -
  from assms have "take 3 (c # s) = [CHR 0xE2, CHR 0x80, CHR 0xA8] \<or>
      take 3 (c # s) = [CHR 0xE2, CHR 0x80, CHR 0xA9]"
    unfolding is_line_sep_def line_sep_text .
  then show ?thesis by (cases s; cases "tl s") (auto simp: numeral_eq_Suc)
qed

lemma scan_line_sep:
  assumes "is_line_sep (c # s)"
  shows "scan_string (hex_escape (8224 + byte_val (s ! 1) mod 16) @ z) =
    map_option (apfst ((@) (c # take 2 s))) (scan_string z)" "rune_len (c # s) = 3"
proof -
  obtain d r where cs: "c = CHR 0xE2" "s = CHR 0x80 # d # r" "d = CHR 0xA8 \<or> d = CHR 0xA9"
    using line_sep_bytes [OF assms] by blast
  have "encode_rune (8224 + byte_val (s ! 1) mod 16) = c # take 2 s"
    using cs by (auto simp: byte_val_def line_sep_text)
  moreover have "8224 + byte_val (s ! 1) mod 16 < 55296" using mod_less_divisor [of 16 "byte_val (s ! 1)"] by linarith
  ultimately show "scan_string (hex_escape (8224 + byte_val (s ! 1) mod 16) @ z) =
    map_option (apfst ((@) (c # take 2 s))) (scan_string z)"
    using scan_hex_escape_plain [OF disjI1] by metis
  have "seq3 (CHR 0xE2) (CHR 0x80) d" using cs(3) by (auto simp: seq3_def is_cont_def byte_val_def)
  then show "rune_len (c # s) = 3" using cs(1,2) by simp
qed

text \<open>A printed string is read back, up to the bytes that are no UTF-8.\<close>

lemma scan_escape: "scan_string (escape s @ CHR 0x22 # r) = Some (sanitize s, r)"
proof (induction s rule: escape.induct)
  case 1
  then show ?case by (simp add: scan_string.simps(2))
next
  case (2 c s)
  consider (ascii) "byte_val c < 128" | (bad) "128 \<le> byte_val c" "rune_len (c # s) = 0"
    | (sep) "128 \<le> byte_val c" "0 < rune_len (c # s)" "is_line_sep (c # s)"
    | (rune) "128 \<le> byte_val c" "0 < rune_len (c # s)" "\<not> is_line_sep (c # s)"
    by linarith
  then show ?case
  proof cases
    case ascii
    then show ?thesis
      using 2(1) [OF refl ascii]
      by (simp add: escape.simps(2) sanitize.simps(2) scan_escape_ascii)
  next
    case bad
    then show ?thesis
      using 2(2) [OF refl]
      by (simp add: escape.simps(2) sanitize.simps(2) scan_hex_escape_plain rune_error_def)
  next
    case sep
    then show ?thesis
      using 2(3) [OF refl] scan_line_sep [OF sep(3)]
      by (simp add: escape.simps(2) sanitize.simps(2))
  next
    case rune
    then show ?thesis
      using 2(4) [OF refl] scan_rune [OF refl rune(2,1)]
      by (simp add: escape.simps(2) sanitize.simps(2) Let_def)
  qed
qed

section \<open>Tokens are read back\<close>

fun json_tokens :: "json \<Rightarrow> token list" where
  "json_tokens JNull = [TNull]"
| "json_tokens (JBool b) = [TBool b]"
| "json_tokens (JNum n) = [TNum n]"
| "json_tokens (JStr s) = [TStr (sanitize s)]"
| "json_tokens (JArr vs) = TOpenArr # joined TComma (map json_tokens vs) @ [TCloseArr]"
| "json_tokens (JObj kvs) = TOpenObj #
     joined TComma (map (\<lambda>(k, v). TStr (sanitize k) # TColon # json_tokens v) kvs) @ [TCloseObj]"

fun numbers_ok :: "json \<Rightarrow> bool" where
  "numbers_ok (JNum n) = number_literal n"
| "numbers_ok (JArr vs) = list_all numbers_ok vs"
| "numbers_ok (JObj kvs) = list_all (\<lambda>(k, v). numbers_ok v) kvs"
| "numbers_ok _ = True"

definition delimited :: "string \<Rightarrow> bool" where
  "delimited r \<longleftrightarrow> (case r of [] \<Rightarrow> True | c # _ \<Rightarrow> \<not> is_number_char c)"

definition reads :: "string \<Rightarrow> token list \<Rightarrow> bool" where
  "reads s ts \<longleftrightarrow> (\<forall>r. delimited r \<longrightarrow> tokens (s @ r) = map_option ((@) ts) (tokens r))"

lemma readsD: "reads s ts \<Longrightarrow> delimited r \<Longrightarrow> tokens (s @ r) = map_option ((@) ts) (tokens r)"
  by (simp add: reads_def)

lemma readsI: "(\<And>r. delimited r \<Longrightarrow> tokens (s @ r) = map_option ((@) ts) (tokens r)) \<Longrightarrow> reads s ts"
  by (simp add: reads_def)

lemma tokens_punctuation:
  "punctuation c = Some t \<Longrightarrow> tokens (c # r) = map_option ((#) t) (tokens r)"
  by (auto simp: tokens.simps(2) punctuation_def is_space_def byte_val_def split: if_splits)

lemma punctuation_simps [simp]:
  "punctuation (CHR ''{'') = Some TOpenObj" "punctuation (CHR ''}'') = Some TCloseObj"
  "punctuation (CHR ''['') = Some TOpenArr" "punctuation (CHR '']'') = Some TCloseArr"
  "punctuation (CHR '':'') = Some TColon" "punctuation (CHR '','') = Some TComma"
  by (simp_all add: punctuation_def)

lemma delimited_punctuation: "punctuation c = Some t \<Longrightarrow> delimited (c # r)"
  by (auto simp: delimited_def punctuation_def is_number_char_def is_digit_def byte_val_def split: if_splits)

lemma delimited_simps [simp]:
  "delimited (CHR ''}'' # r)" "delimited (CHR '']'' # r)" "delimited (CHR '','' # r)"
  by (rule delimited_punctuation, simp)+

lemma option_map_append [simp]:
  "map_option ((@) xs) (map_option ((@) ys) z) = map_option ((@) (xs @ ys)) z"
  "map_option ((#) x) (map_option ((@) ys) z) = map_option ((@) (x # ys)) z"
  "map_option ((@) xs) (map_option ((#) y) z) = map_option ((@) (xs @ [y])) z"
  "map_option ((#) x) (map_option ((#) y) z) = map_option ((@) [x, y]) z"
  by (cases z; simp)+

lemma reads_quote:
  "tokens (quote s @ r) = map_option ((#) (TStr (sanitize s))) (tokens r)"
proof -
  have "\<not> is_space (CHR 0x22)" "punctuation (CHR 0x22) = None"
    by (simp_all add: is_space_def punctuation_def byte_val_def)
  then show ?thesis by (simp add: quote_def tokens.simps(2) scan_escape)
qed

lemma joined_Cons: "xs \<noteq> [] \<Longrightarrow> joined c (x # xs) = x @ c # joined c xs"
  by (cases xs) simp_all

lemma reads_Nil: "reads [] []"
  by (simp add: reads_def) (metis append_Nil option.map_ident_strong)

lemma reads_joined:
  "list_all2 reads ss tss \<Longrightarrow> reads (joined (CHR '','') ss) (joined TComma tss)"
proof (induction ss tss rule: list_all2_induct)
  case (Cons s ss t tss)
  show ?case
  proof (cases "ss = []")
    case True
    then show ?thesis using Cons by simp
  next
    case False
    moreover from this have "tss \<noteq> []" using Cons by auto
    ultimately show ?thesis
      by (intro readsI)
        (simp add: joined_Cons readsD [OF \<open>reads s t\<close>] tokens_punctuation readsD [OF Cons.IH])
  qed
qed (simp add: reads_Nil)

lemma reads_bracket:
  assumes "reads s ts" "punctuation a = Some t" "punctuation b = Some u"
  shows "reads (a # s @ [b]) (t # ts @ [u])"
  by (rule readsI)
    (simp add: tokens_punctuation [OF assms(2)] readsD [OF assms(1) delimited_punctuation [OF assms(3)]]
      tokens_punctuation [OF assms(3)])

lemma reads_word:
  assumes "word_token (c # s @ r) = Some (t, Suc (length s))" "\<not> is_space c" "punctuation c = None"
    "c \<noteq> CHR 0x22"
  shows "tokens (c # s @ r) = map_option ((#) t) (tokens r)"
  using assms by (simp add: tokens.simps(2))

lemma reads_literal:
  "tokens (CHR ''n'' # CHR ''u'' # CHR ''l'' # CHR ''l'' # r) = map_option ((#) TNull) (tokens r)"
  "tokens (CHR ''t'' # CHR ''r'' # CHR ''u'' # CHR ''e'' # r) = map_option ((#) (TBool True)) (tokens r)"
  "tokens (CHR ''f'' # CHR ''a'' # CHR ''l'' # CHR ''s'' # CHR ''e'' # r) =
     map_option ((#) (TBool False)) (tokens r)"
  by (simp_all add: tokens.simps(2) word_token_def is_space_def punctuation_def byte_val_def)

lemma is_number_char_digit: "list_all is_digit s \<Longrightarrow> list_all is_number_char s"
  by (induction s) (auto simp: is_number_char_def)

lemma digits1_number_char: "digits1 s \<Longrightarrow> list_all is_number_char s"
  by (simp add: digits1_def is_number_char_digit)

lemma exponent_number_char: "exponent s \<Longrightarrow> list_all is_number_char s"
  by (auto simp: exponent_def is_number_char_def digits1_def dest: is_number_char_digit
      split: list.splits if_splits)

lemma number_char_split:
  "list_all is_number_char (takeWhile is_digit s) \<Longrightarrow> list_all is_number_char (dropWhile is_digit s) \<Longrightarrow>
     list_all is_number_char s"
  using takeWhile_dropWhile_id [of is_digit s] by (metis list_all_append)

lemma fraction_number_char: "fraction s \<Longrightarrow> list_all is_number_char s"
proof (cases s)
  case (Cons d r)
  assume f: "fraction s"
  show ?thesis
  proof (cases "d = CHR ''.''")
    case True
    have "list_all is_number_char r"
      by (rule number_char_split)
        (use True f Cons in \<open>simp_all add: fraction_def digits1_number_char exponent_number_char\<close>)
    then show ?thesis using True Cons by (simp add: is_number_char_def)
  next
    case False
    then have "exponent s" using f Cons by (simp add: fraction_def)
    then show ?thesis by (rule exponent_number_char)
  qed
qed simp

lemma number_literal_chars: "number_literal n \<Longrightarrow> list_all is_number_char n"
proof -
  assume n: "number_literal n"
  have "list_all is_number_char (unsigned n)"
    by (rule number_char_split)
      (use n in \<open>simp_all add: number_literal_def int_part_def digits1_number_char fraction_number_char\<close>)
  then show ?thesis
    by (cases n) (auto simp: unsigned_def is_number_char_def split: if_splits)
qed

lemma number_literal_hd: "number_literal (c # s) \<Longrightarrow> is_digit c \<or> c = CHR ''-''"
  by (auto simp: number_literal_def unsigned_def int_part_def digits1_def split: if_splits)

lemma number_start:
  assumes "is_digit c \<or> c = CHR ''-''"
  shows "\<not> is_space c" "c \<noteq> CHR ''n'' \<and> c \<noteq> CHR ''t'' \<and> c \<noteq> CHR ''f'' \<and> c \<noteq> CHR 0x22" "punctuation c = None"
proof -
  have n: "byte_val c = 45 \<or> 48 \<le> byte_val c \<and> byte_val c \<le> 57"
    using assms by (auto simp: is_digit_def byte_val_def)
  then show "\<not> is_space c" by (auto simp: is_space_def)
  show "c \<noteq> CHR ''n'' \<and> c \<noteq> CHR ''t'' \<and> c \<noteq> CHR ''f'' \<and> c \<noteq> CHR 0x22"
    using n by (auto simp: byte_val_def)
  have "c \<noteq> d" if "byte_val d \<in> {123, 125, 91, 93, 58, 44}" for d using n that by auto
  from this [of "CHR ''{''"] this [of "CHR ''}''"] this [of "CHR ''[''"] this [of "CHR '']''"]
    this [of "CHR '':''"] this [of "CHR '',''"]
  show "punctuation c = None" by (simp add: punctuation_def byte_val_def)
qed

lemma reads_number: "number_literal n \<Longrightarrow> reads n [TNum n]"
proof (rule readsI)
  fix r assume n: "number_literal n" and r: "delimited r"
  obtain c s where cs: "n = c # s" using n by (cases n) (auto simp: number_literal_def int_part_def digits1_def unsigned_def)
  have hd: "is_digit c \<or> c = CHR ''-''" using number_literal_hd n cs by blast
  have tw: "takeWhile is_number_char (n @ r) = n"
    using number_literal_chars [OF n] r
    by (auto simp: takeWhile_append list_all_iff delimited_def split: list.splits)
  from number_start [OF hd] show "tokens (n @ r) = map_option ((@) [TNum n]) (tokens r)"
    using n tw by (simp add: cs reads_word word_token_def Let_def)
qed

lemma reads_print: "numbers_ok v \<Longrightarrow> reads (print_json v) (json_tokens v)"
proof (induction v rule: print_json.induct)
  case (5 vs)
  then have "list_all2 reads (map print_json vs) (map json_tokens vs)"
    by (auto simp: list_all2_conv_all_nth list_all_length)
  then show ?case by (simp add: reads_bracket reads_joined)
next
  case (6 kvs)
  have "reads (quote k @ '':'' @ print_json v) (TStr (sanitize k) # TColon # json_tokens v)"
    if "(k, v) \<in> set kvs" for k v
  proof (rule readsI)
    fix r assume r: "delimited r"
    have "numbers_ok v" using 6(2) that by (auto simp: list_all_iff)
    with 6(1) that have "reads (print_json v) (json_tokens v)" by blast
    then show "tokens ((quote k @ '':'' @ print_json v) @ r) =
        map_option ((@) (TStr (sanitize k) # TColon # json_tokens v)) (tokens r)"
      by (simp add: reads_quote tokens_punctuation readsD [OF _ r])
  qed
  then have "list_all2 reads (map (\<lambda>(k, v). quote k @ '':'' @ print_json v) kvs)
      (map (\<lambda>(k, v). TStr (sanitize k) # TColon # json_tokens v) kvs)"
    by (auto simp: list_all2_conv_all_nth split_beta)
  then show ?case by (simp add: reads_bracket reads_joined)
next
  case (3 n)
  then show ?case by (simp add: reads_number)
qed (auto intro!: readsI simp: reads_quote reads_literal)

section \<open>Values are read back\<close>

fun sanitize_json :: "json \<Rightarrow> json" where
  "sanitize_json (JStr s) = JStr (sanitize s)"
| "sanitize_json (JArr vs) = JArr (map sanitize_json vs)"
| "sanitize_json (JObj kvs) = JObj (map (\<lambda>(k, v). (sanitize k, sanitize_json v)) kvs)"
| "sanitize_json v = v"

text \<open>The value can be read with \<open>n\<close> arrays and objects open.\<close>

fun fits :: "nat \<Rightarrow> json \<Rightarrow> bool" where
  "fits n (JArr vs) = (n < maxNestingDepth \<and> list_all (fits (Suc n)) vs)"
| "fits n (JObj kvs) = (n < maxNestingDepth \<and> list_all (\<lambda>(k, v). fits (Suc n) v) kvs)"
| "fits n _ = True"

definition builds :: "nat \<Rightarrow> token list \<Rightarrow> json \<Rightarrow> bool" where
  "builds n ts v \<longleftrightarrow> (\<forall>b st us. length st = n \<longrightarrow>
     parse_tokens (MValue b, st) (ts @ us) = parse_tokens (give v st) us)"

lemma buildsD: "builds n ts v \<Longrightarrow> length st = n \<Longrightarrow>
    parse_tokens (MValue b, st) (ts @ us) = parse_tokens (give v st) us"
  by (simp add: builds_def)

lemma buildsI: "(\<And>b st us. length st = n \<Longrightarrow>
    parse_tokens (MValue b, st) (ts @ us) = parse_tokens (give v st) us) \<Longrightarrow> builds n ts v"
  by (simp add: builds_def)

lemma parse_elements:
  "list_all2 (builds (Suc (length st))) tss vs \<Longrightarrow> tss \<noteq> [] \<Longrightarrow>
     parse_tokens (MValue b, FArr acc # st) (joined TComma tss @ TCloseArr # us) =
     parse_tokens (give (JArr (acc @ vs)) st) us"
proof (induction tss vs arbitrary: b acc rule: list_all2_induct)
  case (Cons ts tss v vs)
  show ?case
  proof (cases "tss = []")
    case True
    then show ?thesis using Cons by (simp add: buildsD [OF Cons(1)])
  next
    case False
    then show ?thesis
      by (simp add: joined_Cons buildsD [OF Cons(1)] Cons.IH)
  qed
qed simp

lemma parse_members:
  "list_all2 (\<lambda>(k, ts) (k', v). k = k' \<and> builds (Suc (length st)) ts v) ktss kvs \<Longrightarrow> ktss \<noteq> [] \<Longrightarrow>
     parse_tokens (MKey b, FObj acc x # st)
       (joined TComma (map (\<lambda>(k, ts). TStr k # TColon # ts) ktss) @ TCloseObj # us) =
     parse_tokens (give (JObj (acc @ kvs)) st) us"
proof (induction ktss kvs arbitrary: b acc x rule: list_all2_induct)
  case (Cons kt ktss kv kvs)
  obtain k ts v where kv: "kt = (k, ts)" "kv = (k, v)" "builds (Suc (length st)) ts v"
    using Cons(1) by (auto split: prod.splits)
  show ?case
  proof (cases "ktss = []")
    case True
    then show ?thesis using Cons(2) by (simp add: kv(1,2) buildsD [OF kv(3)])
  next
    case False
    then show ?thesis
      by (simp add: joined_Cons kv(1,2) buildsD [OF kv(3)] Cons.IH)
  qed
qed simp

lemma parse_builds: "fits n v \<Longrightarrow> builds n (json_tokens v) (sanitize_json v)"
proof (induction n v rule: fits.induct)
  case (1 n vs)
  then have el: "list_all2 (builds (Suc n)) (map json_tokens vs) (map sanitize_json vs)"
    by (auto simp: list_all2_conv_all_nth list_all_length)
  show ?case
    by (rule buildsI) (use 1(2) parse_elements [of _ "map json_tokens vs" "map sanitize_json vs"] el in
      \<open>cases vs; auto\<close>)
next
  case (2 n kvs)
  let ?k = "map (\<lambda>(k, v). (sanitize k, json_tokens v)) kvs"
  have "builds (Suc n) (json_tokens v) (sanitize_json v)" if "(k, v) \<in> set kvs" for k v
    using 2 that by (auto simp: list_all_iff)
  then have el: "list_all2 (\<lambda>(k, ts) (k', v). k = k' \<and> builds (Suc n) ts v) ?k
      (map (\<lambda>(k, v). (sanitize k, sanitize_json v)) kvs)"
    by (auto simp: list_all2_conv_all_nth split_beta) (metis nth_mem prod.collapse)
  have m: "map (\<lambda>(k, ts). TStr k # TColon # ts) ?k =
      map (\<lambda>(k, v). TStr (sanitize k) # TColon # json_tokens v) kvs"
    by (simp add: split_beta)
  show ?case
  proof (rule buildsI)
    fix b :: bool and st :: "frame list" and us assume st: "length st = n"
    show "parse_tokens (MValue b, st) (json_tokens (JObj kvs) @ us) =
        parse_tokens (give (sanitize_json (JObj kvs)) st) us"
    proof (cases "kvs = []")
      case False
      then show ?thesis
        using parse_members [OF el [folded st], of True "[]" "[]" us] 2(2) st by (simp add: m del: map_map)
    qed (use 2(2) st in simp)
  qed
qed (auto intro!: buildsI)

lemma parse_print:
  assumes "numbers_ok v" "fits 0 v"
  shows "parse_json (print_json v) = Some (sanitize_json v)"
  using readsD [OF reads_print [OF assms(1)], of "[]"] buildsD [OF parse_builds [OF assms(2)], of "[]" False "[]"]
  by (simp add: parse_json_def delimited_def)

end
