(* ===== verification/Json_Decode.thy ===== *)
theory Json_Decode
  imports Go_Json
begin

text \<open>
  What \<open>json.Unmarshal\<close> makes of a value, by the type of the variable it is stored in, and what
  \<open>json.Marshal\<close> makes of a variable. A decoder is given the variable's old value: \<open>null\<close> leaves a
  string or a number as it is, and members of an object that repeat a name are stored one after the
  other. \<open>None\<close> is an error; the byte_val never looks at a variable whose decoding failed.
\<close>

section \<open>Basic types\<close>

definition decode_string :: "string \<Rightarrow> json \<Rightarrow> string option" where
  "decode_string old v = (case v of JNull \<Rightarrow> Some old | JStr s \<Rightarrow> Some s | _ \<Rightarrow> None)"

text \<open>\<open>strconv.ParseInt\<close> on a number literal: no fraction and no exponent.\<close>

definition parse_int :: "string \<Rightarrow> int option" where
  "parse_int n =
     (if digits1 (unsigned n)
      then Some (if unsigned n = n then int (digits_val n) else - int (digits_val (unsigned n)))
      else None)"

definition decode_int32 :: "int \<Rightarrow> json \<Rightarrow> int option" where
  "decode_int32 old v =
     (case v of
        JNull \<Rightarrow> Some old
      | JNum n \<Rightarrow>
          (case parse_int n of
             None \<Rightarrow> None
           | Some i \<Rightarrow> if - (2 ^ 31) \<le> i \<and> i < 2 ^ 31 then Some i else None)
      | _ \<Rightarrow> None)"

text \<open>
  A slice, with the elements that its array keeps behind its end. Elements are decoded into the
  array's old ones, so that a \<open>null\<close> element shows what was there.
\<close>

type_synonym 'a slice = "'a list \<times> 'a list"

fun decode_elements :: "('a \<Rightarrow> json \<Rightarrow> 'a option) \<Rightarrow> 'a \<Rightarrow> 'a list \<Rightarrow> json list \<Rightarrow> 'a slice option" where
  "decode_elements dec z old [] = Some ([], old)"
| "decode_elements dec z old (v # vs) =
     (case dec (case old of [] \<Rightarrow> z | x # _ \<Rightarrow> x) v of
        None \<Rightarrow> None
      | Some x \<Rightarrow> map_option (apfst ((#) x)) (decode_elements dec z (tl old) vs))"

definition decode_slice :: "('a \<Rightarrow> json \<Rightarrow> 'a option) \<Rightarrow> 'a \<Rightarrow> 'a slice \<Rightarrow> json \<Rightarrow> 'a slice option" where
  "decode_slice dec z old v =
     (case v of
        JNull \<Rightarrow> Some ([], [])
      | JArr vs \<Rightarrow> if vs = [] then Some ([], []) else decode_elements dec z (fst old @ snd old) vs
      | _ \<Rightarrow> None)"

text \<open>A map keeps its entries; every value starts from the zero value.\<close>

fun decode_entries :: "(json \<Rightarrow> 'v option) \<Rightarrow> (string, 'v) gomap \<Rightarrow> (string \<times> json) list \<Rightarrow>
    (string, 'v) gomap option" where
  "decode_entries dec m [] = Some m"
| "decode_entries dec m ((k, v) # kvs) =
     (case dec v of None \<Rightarrow> None | Some x \<Rightarrow> decode_entries dec (gm_put m k x) kvs)"

definition decode_map :: "(json \<Rightarrow> 'v option) \<Rightarrow> (string, 'v) gomap \<Rightarrow> json \<Rightarrow>
    (string, 'v) gomap option" where
  "decode_map dec old v =
     (case v of JNull \<Rightarrow> Some gm_empty | JObj kvs \<Rightarrow> decode_entries dec old kvs | _ \<Rightarrow> None)"

section \<open>Structs\<close>

text \<open>
  The folding of names: letters become capitals, the two runes outside ASCII that fold to a letter,
  long s and the Kelvin sign, become that letter.
\<close>

fun fold_name :: "string \<Rightarrow> string" where
  "fold_name [] = []"
| "fold_name (c # s) =
     (if 97 \<le> byte_val c \<and> byte_val c \<le> 122 then char_of (byte_val c - 32) # fold_name s
      else if byte_val c = 197 \<and> take 1 s = [CHR 0xBF] then CHR ''S'' # fold_name (drop 1 s)
      else if byte_val c = 226 \<and> take 2 s = [CHR 0x84, CHR 0xAA] then CHR ''K'' # fold_name (drop 2 s)
      else c # fold_name s)"

type_synonym 'c fields = "(string \<times> ('c \<Rightarrow> json \<Rightarrow> 'c option)) list"

definition find_field :: "'c fields \<Rightarrow> string \<Rightarrow> ('c \<Rightarrow> json \<Rightarrow> 'c option) option" where
  "find_field fs k =
     (case map_of fs k of
        Some f \<Rightarrow> Some f
      | None \<Rightarrow> map_of (map (apfst fold_name) fs) (fold_name k))"

fun decode_members :: "'c fields \<Rightarrow> 'c \<Rightarrow> (string \<times> json) list \<Rightarrow> 'c option" where
  "decode_members fs c [] = Some c"
| "decode_members fs c ((k, v) # kvs) =
     (case find_field fs k of
        None \<Rightarrow> decode_members fs c kvs
      | Some f \<Rightarrow> (case f c v of None \<Rightarrow> None | Some c' \<Rightarrow> decode_members fs c' kvs))"

definition decode_struct :: "'c fields \<Rightarrow> 'c \<Rightarrow> json \<Rightarrow> 'c option" where
  "decode_struct fs c v =
     (case v of JNull \<Rightarrow> Some c | JObj kvs \<Rightarrow> decode_members fs c kvs | _ \<Rightarrow> None)"

section \<open>Texts\<close>

definition bytes_of :: "string \<Rightarrow> bytes" where
  "bytes_of s = map of_char s"

definition text_of :: "bytes \<Rightarrow> string" where
  "text_of b = map (\<lambda>w. char_of (unat w)) b"

definition Marshal :: "json \<Rightarrow> bytes" where
  "Marshal v = bytes_of (print_json v)"

definition Unmarshal :: "'c fields \<Rightarrow> 'c \<Rightarrow> bytes \<Rightarrow> 'c option" where
  "Unmarshal fs zero b =
     (case parse_json (text_of b) of None \<Rightarrow> None | Some v \<Rightarrow> decode_struct fs zero v)"

text \<open>A slice or a map: nil is \<open>null\<close>. The entries of a map are in the order of their keys.\<close>

definition json_slice :: "bool \<Rightarrow> ('a \<Rightarrow> json) \<Rightarrow> 'a list \<Rightarrow> json" where
  "json_slice is_nil enc xs = (if xs = [] \<and> is_nil then JNull else JArr (map enc xs))"

definition json_map :: "bool \<Rightarrow> (string \<Rightarrow> 'v \<Rightarrow> json) \<Rightarrow> (string, 'v) gomap \<Rightarrow> json" where
  "json_map is_nil enc m =
     (if m = gm_empty \<and> is_nil then JNull else JObj (map (\<lambda>(k, v). (k, enc k v)) (sort_key fst m)))"

section \<open>Round trips\<close>

lemma text_of_bytes_of [simp]: "text_of (bytes_of s) = s"
proof -
  have "char_of (unat (of_char c :: 8 word)) = c" for c
  proof -
    have "unat (of_char c :: 8 word) = of_char c"
      using byte_val_less [of c] by (simp add: byte_val_def of_char_def)
    then show ?thesis by simp
  qed
  then show ?thesis by (induction s) (simp_all add: text_of_def bytes_of_def)
qed

lemma Unmarshal_Marshal:
  "numbers_ok v \<Longrightarrow> fits 0 v \<Longrightarrow> Unmarshal fs z (Marshal v) = decode_struct fs z (sanitize_json v)"
  by (simp add: Unmarshal_def Marshal_def parse_print)

lemma is_digit_digit_char [simp]: "d < 10 \<Longrightarrow> is_digit (digit_char d)"
  by (simp add: is_digit_def byte_val_def)

lemma nat_digits_digits [simp]: "list_all is_digit (nat_digits n)"
  using nat_digits_chars by (fastforce simp: list_all_iff is_digit_def byte_val_def)

lemma hd_nat_digits: "0 < n \<Longrightarrow> hd (nat_digits n) \<noteq> CHR ''0''"
proof (induction n rule: nat_digits.induct)
  case (1 n)
  show ?case
  proof (cases "n < 10")
    case True
    then have "byte_val (digit_char n) \<noteq> 48" using 1(2) by (simp add: byte_val_def)
    then have "digit_char n \<noteq> CHR ''0''" by (auto simp: byte_val_def)
    then show ?thesis using True by (simp add: nat_digits.simps [of n])
  next
    case False
    then show ?thesis using 1 by (simp add: nat_digits.simps [of n])
  qed
qed

lemma unsigned_nat_digits [simp]: "unsigned (nat_digits n) = nat_digits n"
  by (cases "nat_digits n") (auto simp: unsigned_def dest: arg_cong [of _ _ "\<lambda>s. s"])

lemma unsigned_fmt_d [simp]: "unsigned (fmt_d i) = nat_digits (nat \<bar>i\<bar>)"
  by (simp add: fmt_d_def) (simp add: unsigned_def)

lemma takeWhile_digits [simp]:
  "takeWhile is_digit (nat_digits n) = nat_digits n" "dropWhile is_digit (nat_digits n) = []"
  using nat_digits_digits [of n] by (simp_all add: list_all_iff)

lemma digits1_nat_digits [simp]: "digits1 (nat_digits n)"
  by (simp add: digits1_def)

lemma number_literal_fmt_d [simp]: "number_literal (fmt_d i)"
proof -
  have "hd (nat_digits n) = CHR ''0'' \<longrightarrow> tl (nat_digits n) = []" for n :: nat
    by (cases "n = 0") (simp_all add: hd_nat_digits nat_digits.simps [of 0])
  then show ?thesis by (simp add: number_literal_def int_part_def fraction_def)
qed

lemma parse_int_fmt_d [simp]: "parse_int (fmt_d i) = Some i"
proof (cases "i < 0")
  case True
  then have "fmt_d i \<noteq> nat_digits (nat \<bar>i\<bar>)" by (simp add: fmt_d_def)
  with True show ?thesis by (auto simp: parse_int_def)
next
  case False
  then show ?thesis by (simp add: parse_int_def fmt_d_def)
qed

lemma decode_int32_JInt [simp]: "in_i32 i \<Longrightarrow> decode_int32 old (JInt i) = Some i"
  by (simp add: decode_int32_def JInt_def in_i32_def)

lemma decode_elements_map:
  "(\<And>x y. x \<in> set xs \<Longrightarrow> dec y (enc x) = Some (f x)) \<Longrightarrow>
     decode_elements dec z old (map enc xs) = Some (map f xs, drop (length xs) old)"
  by (induction xs arbitrary: old) (simp_all add: drop_Suc)

lemma decode_slice_json_slice:
  assumes "\<And>x y. x \<in> set xs \<Longrightarrow> dec y (enc x) = Some (f x)"
  shows "decode_slice dec z ([], []) (json_slice n enc xs) = Some (map f xs, [])"
  using decode_elements_map [of xs dec enc f z "[]"] assms
  by (auto simp: decode_slice_def json_slice_def)

definition put_all :: "('v \<Rightarrow> 'w) \<Rightarrow> (string, 'w) gomap \<Rightarrow> (string \<times> 'v) list \<Rightarrow> (string, 'w) gomap" where
  "put_all f m kvs = foldl (\<lambda>m (k, v). gm_put m k (f v)) m kvs"

lemma put_all_wf: "gm_wf m \<Longrightarrow> gm_wf (put_all f m kvs)"
  unfolding put_all_def by (induction kvs arbitrary: m) auto

lemma put_all_get:
  "distinct (map fst kvs) \<Longrightarrow> gm_get (put_all f m kvs) k =
     (case map_of kvs k of None \<Rightarrow> gm_get m k | Some v \<Rightarrow> Some (f v))"
proof (induction kvs arbitrary: m)
  case (Cons kv kvs)
  have "put_all f m (kv # kvs) = put_all f (gm_put m (fst kv) (f (snd kv))) kvs"
    by (simp add: put_all_def split_beta)
  moreover have "map_of kvs (fst kv) = None" using Cons(2) by (simp add: map_of_eq_None_iff)
  ultimately show ?case using Cons by (simp split: option.split)
qed (simp add: put_all_def)

lemma decode_entries_map:
  "(\<And>k v. (k, v) \<in> set kvs \<Longrightarrow> dec (enc k v) = Some (f v)) \<Longrightarrow>
     decode_entries dec m (map (\<lambda>(k, v). (k, enc k v)) kvs) = Some (put_all f m kvs)"
  unfolding put_all_def by (induction kvs arbitrary: m) auto

text \<open>A map comes back as a map with the same entries, in the order of the text.\<close>

lemma decode_map_json_map:
  assumes wf: "gm_wf m" and dec: "\<And>k v. gm_get m k = Some v \<Longrightarrow> dec (enc k v) = Some (f v)"
  shows "\<exists>m'. decode_map dec gm_empty (json_map n enc m) = Some m' \<and> gm_wf m' \<and>
    (\<forall>k. gm_get m' k = map_option f (gm_get m k))"
proof (cases "m = gm_empty \<and> n")
  case True
  then show ?thesis by (simp add: decode_map_def json_map_def)
next
  case False
  let ?s = "sort_key fst m"
  have d: "distinct (map fst m)" using wf by (simp add: gm_wf_def gm_keys_def)
  then have ds: "distinct (map fst ?s)" by (simp add: distinct_map inj_on_def)
  then have s: "map_of ?s = map_of m" by (simp add: map_of_inject_set d)
  have "dec (enc k v) = Some (f v)" if "(k, v) \<in> set ?s" for k v
    using that dec d by (simp add: gm_get_def)
  then have "decode_entries dec gm_empty (map (\<lambda>(k, v). (k, enc k v)) ?s) = Some (put_all f gm_empty ?s)"
    by (rule decode_entries_map)
  then have "decode_map dec gm_empty (json_map n enc m) = Some (put_all f gm_empty ?s)"
    unfolding json_map_def if_not_P [OF False] decode_map_def by simp
  moreover have "gm_get (put_all f gm_empty ?s) k = map_option f (gm_get m k)" for k
    unfolding put_all_get [OF ds] s gm_get_def [of m] by (cases "map_of m k") simp_all
  ultimately show ?thesis using put_all_wf [of gm_empty f ?s] by simp
qed

section \<open>Wire formats\<close>

fun text_valid :: "json \<Rightarrow> bool" where
  "text_valid (JStr s) = valid_utf8 s"
| "text_valid (JArr vs) = list_all text_valid vs"
| "text_valid (JObj kvs) = list_all (\<lambda>(k, v). valid_utf8 k \<and> text_valid v) kvs"
| "text_valid v = True"

lemma sanitize_text_valid: "text_valid v \<Longrightarrow> sanitize_json v = v"
proof (induction v rule: text_valid.induct)
  case (2 vs)
  then show ?case by (auto simp: list_all_iff intro: map_idI)
next
  case (3 kvs)
  then have "(\<lambda>(k, v). (sanitize k, sanitize_json v)) kv = kv" if "kv \<in> set kvs" for kv
    using that by (auto simp: list_all_iff sanitize_valid split: prod.splits)
  then show ?case by (simp add: map_idI)
qed (simp_all add: sanitize_valid)

text \<open>A value that is printed without loss, with \<open>n\<close> arrays and objects open.\<close>

definition json_ok :: "nat \<Rightarrow> json \<Rightarrow> bool" where
  "json_ok n v \<longleftrightarrow> numbers_ok v \<and> fits n v \<and> text_valid v"

lemma json_ok_simps [simp]:
  "json_ok n (JStr s) = valid_utf8 s" "json_ok n (JNum k) = number_literal k" "json_ok n JNull" "json_ok n (JBool b)"
  "json_ok n (JInt i)"
  "json_ok n (JArr vs) = (n < maxNestingDepth \<and> list_all (json_ok (Suc n)) vs)"
  "json_ok n (JObj kvs) = (n < maxNestingDepth \<and> list_all (\<lambda>(k, v). valid_utf8 k \<and> json_ok (Suc n) v) kvs)"
  by (auto simp: json_ok_def JInt_def list_all_iff)

lemma json_ok_slice:
  "(\<And>x. x \<in> set xs \<Longrightarrow> json_ok (Suc n) (enc x)) \<Longrightarrow> n < maxNestingDepth \<Longrightarrow> json_ok n (json_slice b enc xs)"
  by (auto simp: json_slice_def list_all_iff)

lemma json_ok_map:
  "(\<And>k x. (k, x) \<in> set m \<Longrightarrow> valid_utf8 k \<and> json_ok (Suc n) (enc k x)) \<Longrightarrow> n < maxNestingDepth \<Longrightarrow>
     json_ok n (json_map b enc m)"
  by (auto simp: json_map_def list_all_iff)

lemma valid_utf8_ascii: "list_all (\<lambda>c. byte_val c < 128) s \<Longrightarrow> valid_utf8 s"
  by (induction s) (simp_all add: valid_utf8.simps(2))

lemma maxNestingDepth_small [simp]: "n < 10000 \<Longrightarrow> n < maxNestingDepth"
  by (simp add: maxNestingDepth_def)

text \<open>
  What a user of the package relies on: a value that is \<open>ok\<close> can be printed without loss, and the
  fields of its struct read it back as the \<open>same\<close> value.
\<close>

locale wire_format =
  fixes to_json :: "'a \<Rightarrow> json"
    and fields :: "'c fields"
    and zero :: 'c
    and out :: "'c \<Rightarrow> 'a"
    and ok :: "'a \<Rightarrow> bool"
    and same :: "'a \<Rightarrow> 'a \<Rightarrow> bool"
  assumes printable: "ok x \<Longrightarrow> json_ok 0 (to_json x)"
    and decoded: "ok x \<Longrightarrow> \<exists>c. decode_struct fields zero (to_json x) = Some c \<and> same x (out c)"
begin

lemma round_trip: "ok x \<Longrightarrow> \<exists>c. Unmarshal fields zero (Marshal (to_json x)) = Some c \<and> same x (out c)"
  using printable [of x] decoded [of x] by (simp add: json_ok_def Unmarshal_Marshal sanitize_text_valid)

end

end
