(* ===== verification/Raft_Commands.thy ===== *)
theory Raft_Commands
  imports Raft_Log Json_Decode
begin

text \<open>
  The group commands of \<open>internal/raft/log.go\<close>, which the entries of the log carry as JSON: the
  structs, \<open>MarshalCmd\<close> and the three decoders. A Go slice or map may be nil or empty, which the
  records do not tell apart and the text does: the printers take it as an argument.
\<close>

section \<open>Structs\<close>

record JoinGroupCmd =
  jc_GroupID :: string
  jc_MemberID :: string
  jc_Topics :: "string list"

record LeaveGroupCmd =
  lc_GroupID :: string
  lc_MemberID :: string

record AssignGroupCmd =
  ac_GroupID :: string
  ac_Generation :: int
  ac_Assignment :: "(string, int list) gomap"

section \<open>Decoders\<close>

text \<open>The decoded struct comes with what the array of its slice keeps behind the slice's end.\<close>

definition join_fields :: "(JoinGroupCmd \<times> string list) fields" where
  "join_fields =
     [(''group_id'', \<lambda>(c, st) v.
        map_option (\<lambda>s. (c\<lparr>jc_GroupID := s\<rparr>, st)) (decode_string (jc_GroupID c) v)),
      (''member_id'', \<lambda>(c, st) v.
        map_option (\<lambda>s. (c\<lparr>jc_MemberID := s\<rparr>, st)) (decode_string (jc_MemberID c) v)),
      (''topics'', \<lambda>(c, st) v.
        map_option (apfst (\<lambda>xs. c\<lparr>jc_Topics := xs\<rparr>)) (decode_slice decode_string [] (jc_Topics c, st) v))]"

definition leave_fields :: "LeaveGroupCmd fields" where
  "leave_fields =
     [(''group_id'', \<lambda>c v. map_option (\<lambda>s. c\<lparr>lc_GroupID := s\<rparr>) (decode_string (lc_GroupID c) v)),
      (''member_id'', \<lambda>c v. map_option (\<lambda>s. c\<lparr>lc_MemberID := s\<rparr>) (decode_string (lc_MemberID c) v))]"

definition assign_fields :: "AssignGroupCmd fields" where
  "assign_fields =
     [(''group_id'', \<lambda>c v. map_option (\<lambda>s. c\<lparr>ac_GroupID := s\<rparr>) (decode_string (ac_GroupID c) v)),
      (''generation'', \<lambda>c v. map_option (\<lambda>i. c\<lparr>ac_Generation := i\<rparr>) (decode_int32 (ac_Generation c) v)),
      (''assignment'', \<lambda>c v.
        map_option (\<lambda>m. c\<lparr>ac_Assignment := m\<rparr>)
          (decode_map (\<lambda>w. map_option fst (decode_slice decode_int32 0 ([], []) w)) (ac_Assignment c) v))]"

definition UnmarshalJoinCmd :: "bytes \<Rightarrow> JoinGroupCmd option" where
  "UnmarshalJoinCmd dat =
     map_option fst (Unmarshal join_fields (\<lparr>jc_GroupID = [], jc_MemberID = [], jc_Topics = []\<rparr>, []) dat)"

definition UnmarshalLeaveCmd :: "bytes \<Rightarrow> LeaveGroupCmd option" where
  "UnmarshalLeaveCmd dat = Unmarshal leave_fields \<lparr>lc_GroupID = [], lc_MemberID = []\<rparr> dat"

definition UnmarshalAssignCmd :: "bytes \<Rightarrow> AssignGroupCmd option" where
  "UnmarshalAssignCmd dat =
     Unmarshal assign_fields \<lparr>ac_GroupID = [], ac_Generation = 0, ac_Assignment = gm_empty\<rparr> dat"

section \<open>MarshalCmd\<close>

definition join_json :: "bool \<Rightarrow> JoinGroupCmd \<Rightarrow> json" where
  "join_json n c = JObj [(''group_id'', JStr (jc_GroupID c)), (''member_id'', JStr (jc_MemberID c)),
     (''topics'', json_slice n JStr (jc_Topics c))]"

definition leave_json :: "LeaveGroupCmd \<Rightarrow> json" where
  "leave_json c = JObj [(''group_id'', JStr (lc_GroupID c)), (''member_id'', JStr (lc_MemberID c))]"

definition assign_json :: "bool \<Rightarrow> (string \<Rightarrow> bool) \<Rightarrow> AssignGroupCmd \<Rightarrow> json" where
  "assign_json n ns c = JObj [(''group_id'', JStr (ac_GroupID c)), (''generation'', JInt (ac_Generation c)),
     (''assignment'', json_map n (\<lambda>k. json_slice (ns k) JInt) (ac_Assignment c))]"

definition MarshalCmd :: "json \<Rightarrow> bytes" where
  "MarshalCmd v = Marshal v"

section \<open>Round trips\<close>

definition join_ok :: "JoinGroupCmd \<Rightarrow> bool" where
  "join_ok c \<longleftrightarrow> valid_utf8 (jc_GroupID c) \<and> valid_utf8 (jc_MemberID c) \<and> list_all valid_utf8 (jc_Topics c)"

definition leave_ok :: "LeaveGroupCmd \<Rightarrow> bool" where
  "leave_ok c \<longleftrightarrow> valid_utf8 (lc_GroupID c) \<and> valid_utf8 (lc_MemberID c)"

definition assign_ok :: "AssignGroupCmd \<Rightarrow> bool" where
  "assign_ok c \<longleftrightarrow> valid_utf8 (ac_GroupID c) \<and> in_i32 (ac_Generation c) \<and> gm_wf (ac_Assignment c) \<and>
     list_all (\<lambda>(k, ps). valid_utf8 k \<and> list_all in_i32 ps) (ac_Assignment c)"

definition assign_same :: "AssignGroupCmd \<Rightarrow> AssignGroupCmd \<Rightarrow> bool" where
  "assign_same c d \<longleftrightarrow> ac_GroupID d = ac_GroupID c \<and> ac_Generation d = ac_Generation c \<and>
     gm_get (ac_Assignment d) = gm_get (ac_Assignment c)"

lemma field_names [simp]:
  "valid_utf8 ''group_id''" "valid_utf8 ''member_id''" "valid_utf8 ''topics''" "valid_utf8 ''generation''"
  "valid_utf8 ''assignment''"
  by (rule valid_utf8_ascii, simp add: byte_val_def)+

lemma find_fields [simp]:
  "find_field join_fields ''group_id'' =
     Some (\<lambda>(c, st) v. map_option (\<lambda>s. (c\<lparr>jc_GroupID := s\<rparr>, st)) (decode_string (jc_GroupID c) v))"
  "find_field join_fields ''member_id'' =
     Some (\<lambda>(c, st) v. map_option (\<lambda>s. (c\<lparr>jc_MemberID := s\<rparr>, st)) (decode_string (jc_MemberID c) v))"
  "find_field join_fields ''topics'' =
     Some (\<lambda>(c, st) v. map_option (apfst (\<lambda>xs. c\<lparr>jc_Topics := xs\<rparr>)) (decode_slice decode_string [] (jc_Topics c, st) v))"
  "find_field leave_fields ''group_id'' =
     Some (\<lambda>c v. map_option (\<lambda>s. c\<lparr>lc_GroupID := s\<rparr>) (decode_string (lc_GroupID c) v))"
  "find_field leave_fields ''member_id'' =
     Some (\<lambda>c v. map_option (\<lambda>s. c\<lparr>lc_MemberID := s\<rparr>) (decode_string (lc_MemberID c) v))"
  "find_field assign_fields ''group_id'' =
     Some (\<lambda>c v. map_option (\<lambda>s. c\<lparr>ac_GroupID := s\<rparr>) (decode_string (ac_GroupID c) v))"
  "find_field assign_fields ''generation'' =
     Some (\<lambda>c v. map_option (\<lambda>i. c\<lparr>ac_Generation := i\<rparr>) (decode_int32 (ac_Generation c) v))"
  "find_field assign_fields ''assignment'' =
     Some (\<lambda>c v. map_option (\<lambda>m. c\<lparr>ac_Assignment := m\<rparr>) (decode_map (\<lambda>w. map_option fst (decode_slice decode_int32 0 ([], []) w)) (ac_Assignment c) v))"
  by (simp_all add: find_field_def join_fields_def leave_fields_def assign_fields_def)

interpretation join_wire: wire_format "join_json n" join_fields
  "(\<lparr>jc_GroupID = [], jc_MemberID = [], jc_Topics = []\<rparr>, [])" fst join_ok "(=)" for n
proof
  fix x :: JoinGroupCmd assume ok: "join_ok x"
  have "json_ok 1 (json_slice n JStr (jc_Topics x))"
    by (rule json_ok_slice) (use ok in \<open>auto simp: join_ok_def list_all_iff\<close>)
  then show "json_ok 0 (join_json n x)"
    using ok by (simp add: join_json_def join_ok_def)
  have "decode_slice decode_string [] ([], []) (json_slice n JStr (jc_Topics x)) = Some (map (\<lambda>s. s) (jc_Topics x), [])"
    by (rule decode_slice_json_slice) (simp add: decode_string_def)
  then show "\<exists>c. decode_struct join_fields (\<lparr>jc_GroupID = [], jc_MemberID = [], jc_Topics = []\<rparr>, [])
      (join_json n x) = Some c \<and> x = fst c"
    by (simp add: decode_struct_def join_json_def decode_string_def)
qed

interpretation leave_wire: wire_format leave_json leave_fields
  "\<lparr>lc_GroupID = [], lc_MemberID = []\<rparr>" "\<lambda>c. c" leave_ok "(=)"
proof
  fix x :: LeaveGroupCmd assume ok: "leave_ok x"
  then show "json_ok 0 (leave_json x)" by (simp add: leave_json_def leave_ok_def)
  show "\<exists>c. decode_struct leave_fields \<lparr>lc_GroupID = [], lc_MemberID = []\<rparr> (leave_json x) = Some c \<and> x = c"
    by (simp add: decode_struct_def leave_json_def decode_string_def)
qed

interpretation assign_wire: wire_format "assign_json n ns" assign_fields
  "\<lparr>ac_GroupID = [], ac_Generation = 0, ac_Assignment = gm_empty\<rparr>" "\<lambda>c. c" assign_ok assign_same for n ns
proof
  fix x :: AssignGroupCmd assume ok: "assign_ok x"
  let ?m = "json_map n (\<lambda>k. json_slice (ns k) JInt) (ac_Assignment x)"
  have "json_ok 1 ?m"
  proof (rule json_ok_map)
    fix k ps assume "(k, ps) \<in> set (ac_Assignment x)"
    then have "valid_utf8 k" using ok by (auto simp: assign_ok_def list_all_iff)
    moreover have "json_ok (Suc 1) (json_slice (ns k) JInt ps)" by (rule json_ok_slice) simp_all
    ultimately show "valid_utf8 k \<and> json_ok (Suc 1) (json_slice (ns k) JInt ps)" by blast
  qed simp
  then show "json_ok 0 (assign_json n ns x)"
    using ok by (simp add: assign_json_def assign_ok_def)
  let ?dec = "\<lambda>w. map_option fst (decode_slice decode_int32 0 ([], []) w)"
  have "?dec (json_slice (ns k) JInt ps) = Some ps" if "gm_get (ac_Assignment x) k = Some ps" for k ps
  proof -
    have "(k, ps) \<in> set (ac_Assignment x)" using that by (simp add: gm_get_def map_of_SomeD)
    then have "\<forall>i \<in> set ps. in_i32 i" using ok by (auto simp: assign_ok_def list_all_iff)
    then have "decode_slice decode_int32 0 ([], []) (json_slice (ns k) JInt ps) = Some (map (\<lambda>i. i) ps, [])"
      by (intro decode_slice_json_slice) simp
    then show ?thesis by simp
  qed
  then have "\<exists>m'. decode_map ?dec gm_empty ?m = Some m' \<and> gm_wf m' \<and>
      (\<forall>k. gm_get m' k = map_option (\<lambda>p. p) (gm_get (ac_Assignment x) k))"
    by (intro decode_map_json_map) (use ok in \<open>simp_all add: assign_ok_def\<close>)
  then show "\<exists>c. decode_struct assign_fields \<lparr>ac_GroupID = [], ac_Generation = 0, ac_Assignment = gm_empty\<rparr>
      (assign_json n ns x) = Some c \<and> assign_same x c"
    using ok by (auto simp: decode_struct_def assign_json_def assign_ok_def assign_same_def option.map_ident
        decode_string_def fun_eq_iff)
qed

lemma UnmarshalJoinCmd_MarshalCmd:
  "join_ok c \<Longrightarrow> UnmarshalJoinCmd (MarshalCmd (join_json n c)) = Some c"
  using join_wire.round_trip [of c n] by (auto simp: UnmarshalJoinCmd_def MarshalCmd_def)

lemma UnmarshalLeaveCmd_MarshalCmd:
  "leave_ok c \<Longrightarrow> UnmarshalLeaveCmd (MarshalCmd (leave_json c)) = Some c"
  using leave_wire.round_trip [of c] by (auto simp: UnmarshalLeaveCmd_def MarshalCmd_def)

lemma UnmarshalAssignCmd_MarshalCmd:
  "assign_ok c \<Longrightarrow> \<exists>d. UnmarshalAssignCmd (MarshalCmd (assign_json n ns c)) = Some d \<and> assign_same c d"
  using assign_wire.round_trip [of c n ns] by (simp add: UnmarshalAssignCmd_def MarshalCmd_def)

end
