(* ===== verification/Raft_Fsm.thy ===== *)
theory Raft_Fsm
  imports Raft_Commands
begin

text \<open>
  \<open>internal/raft/fsm.go\<close>: the state machine the node feeds its committed entries to, here the
  replicated table of consumer groups (\<open>GroupState\<close> in the byte_val, \<open>FsmGroups\<close> here to keep it apart
  from the consumer package's type of that name). A group pointer is the group's id. The
  interface \<open>FSM\<close> is the locale \<open>fsm\<close>; \<open>Raft_Node\<close> is its client.
\<close>

record MemberInfo =
  mi_ID :: string
  mi_Topics :: "string list"

record GroupInfo =
  gi_ID :: string
  gi_Generation :: int
  gi_Members :: "(string, MemberInfo) gomap"
  gi_Assignment :: "(string, int list) gomap"

record FsmGroups =
  Groups :: "(string, GroupInfo) gomap"

definition NewGroupState :: FsmGroups where
  "NewGroupState = \<lparr>Groups = gm_empty\<rparr>"

definition GetGroupInfo :: "FsmGroups \<Rightarrow> string \<Rightarrow> GroupInfo option" where
  "GetGroupInfo gs gid = gm_get (Groups gs) gid"

definition getOrCreate :: "FsmGroups \<Rightarrow> string \<Rightarrow> GroupInfo \<times> FsmGroups" where
  "getOrCreate gs gid =
     (case gm_get (Groups gs) gid of
        Some g \<Rightarrow> (g, gs)
      | None \<Rightarrow>
          let g = \<lparr>gi_ID = gid, gi_Generation = 0, gi_Members = gm_empty, gi_Assignment = gm_empty\<rparr>
          in (g, gs\<lparr>Groups := gm_put (Groups gs) gid g\<rparr>))"

definition apply_join :: "JoinGroupCmd \<Rightarrow> FsmGroups \<Rightarrow> FsmGroups" where
  "apply_join cmd gs =
     (let (g, gs1) = getOrCreate gs (jc_GroupID cmd);
          g' = g\<lparr>gi_Members := gm_put (gi_Members g) (jc_MemberID cmd)
                  \<lparr>mi_ID = jc_MemberID cmd, mi_Topics = jc_Topics cmd\<rparr>\<rparr>
      in gs1\<lparr>Groups := gm_put (Groups gs1) (jc_GroupID cmd) g'\<rparr>)"

definition apply_leave :: "LeaveGroupCmd \<Rightarrow> FsmGroups \<Rightarrow> FsmGroups" where
  "apply_leave cmd gs =
     (case gm_get (Groups gs) (lc_GroupID cmd) of
        None \<Rightarrow> gs
      | Some g \<Rightarrow>
          let g' = g\<lparr>gi_Members := gm_del (gi_Members g) (lc_MemberID cmd),
                    gi_Assignment := gm_del (gi_Assignment g) (lc_MemberID cmd)\<rparr>
          in gs\<lparr>Groups := gm_put (Groups gs) (lc_GroupID cmd) g'\<rparr>)"

definition apply_assign :: "AssignGroupCmd \<Rightarrow> FsmGroups \<Rightarrow> FsmGroups" where
  "apply_assign cmd gs =
     (let (g, gs1) = getOrCreate gs (ac_GroupID cmd);
          g' = g\<lparr>gi_Generation := ac_Generation cmd, gi_Assignment := ac_Assignment cmd\<rparr>
      in gs1\<lparr>Groups := gm_put (Groups gs1) (ac_GroupID cmd) g'\<rparr>)"

definition Fsm_Apply :: "LogEntry \<Rightarrow> FsmGroups \<Rightarrow> FsmGroups" where
  "Fsm_Apply entry gs =
     (if le_Type entry = EntryJoinGroup then
        (case UnmarshalJoinCmd (le_Data entry) of None \<Rightarrow> gs | Some cmd \<Rightarrow> apply_join cmd gs)
      else if le_Type entry = EntryLeaveGroup then
        (case UnmarshalLeaveCmd (le_Data entry) of None \<Rightarrow> gs | Some cmd \<Rightarrow> apply_leave cmd gs)
      else if le_Type entry = EntryAssignGroup then
        (case UnmarshalAssignCmd (le_Data entry) of None \<Rightarrow> gs | Some cmd \<Rightarrow> apply_assign cmd gs)
      else gs)"

section \<open>The interface of a state machine\<close>

locale fsm =
  fixes apply_entry :: "LogEntry \<Rightarrow> 's \<Rightarrow> 's"
    and inv :: "'s \<Rightarrow> bool"
  assumes apply_inv: "inv s \<Longrightarrow> inv (apply_entry e s)"
begin

lemma replay_inv: "inv s \<Longrightarrow> inv (fold apply_entry es s)"
  by (induction es arbitrary: s) (auto intro: apply_inv)

text \<open>Applying in instalments is applying at once: what a restarted or late replica relies on.\<close>

lemma replay_append: "fold apply_entry (es @ fs) s = fold apply_entry fs (fold apply_entry es s)"
  by simp

end

text \<open>Every group is stored under its own id, and its maps are maps.\<close>

definition fsm_groups_inv :: "FsmGroups \<Rightarrow> bool" where
  "fsm_groups_inv gs \<longleftrightarrow> gm_wf (Groups gs) \<and>
     (\<forall>gid g. gm_get (Groups gs) gid = Some g \<longrightarrow>
        gi_ID g = gid \<and> gm_wf (gi_Members g) \<and>
        (\<forall>mid m. gm_get (gi_Members g) mid = Some m \<longrightarrow> mi_ID m = mid))"

lemma fsm_groups_invD:
  "fsm_groups_inv gs \<Longrightarrow> gm_get (Groups gs) gid = Some g \<Longrightarrow>
     gi_ID g = gid \<and> gm_wf (gi_Members g) \<and>
     (\<forall>mid m. gm_get (gi_Members g) mid = Some m \<longrightarrow> mi_ID m = mid)"
  by (simp add: fsm_groups_inv_def)

lemma fsm_groups_inv_put:
  assumes "fsm_groups_inv gs" "gi_ID g = gid" "gm_wf (gi_Members g)"
    "\<And>mid m. gm_get (gi_Members g) mid = Some m \<Longrightarrow> mi_ID m = mid"
  shows "fsm_groups_inv (gs\<lparr>Groups := gm_put (Groups gs) gid g\<rparr>)"
  using assms by (auto simp: fsm_groups_inv_def split: if_splits)

lemma getOrCreate_inv:
  assumes "fsm_groups_inv gs" "getOrCreate gs gid = (g, gs')"
  shows "fsm_groups_inv gs' \<and> gi_ID g = gid \<and> gm_wf (gi_Members g) \<and>
    (\<forall>mid m. gm_get (gi_Members g) mid = Some m \<longrightarrow> mi_ID m = mid)"
proof (cases "gm_get (Groups gs) gid")
  case None
  then have g: "g = \<lparr>gi_ID = gid, gi_Generation = 0, gi_Members = gm_empty, gi_Assignment = gm_empty\<rparr>"
    "gs' = gs\<lparr>Groups := gm_put (Groups gs) gid g\<rparr>"
    using assms(2) by (auto simp: getOrCreate_def Let_def)
  have "fsm_groups_inv gs'" unfolding g(2) by (rule fsm_groups_inv_put) (use assms(1) g(1) in simp_all)
  with g(1) show ?thesis by simp
next
  case (Some h)
  then show ?thesis using assms fsm_groups_invD [OF assms(1) Some] by (auto simp: getOrCreate_def)
qed

lemma apply_join_inv:
  assumes inv: "fsm_groups_inv gs"
  shows "fsm_groups_inv (apply_join cmd gs)"
proof -
  obtain g gs1 where g: "getOrCreate gs (jc_GroupID cmd) = (g, gs1)" by fastforce
  note i = getOrCreate_inv [OF inv g]
  show ?thesis
    unfolding apply_join_def g Let_def prod.case
    by (rule fsm_groups_inv_put) (use i in \<open>auto split: if_splits\<close>)
qed

lemma apply_leave_inv:
  assumes inv: "fsm_groups_inv gs"
  shows "fsm_groups_inv (apply_leave cmd gs)"
proof (cases "gm_get (Groups gs) (lc_GroupID cmd)")
  case (Some g)
  show ?thesis
    unfolding apply_leave_def Some option.case Let_def
    by (rule fsm_groups_inv_put) (use fsm_groups_invD [OF inv Some] inv in \<open>auto split: if_splits\<close>)
qed (use inv in \<open>simp add: apply_leave_def\<close>)

lemma apply_assign_inv:
  assumes inv: "fsm_groups_inv gs"
  shows "fsm_groups_inv (apply_assign cmd gs)"
proof -
  obtain g gs1 where g: "getOrCreate gs (ac_GroupID cmd) = (g, gs1)" by fastforce
  note i = getOrCreate_inv [OF inv g]
  show ?thesis
    unfolding apply_assign_def g Let_def prod.case
    by (rule fsm_groups_inv_put) (use i in auto)
qed

interpretation groups_fsm: fsm Fsm_Apply fsm_groups_inv
  by unfold_locales
    (simp add: Fsm_Apply_def apply_join_inv apply_leave_inv apply_assign_inv split: option.splits)

section \<open>The replicated group table\<close>

text \<open>
  The specification: per group its generation, the topics of its members and their partitions, as
  functions, and what a command does to them.
\<close>

record group_view =
  gv_Generation :: int
  gv_Topics :: "string \<Rightarrow> string list option"
  gv_Assignment :: "string \<Rightarrow> int list option"

type_synonym group_table = "string \<Rightarrow> group_view option"

definition view_of :: "GroupInfo \<Rightarrow> group_view" where
  "view_of g = \<lparr>gv_Generation = gi_Generation g,
     gv_Topics = (\<lambda>m. map_option mi_Topics (gm_get (gi_Members g) m)),
     gv_Assignment = gm_get (gi_Assignment g)\<rparr>"

definition abs_groups :: "FsmGroups \<Rightarrow> group_table" where
  "abs_groups gs gid = map_option view_of (GetGroupInfo gs gid)"

datatype group_cmd = Join_cmd JoinGroupCmd | Leave_cmd LeaveGroupCmd | Assign_cmd AssignGroupCmd

definition view_at :: "group_table \<Rightarrow> string \<Rightarrow> group_view" where
  "view_at t gid =
     (case t gid of
        None \<Rightarrow> \<lparr>gv_Generation = 0, gv_Topics = (\<lambda>_. None), gv_Assignment = (\<lambda>_. None)\<rparr>
      | Some v \<Rightarrow> v)"

fun spec_command :: "group_cmd \<Rightarrow> group_table \<Rightarrow> group_table" where
  "spec_command (Join_cmd c) t =
     (let v = view_at t (jc_GroupID c) in
      t(jc_GroupID c \<mapsto> v\<lparr>gv_Topics := (gv_Topics v)(jc_MemberID c \<mapsto> jc_Topics c)\<rparr>))"
| "spec_command (Leave_cmd c) t =
     (case t (lc_GroupID c) of
        None \<Rightarrow> t
      | Some v \<Rightarrow> t(lc_GroupID c \<mapsto> v\<lparr>gv_Topics := (gv_Topics v)(lc_MemberID c := None),
                                     gv_Assignment := (gv_Assignment v)(lc_MemberID c := None)\<rparr>))"
| "spec_command (Assign_cmd c) t =
     t(ac_GroupID c \<mapsto> (view_at t (ac_GroupID c))
         \<lparr>gv_Generation := ac_Generation c, gv_Assignment := gm_get (ac_Assignment c)\<rparr>)"

text \<open>The command of an entry; an entry of another type, or one that cannot be decoded, has none.\<close>

definition entry_command :: "LogEntry \<Rightarrow> group_cmd option" where
  "entry_command e =
     (if le_Type e = EntryJoinGroup then map_option Join_cmd (UnmarshalJoinCmd (le_Data e))
      else if le_Type e = EntryLeaveGroup then map_option Leave_cmd (UnmarshalLeaveCmd (le_Data e))
      else if le_Type e = EntryAssignGroup then map_option Assign_cmd (UnmarshalAssignCmd (le_Data e))
      else None)"

lemma entry_types [simp]:
  "EntryLeaveGroup \<noteq> EntryJoinGroup" "EntryAssignGroup \<noteq> EntryJoinGroup"
  "EntryAssignGroup \<noteq> EntryLeaveGroup" "EntryNoop \<noteq> EntryJoinGroup" "EntryNoop \<noteq> EntryLeaveGroup"
  "EntryNoop \<noteq> EntryAssignGroup"
  by (simp_all add: EntryJoinGroup_def EntryLeaveGroup_def EntryAssignGroup_def EntryNoop_def)

lemma abs_groups_put:
  "abs_groups (gs\<lparr>Groups := gm_put (Groups gs) gid g\<rparr>) = (abs_groups gs)(gid \<mapsto> view_of g)"
  by (simp add: fun_eq_iff abs_groups_def GetGroupInfo_def)

lemma abs_groups_getOrCreate:
  assumes "getOrCreate gs gid = (g, gs1)"
  shows "view_of g = view_at (abs_groups gs) gid"
    and "abs_groups (gs1\<lparr>Groups := gm_put (Groups gs1) gid h\<rparr>) = (abs_groups gs)(gid \<mapsto> view_of h)"
  using assms unfolding abs_groups_put
  by (auto simp: getOrCreate_def Let_def abs_groups_put abs_groups_def view_at_def GetGroupInfo_def view_of_def
      fun_eq_iff split: option.splits)

lemma apply_join_abs: "abs_groups (apply_join c gs) = spec_command (Join_cmd c) (abs_groups gs)"
proof -
  obtain g gs1 where g: "getOrCreate gs (jc_GroupID c) = (g, gs1)" by fastforce
  have "view_of (g\<lparr>gi_Members := gm_put (gi_Members g) m \<lparr>mi_ID = m, mi_Topics = ts\<rparr>\<rparr>) =
      (view_of g)\<lparr>gv_Topics := (gv_Topics (view_of g))(m \<mapsto> ts)\<rparr>" for m ts
    by (simp add: view_of_def fun_eq_iff)
  then show ?thesis
    by (simp add: apply_join_def g abs_groups_getOrCreate [OF g] Let_def)
qed

lemma apply_assign_abs: "abs_groups (apply_assign c gs) = spec_command (Assign_cmd c) (abs_groups gs)"
proof -
  obtain g gs1 where g: "getOrCreate gs (ac_GroupID c) = (g, gs1)" by fastforce
  have "view_of (g\<lparr>gi_Generation := n, gi_Assignment := a\<rparr>) =
      (view_of g)\<lparr>gv_Generation := n, gv_Assignment := gm_get a\<rparr>" for n a
    by (simp add: view_of_def)
  then show ?thesis
    by (simp add: apply_assign_def g abs_groups_getOrCreate [OF g] Let_def)
qed

lemma apply_leave_abs: "abs_groups (apply_leave c gs) = spec_command (Leave_cmd c) (abs_groups gs)"
proof (cases "gm_get (Groups gs) (lc_GroupID c)")
  case None
  then show ?thesis by (simp add: apply_leave_def abs_groups_def GetGroupInfo_def)
next
  case (Some g)
  have "view_of (g\<lparr>gi_Members := gm_del (gi_Members g) m, gi_Assignment := gm_del (gi_Assignment g) m\<rparr>) =
      (view_of g)\<lparr>gv_Topics := (gv_Topics (view_of g))(m := None),
        gv_Assignment := (gv_Assignment (view_of g))(m := None)\<rparr>" for m
    by (simp add: view_of_def fun_eq_iff)
  moreover have "abs_groups gs (lc_GroupID c) = Some (view_of g)"
    by (simp add: abs_groups_def GetGroupInfo_def Some)
  ultimately show ?thesis
    by (simp add: apply_leave_def Some abs_groups_put Let_def)
qed

lemma Fsm_Apply_abs:
  "abs_groups (Fsm_Apply e gs) =
     (case entry_command e of None \<Rightarrow> abs_groups gs | Some c \<Rightarrow> spec_command c (abs_groups gs))"
  by (simp add: Fsm_Apply_def entry_command_def apply_join_abs apply_leave_abs apply_assign_abs
      del: spec_command.simps split: option.split)

lemma abs_groups_New: "abs_groups NewGroupState = (\<lambda>_. None)"
  by (simp add: fun_eq_iff abs_groups_def GetGroupInfo_def NewGroupState_def)

lemma replay_abs:
  "abs_groups (fold Fsm_Apply es gs) = fold spec_command (List.map_filter entry_command es) (abs_groups gs)"
proof (induction es arbitrary: gs)
  case (Cons e es)
  show ?case
    by (cases "entry_command e") (simp_all add: Cons.IH Fsm_Apply_abs map_filter_simps)
qed (simp add: map_filter_simps)

text \<open>
  C28: after any sequence of committed entries, undecodable ones included, the state machine holds
  the table of groups that the decoded commands build one after the other: the generations, the
  members with the topics of their last join, and the assignments.
\<close>

theorem fsm_refines_group_table:
  "abs_groups (fold Fsm_Apply es NewGroupState) =
     fold spec_command (List.map_filter entry_command es) (\<lambda>_. None)"
  unfolding replay_abs abs_groups_New ..

section \<open>Commands through the log\<close>

fun cmd_ok :: "group_cmd \<Rightarrow> bool" where
  "cmd_ok (Join_cmd c) = join_ok c"
| "cmd_ok (Leave_cmd c) = leave_ok c"
| "cmd_ok (Assign_cmd c) = assign_ok c"

text \<open>An entry that carries a command, in the term \<open>t\<close>; \<open>n\<close> and \<open>ns\<close> tell the nil slices.\<close>

fun cmd_entry :: "int \<Rightarrow> bool \<Rightarrow> (string \<Rightarrow> bool) \<Rightarrow> group_cmd \<Rightarrow> LogEntry" where
  "cmd_entry t n ns (Join_cmd c) =
     \<lparr>le_Term = t, le_Index = 0, le_Type = EntryJoinGroup, le_Data = MarshalCmd (join_json n c)\<rparr>"
| "cmd_entry t n ns (Leave_cmd c) =
     \<lparr>le_Term = t, le_Index = 0, le_Type = EntryLeaveGroup, le_Data = MarshalCmd (leave_json c)\<rparr>"
| "cmd_entry t n ns (Assign_cmd c) =
     \<lparr>le_Term = t, le_Index = 0, le_Type = EntryAssignGroup, le_Data = MarshalCmd (assign_json n ns c)\<rparr>"

lemma entry_command_Index [simp]: "entry_command (e\<lparr>le_Index := i\<rparr>) = entry_command e"
  by (simp add: entry_command_def)

lemma entry_command_cmd_entry:
  assumes "cmd_ok c"
  shows "\<exists>d. entry_command (cmd_entry t n ns c) = Some d \<and> spec_command d = spec_command c"
proof (cases c)
  case (Join_cmd j)
  then show ?thesis using assms by (simp add: entry_command_def UnmarshalJoinCmd_MarshalCmd)
next
  case (Leave_cmd l)
  then show ?thesis using assms by (simp add: entry_command_def UnmarshalLeaveCmd_MarshalCmd)
next
  case (Assign_cmd a)
  then obtain d where "UnmarshalAssignCmd (MarshalCmd (assign_json n ns a)) = Some d" "assign_same a d"
    using assms UnmarshalAssignCmd_MarshalCmd [of a n ns] by auto
  then show ?thesis using Assign_cmd
    by (auto simp: entry_command_def assign_same_def fun_eq_iff)
qed

lemma rl_entries_Appends:
  "map (le_Index_update (\<lambda>_. 0)) (rl_entries (foldl Log_Append l es)) =
     map (le_Index_update (\<lambda>_. 0)) (rl_entries l @ es)"
  by (induction es arbitrary: l) (simp_all add: Log_Append_def)

lemma map_filter_reindexed:
  "map (le_Index_update (\<lambda>_. 0)) xs = map (le_Index_update (\<lambda>_. 0)) ys \<Longrightarrow>
     List.map_filter entry_command xs = List.map_filter entry_command ys"
proof (induction xs arbitrary: ys)
  case (Cons x xs)
  then obtain y zs where ys: "ys = y # zs" "le_Index_update (\<lambda>_. 0) x = le_Index_update (\<lambda>_. 0) y"
    "map (le_Index_update (\<lambda>_. 0)) xs = map (le_Index_update (\<lambda>_. 0)) zs"
    by (cases ys) auto
  from ys(2) have "entry_command x = entry_command y" by (metis entry_command_Index)
  then show ?case using Cons.IH [OF ys(3)] by (simp add: ys(1) map_filter_simps split: option.split)
qed (simp add: map_filter_simps)

lemma command_list:
  "list_all cmd_ok (map (\<lambda>(t, n, ns, c). c) ops) \<Longrightarrow>
     fold spec_command (List.map_filter entry_command (map (\<lambda>(t, n, ns, c). cmd_entry t n ns c) ops)) tab =
     fold spec_command (map (\<lambda>(t, n, ns, c). c) ops) tab"
proof (induction ops arbitrary: tab)
  case (Cons x ops)
  obtain t n ns c where x: "x = (t, n, ns, c)" by (cases x) auto
  obtain d where "entry_command (cmd_entry t n ns c) = Some d" "spec_command d = spec_command c"
    using entry_command_cmd_entry [of c t n ns] Cons(2) x by auto
  then show ?case using Cons by (simp add: x map_filter_simps del: spec_command.simps)
qed (simp add: map_filter_simps)

text \<open>
  C29: group commands that are marshalled, appended to a log one after the other and replayed from
  it into a new state machine leave the table of groups that the commands themselves build, if their
  strings are UTF-8 and their numbers are 32 bits wide.
\<close>

theorem group_commands_survive_the_log:
  assumes "list_all cmd_ok (map (\<lambda>(t, n, ns, c). c) ops)"
    "log = foldl Log_Append newRaftLog (map (\<lambda>(t, n, ns, c). cmd_entry t n ns c) ops)"
  shows "abs_groups (fold Fsm_Apply (rl_entries log) NewGroupState) =
    fold spec_command (map (\<lambda>(t, n, ns, c). c) ops) (\<lambda>_. None)"
proof -
  let ?es = "map (\<lambda>(t, n, ns, c). cmd_entry t n ns c) ops"
  have "List.map_filter entry_command (rl_entries log) =
      List.map_filter entry_command (rl_entries newRaftLog @ ?es)"
    unfolding assms(2) by (rule map_filter_reindexed [OF rl_entries_Appends])
  also have "\<dots> = List.map_filter entry_command ?es"
    by (simp add: newRaftLog_def entry_command_def map_filter_simps)
  finally show ?thesis
    unfolding replay_abs abs_groups_New by (simp only: command_list [OF assms(1)])
qed

definition ex_ops :: "(int \<times> bool \<times> (string \<Rightarrow> bool) \<times> group_cmd) list" where
  "ex_ops =
     [(1, False, \<lambda>_. False, Join_cmd \<lparr>jc_GroupID = ''g'', jc_MemberID = ''a'', jc_Topics = [''t'']\<rparr>),
      (1, True, \<lambda>_. False, Join_cmd \<lparr>jc_GroupID = ''g'', jc_MemberID = ''b'', jc_Topics = []\<rparr>),
      (1, False, \<lambda>k. k = ''b'', Assign_cmd \<lparr>ac_GroupID = ''g'', ac_Generation = 1,
          ac_Assignment = [(''b'', []), (''a'', [0, 1])]\<rparr>),
      (2, False, \<lambda>_. False, Leave_cmd \<lparr>lc_GroupID = ''g'', lc_MemberID = ''b''\<rparr>)]"

theorem group_commands_survive_the_log_witness:
  "\<exists>log. log = foldl Log_Append newRaftLog (map (\<lambda>(t, n, ns, c). cmd_entry t n ns c) ex_ops) \<and>
     map_option (\<lambda>v. (gv_Generation v, gv_Topics v ''a'', gv_Topics v ''b'', gv_Assignment v ''a'', gv_Assignment v ''b''))
       (abs_groups (fold Fsm_Apply (rl_entries log) NewGroupState) ''g'') =
     Some (1, Some [''t''], None, Some [0, 1], None)"
proof -
  have v: "valid_utf8 ''g''" "valid_utf8 ''a''" "valid_utf8 ''b''" "valid_utf8 ''t''"
    by (rule valid_utf8_ascii, simp add: byte_val_def)+
  have "list_all cmd_ok (map (\<lambda>(t, n, ns, c). c) ex_ops)"
    by (simp add: ex_ops_def v join_ok_def leave_ok_def assign_ok_def in_i32_def gm_wf_def gm_keys_def)
  from group_commands_survive_the_log [OF this refl] show ?thesis
    by (simp add: ex_ops_def view_at_def gm_get_def)
qed

end
