(* ===== verification/Raft_Node.thy ===== *)
theory Raft_Node
  imports Raft_Fsm
begin

text \<open>
  \<open>internal/raft/node.go\<close>: one Raft node. A node is parametric in the state of its state machine
  (type variable \<open>'s\<close>); \<open>applyLoop\<close> takes the machine's \<open>Apply\<close> as an argument. Every handler and
  every body of a loop is a function on the node; a read from an empty log panics (\<open>None\<close>).
  The channels are flags or bounded queues: \<open>resetElectionCh\<close> has capacity 1, \<open>proposeCh\<close> and
  \<open>commitCh\<close> have capacity 256. What the node and its peers do together is in \<open>Raft_Cluster\<close>.
\<close>

section \<open>Messages\<close>

record RequestVoteRequest =
  rq_Term :: int
  rq_CandidateId :: int
  rq_LastLogIndex :: int
  rq_LastLogTerm :: int

record RequestVoteResponse =
  rv_Term :: int
  rv_VoteGranted :: bool

record AppendEntriesRequest =
  aq_Term :: int
  aq_LeaderId :: int
  aq_PrevLogIndex :: int
  aq_PrevLogTerm :: int
  aq_Entries :: "LogEntry list"
  aq_LeaderCommit :: int

record AppendEntriesResponse =
  ae_Term :: int
  ae_Success :: bool

section \<open>The node\<close>

datatype NodeState = Follower | Candidate | Leader

record 's Node =
  n_id :: int
  n_state :: NodeState
  n_currentTerm :: int
  n_votedFor :: int
  n_leaderID :: int
  n_log :: RaftLog
  n_commitIndex :: int
  n_lastApplied :: int
  n_peers :: "(int, string) gomap"
  n_fsm :: 's
  n_nextIndex :: "(int, int) gomap"
  n_matchIndex :: "(int, int) gomap"
  n_resetElectionCh :: bool
  n_proposeCh :: "LogEntry list"
  n_commitCh :: "LogEntry list"
  n_stopped :: bool
  n_heartbeatLoops :: nat

text \<open>\<open>dial addr\<close> tells whether \<open>grpc.NewClient\<close> accepts the address.\<close>

fun connect_peers :: "(string \<Rightarrow> bool) \<Rightarrow> (int \<times> string) list \<Rightarrow> (int, string) gomap \<Rightarrow>
    (int, string) gomap option" where
  "connect_peers dial [] acc = Some acc"
| "connect_peers dial ((pid, addr) # ps) acc =
     (if dial addr then connect_peers dial ps (gm_put acc pid addr) else None)"

definition NewNode :: "(string \<Rightarrow> bool) \<Rightarrow> int \<Rightarrow> (int, string) gomap \<Rightarrow> 's \<Rightarrow> go_error + 's Node" where
  "NewNode dial nid peerAddrs machine =
     (case connect_peers dial peerAddrs gm_empty of
        None \<Rightarrow> Inl ErrIO
      | Some ps \<Rightarrow> Inr
          \<lparr>n_id = nid, n_state = Follower, n_currentTerm = 0, n_votedFor = -1, n_leaderID = 0,
           n_log = newRaftLog, n_commitIndex = 0, n_lastApplied = 0, n_peers = ps, n_fsm = machine,
           n_nextIndex = gm_empty, n_matchIndex = gm_empty, n_resetElectionCh = False,
           n_proposeCh = [], n_commitCh = [], n_stopped = False, n_heartbeatLoops = 0\<rparr>)"

text \<open>\<open>Stop\<close> closes \<open>stopCh\<close>; closing it again panics.\<close>

definition Node_Stop :: "'s Node \<Rightarrow> 's Node option" where
  "Node_Stop n = (if n_stopped n then None else Some (n\<lparr>n_stopped := True\<rparr>))"

definition IsLeader :: "'s Node \<Rightarrow> bool" where
  "IsLeader n \<longleftrightarrow> n_state n = Leader"

text \<open>
  \<open>Propose\<close>: \<open>None\<close> while the queue is full and the node is running, when the call blocks. On a
  stopped node with room in the queue \<open>select\<close> may take either branch: \<open>pickStop\<close> says which.
\<close>

definition Propose :: "bool \<Rightarrow> 's Node \<Rightarrow> EntryType \<Rightarrow> bytes \<Rightarrow> (go_error option \<times> 's Node) option" where
  "Propose pickStop n ty dat =
     (let entry = \<lparr>le_Term = n_currentTerm n, le_Index = 0, le_Type = ty, le_Data = dat\<rparr>;
          room = length (n_proposeCh n) < 256 in
      if n_stopped n \<and> (pickStop \<or> \<not> room) then Some (Some (Errorf ''context canceled''), n)
      else if room then Some (None, n\<lparr>n_proposeCh := n_proposeCh n @ [entry]\<rparr>)
      else None)"

section \<open>Changing role\<close>

definition becomeFollower :: "'s Node \<Rightarrow> int \<Rightarrow> 's Node" where
  "becomeFollower n trm =
     n\<lparr>n_currentTerm := trm, n_state := Follower, n_votedFor := -1, n_resetElectionCh := True\<rparr>"

fun set_peers :: "int list \<Rightarrow> int \<Rightarrow> (int, int) gomap \<Rightarrow> (int, int) gomap" where
  "set_peers [] v m = m"
| "set_peers (p # ps) v m = set_peers ps v (gm_put m p v)"

definition becomeLeader :: "'s Node \<Rightarrow> 's Node" where
  "becomeLeader n =
     (let lastIdx = LastIndex (n_log n); ps = gm_keys (n_peers n) in
      n\<lparr>n_state := Leader, n_leaderID := n_id n,
        n_nextIndex := set_peers ps (lastIdx + 1) (n_nextIndex n),
        n_matchIndex := set_peers ps 0 (n_matchIndex n),
        n_heartbeatLoops := Suc (n_heartbeatLoops n)\<rparr>)"

section \<open>Elections\<close>

text \<open>The variables of one call of \<open>startElection\<close> that its goroutines share.\<close>

record Election =
  el_term :: int
  el_votes :: int
  el_won :: bool

definition vote_majority :: "'s Node \<Rightarrow> int" where
  "vote_majority n = i32 (int (length (n_peers n)) div 2 + 1)"

definition startElection_begin :: "'s Node \<Rightarrow> 's Node \<times> Election" where
  "startElection_begin n =
     (let trm = i64 (n_currentTerm n + 1) in
      (n\<lparr>n_currentTerm := trm, n_state := Candidate, n_votedFor := n_id n\<rparr>,
       \<lparr>el_term = trm, el_votes = 1, el_won = False\<rparr>))"

definition vote_request :: "'s Node \<Rightarrow> Election \<Rightarrow> RequestVoteRequest option" where
  "vote_request n el =
     (case LastTerm (n_log n) of
        None \<Rightarrow> None
      | Some lastTerm \<Rightarrow> Some
          \<lparr>rq_Term = el_term el, rq_CandidateId = n_id n,
           rq_LastLogIndex = LastIndex (n_log n), rq_LastLogTerm = lastTerm\<rparr>)"

text \<open>The end of a goroutine of \<open>startElection\<close>; a failed or timed-out call is no response.\<close>

definition vote_reply :: "'s Node \<Rightarrow> Election \<Rightarrow> RequestVoteResponse option \<Rightarrow> 's Node \<times> Election" where
  "vote_reply n el resp =
     (case resp of
        None \<Rightarrow> (n, el)
      | Some r \<Rightarrow>
          if rv_Term r > el_term el then (becomeFollower n (rv_Term r), el)
          else if rv_VoteGranted r then
            let votes = i32 (el_votes el + 1) in
            if \<not> el_won el \<and> votes \<ge> vote_majority n
            then (becomeLeader n, el\<lparr>el_votes := votes, el_won := True\<rparr>)
            else (n, el\<lparr>el_votes := votes\<rparr>)
          else (n, el))"

fun vote_replies :: "'s Node \<Rightarrow> Election \<Rightarrow> RequestVoteResponse option list \<Rightarrow> 's Node \<times> Election" where
  "vote_replies n el [] = (n, el)"
| "vote_replies n el (r # rs) = (case vote_reply n el r of (n', el') \<Rightarrow> vote_replies n' el' rs)"

text \<open>\<open>startElection\<close> when nothing else runs, with the replies in the order they arrive.\<close>

definition startElection :: "'s Node \<Rightarrow> RequestVoteResponse option list \<Rightarrow> 's Node" where
  "startElection n rs = (case startElection_begin n of (n1, el) \<Rightarrow> fst (vote_replies n1 el rs))"

text \<open>
  The handler \<open>RequestVote\<close>, split where another handler can run: it decides from values it has
  loaded, then stores its vote. \<open>None\<close> is the panic of \<open>LastTerm\<close> on an empty log.
\<close>

definition RequestVote_decide :: "'s Node \<Rightarrow> RequestVoteRequest \<Rightarrow> (RequestVoteResponse \<times> 's Node) option" where
  "RequestVote_decide n req =
     (let n1 = (if rq_Term req > n_currentTerm n then becomeFollower n (rq_Term req) else n);
          currentTerm = (if rq_Term req > n_currentTerm n then rq_Term req else n_currentTerm n);
          votedFor = n_votedFor n1;
          lastIdx = LastIndex (n_log n1)
      in case LastTerm (n_log n1) of
        None \<Rightarrow> None
      | Some lastTerm \<Rightarrow>
          let grant = (rq_Term req \<ge> currentTerm \<and>
                (votedFor = -1 \<or> votedFor = rq_CandidateId req) \<and>
                (rq_LastLogTerm req > lastTerm \<or>
                 rq_LastLogTerm req = lastTerm \<and> rq_LastLogIndex req \<ge> lastIdx))
          in Some (\<lparr>rv_Term = currentTerm, rv_VoteGranted = grant\<rparr>, n1))"

definition RequestVote_store :: "'s Node \<Rightarrow> RequestVoteRequest \<Rightarrow> RequestVoteResponse \<Rightarrow> 's Node" where
  "RequestVote_store n req resp =
     (if rv_VoteGranted resp
      then n\<lparr>n_votedFor := rq_CandidateId req, n_resetElectionCh := True\<rparr> else n)"

definition RequestVote :: "'s Node \<Rightarrow> RequestVoteRequest \<Rightarrow> (RequestVoteResponse \<times> 's Node) option" where
  "RequestVote n req =
     (case RequestVote_decide n req of
        None \<Rightarrow> None
      | Some (resp, n1) \<Rightarrow> Some (resp, RequestVote_store n1 req resp))"

section \<open>Replication\<close>

definition AppendEntries :: "'s Node \<Rightarrow> AppendEntriesRequest \<Rightarrow> (AppendEntriesResponse \<times> 's Node) option" where
  "AppendEntries n req =
     (let currentTerm = n_currentTerm n in
      if aq_Term req < currentTerm then Some (\<lparr>ae_Term = currentTerm, ae_Success = False\<rparr>, n)
      else
        let n1 = (if aq_Term req > currentTerm then becomeFollower n (aq_Term req) else n);
            n2 = n1\<lparr>n_leaderID := aq_LeaderId req, n_resetElectionCh := True\<rparr>
        in case Log_AppendEntries (n_log n2) (aq_PrevLogIndex req) (aq_Entries req) of
          None \<Rightarrow> None
        | Some (ok, l) \<Rightarrow>
            let n3 = n2\<lparr>n_log := l\<rparr>;
                newCommit = (if LastIndex l < aq_LeaderCommit req then LastIndex l
                             else aq_LeaderCommit req);
                n4 = (if ok \<and> aq_LeaderCommit req > n_commitIndex n3
                      then n3\<lparr>n_commitIndex := newCommit\<rparr> else n3)
            in Some (\<lparr>ae_Term = currentTerm, ae_Success = ok\<rparr>, n4))"

definition peer_index :: "(int, int) gomap \<Rightarrow> int \<Rightarrow> int" where
  "peer_index m p = (case gm_get m p of None \<Rightarrow> 0 | Some i \<Rightarrow> i)"

text \<open>The first half of \<open>replicateToPeer\<close>: the request sent.\<close>

definition replicate_request :: "'s Node \<Rightarrow> int \<Rightarrow> AppendEntriesRequest option" where
  "replicate_request n p =
     (let nextIdx = peer_index (n_nextIndex n) p;
          prevIdx = nextIdx - 1;
          prevEntry = fst (Log_Entry (n_log n) prevIdx)
      in case EntriesFrom (n_log n) nextIdx of
        None \<Rightarrow> None
      | Some es \<Rightarrow> Some
          \<lparr>aq_Term = n_currentTerm n, aq_LeaderId = n_id n, aq_PrevLogIndex = prevIdx,
           aq_PrevLogTerm = le_Term prevEntry, aq_Entries = es, aq_LeaderCommit = n_commitIndex n\<rparr>)"

fun count_matches :: "int \<Rightarrow> (int \<times> int) list \<Rightarrow> int \<Rightarrow> int" where
  "count_matches idx [] cnt = cnt"
| "count_matches idx ((p, m) # ms) cnt = count_matches idx ms (if m \<ge> idx then cnt + 1 else cnt)"

definition commit_majority :: "'s Node \<Rightarrow> int" where
  "commit_majority n = int (length (n_peers n)) div 2 + 1"

function maybeCommit_loop :: "'s Node \<Rightarrow> int \<Rightarrow> 's Node" where
  "maybeCommit_loop n idx =
     (if idx \<le> n_commitIndex n then n
      else let (entry, ok) = Log_Entry (n_log n) idx in
        if \<not> ok \<or> le_Term entry \<noteq> n_currentTerm n then maybeCommit_loop n (idx - 1)
        else if count_matches idx (n_matchIndex n) 1 \<ge> commit_majority n
        then n\<lparr>n_commitIndex := idx\<rparr>
        else maybeCommit_loop n (idx - 1))"
  by pat_completeness auto

termination
  by (relation "measure (\<lambda>(n, idx). nat (idx - n_commitIndex n))") auto

declare maybeCommit_loop.simps [simp del]

definition maybeCommit :: "'s Node \<Rightarrow> 's Node" where
  "maybeCommit n = maybeCommit_loop n (LastIndex (n_log n))"

text \<open>The second half of \<open>replicateToPeer\<close>: the response to a request with \<open>sent\<close> entries.\<close>

definition replicate_reply :: "'s Node \<Rightarrow> int \<Rightarrow> nat \<Rightarrow> AppendEntriesResponse option \<Rightarrow> 's Node" where
  "replicate_reply n p sent resp =
     (case resp of
        None \<Rightarrow> n
      | Some r \<Rightarrow>
          if ae_Term r > n_currentTerm n then becomeFollower n (ae_Term r)
          else if ae_Success r \<and> 0 < sent then
            maybeCommit (n\<lparr>n_nextIndex := gm_put (n_nextIndex n) p (LastIndex (n_log n) + 1),
                           n_matchIndex := gm_put (n_matchIndex n) p (LastIndex (n_log n))\<rparr>)
          else if \<not> ae_Success r then
            (if peer_index (n_nextIndex n) p > 1
             then n\<lparr>n_nextIndex := gm_put (n_nextIndex n) p (peer_index (n_nextIndex n) p - 1)\<rparr>
             else n)
          else n)"

section \<open>Loops\<close>

text \<open>
  The cases of \<open>electionLoop\<close>'s \<open>select\<close>. A proposal taken on a leader is appended and then
  replicated to every peer; on any other node it is dropped. \<open>None\<close> means the case is not ready.
\<close>

definition electionLoop_reset :: "'s Node \<Rightarrow> 's Node option" where
  "electionLoop_reset n = (if n_resetElectionCh n then Some (n\<lparr>n_resetElectionCh := False\<rparr>) else None)"

definition electionLoop_timeout :: "'s Node \<Rightarrow> RequestVoteResponse option list \<Rightarrow> 's Node" where
  "electionLoop_timeout n rs = (if n_state n \<noteq> Leader then startElection n rs else n)"

definition electionLoop_propose :: "'s Node \<Rightarrow> 's Node option" where
  "electionLoop_propose n =
     (case n_proposeCh n of
        [] \<Rightarrow> None
      | entry # rest \<Rightarrow>
          let n1 = n\<lparr>n_proposeCh := rest\<rparr> in
          Some (if IsLeader n1 then n1\<lparr>n_log := Log_Append (n_log n1) entry\<rparr> else n1))"

text \<open>\<open>replicateToAll\<close>: the requests it puts on the wire.\<close>

definition replicateToAll :: "'s Node \<Rightarrow> (int \<times> AppendEntriesRequest option) list" where
  "replicateToAll n = map (\<lambda>p. (p, replicate_request n p)) (gm_keys (n_peers n))"

text \<open>
  A tick of one \<open>heartbeatLoop\<close>: it ends on a node that is no longer leader, and may end on a
  stopped one, where \<open>pickStop\<close> says which branch \<open>select\<close> takes.
\<close>

definition heartbeatLoop_tick :: "bool \<Rightarrow> 's Node \<Rightarrow> (int \<times> AppendEntriesRequest option) list \<times> 's Node" where
  "heartbeatLoop_tick pickStop n =
     (if n_stopped n \<and> pickStop \<or> \<not> IsLeader n
      then ([], n\<lparr>n_heartbeatLoops := n_heartbeatLoops n - 1\<rparr>)
      else (replicateToAll n, n))"

definition applyLoop_round :: "(LogEntry \<Rightarrow> 's \<Rightarrow> 's) \<Rightarrow> 's Node \<Rightarrow> 's Node" where
  "applyLoop_round app n =
     (if n_stopped n then n
      else if n_lastApplied n < n_commitIndex n then
        let n1 = n\<lparr>n_lastApplied := n_lastApplied n + 1\<rparr>;
            (entry, ok) = Log_Entry (n_log n1) (n_lastApplied n1)
        in if ok
           then n1\<lparr>n_fsm := app entry (n_fsm n1),
                   n_commitCh := (if length (n_commitCh n1) < 256 then n_commitCh n1 @ [entry]
                                  else n_commitCh n1)\<rparr>
           else n1
      else n)"

fun applyLoop :: "(LogEntry \<Rightarrow> 's \<Rightarrow> 's) \<Rightarrow> nat \<Rightarrow> 's Node \<Rightarrow> 's Node" where
  "applyLoop app 0 n = n"
| "applyLoop app (Suc k) n = applyLoop app k (applyLoop_round app n)"

section \<open>Counting and committing\<close>

lemma count_matches_eq: "count_matches idx ms cnt = cnt + int (length (filter (\<lambda>(p, m). m \<ge> idx) ms))"
  by (induction idx ms cnt rule: count_matches.induct) auto

text \<open>
  An index the leader may commit: of its own term, and held, going by \<open>matchIndex\<close>, by at least half
  of the nodes, the leader and its peers. Of an odd number of nodes this is a majority.
\<close>

definition committable :: "'s Node \<Rightarrow> int \<Rightarrow> bool" where
  "committable n idx \<longleftrightarrow>
     snd (Log_Entry (n_log n) idx) \<and> le_Term (fst (Log_Entry (n_log n) idx)) = n_currentTerm n \<and>
     length (n_peers n) + 1 \<le> 2 * (1 + length (filter (\<lambda>(p, m). m \<ge> idx) (n_matchIndex n)))"

lemma commit_majority_half: "commit_majority n \<le> 1 + int k \<longleftrightarrow> length (n_peers n) + 1 \<le> 2 * (1 + k)"
  by (auto simp: commit_majority_def)

lemma maybeCommit_loop_step:
  "n_commitIndex n < idx \<Longrightarrow> maybeCommit_loop n idx =
     (if committable n idx then n\<lparr>n_commitIndex := idx\<rparr> else maybeCommit_loop n (idx - 1))"
  by (subst maybeCommit_loop.simps)
    (auto simp: committable_def count_matches_eq commit_majority_half split: prod.splits)

lemma maybeCommit_loop_done: "idx \<le> n_commitIndex n \<Longrightarrow> maybeCommit_loop n idx = n"
  by (subst maybeCommit_loop.simps) simp

lemma maybeCommit_loop_spec:
  "(maybeCommit_loop n idx = n \<and> (\<forall>j. n_commitIndex n < j \<and> j \<le> idx \<longrightarrow> \<not> committable n j)) \<or>
   (\<exists>c. maybeCommit_loop n idx = n\<lparr>n_commitIndex := c\<rparr> \<and> n_commitIndex n < c \<and> c \<le> idx \<and>
      committable n c \<and> (\<forall>j. c < j \<and> j \<le> idx \<longrightarrow> \<not> committable n j))"
proof (induction "nat (idx - n_commitIndex n)" arbitrary: idx)
  case 0
  then show ?case by (intro disjI1) (auto simp: maybeCommit_loop_done)
next
  case (Suc k)
  then have lt: "n_commitIndex n < idx" by simp
  show ?case
  proof (cases "committable n idx")
    case True
    then show ?thesis using lt by (intro disjI2 exI [of _ idx]) (auto simp: maybeCommit_loop_step)
  next
    case False
    have "k = nat (idx - 1 - n_commitIndex n)" using Suc(2) by simp
    note IH = Suc(1) [OF this]
    have up: "\<not> committable n j" if "\<forall>j. c < j \<and> j \<le> idx - 1 \<longrightarrow> \<not> committable n j" "c < j" "j \<le> idx" for c j
      using that False by (cases "j = idx") auto
    have eq: "maybeCommit_loop n idx = maybeCommit_loop n (idx - 1)"
      using False lt by (simp add: maybeCommit_loop_step)
    from IH show ?thesis
    proof (elim disjE exE conjE)
      assume "maybeCommit_loop n (idx - 1) = n"
        "\<forall>j. n_commitIndex n < j \<and> j \<le> idx - 1 \<longrightarrow> \<not> committable n j"
      with eq up [of "n_commitIndex n"] show ?thesis by (intro disjI1) simp
    next
      fix c assume "maybeCommit_loop n (idx - 1) = n\<lparr>n_commitIndex := c\<rparr>" "n_commitIndex n < c"
        "c \<le> idx - 1" "committable n c" "\<forall>j. c < j \<and> j \<le> idx - 1 \<longrightarrow> \<not> committable n j"
      with eq up [of c] show ?thesis by (intro disjI2 exI [of _ c]) simp
    qed
  qed
qed

lemma committable_le_LastIndex: "committable n j \<Longrightarrow> j \<le> LastIndex (n_log n)"
  by (auto simp: committable_def Log_Entry_def LastIndex_def split: if_splits)

section \<open>Properties\<close>

text \<open>
  C26: \<open>maybeCommit\<close> advances the commit index to the largest index above it that is of the current
  term and that at least half of all nodes hold going by \<open>matchIndex\<close> (a majority if the number of
  nodes is odd), and leaves the node as it is if there is none; it never commits an entry of an
  earlier term directly. That \<open>matchIndex\<close> may be ahead of what a peer holds is
  \<open>commit_without_replication\<close>.
\<close>

theorem maybe_commit_largest_majority:
  "(maybeCommit n = n \<and> (\<forall>j. n_commitIndex n < j \<longrightarrow> \<not> committable n j)) \<or>
   (\<exists>c. maybeCommit n = n\<lparr>n_commitIndex := c\<rparr> \<and> n_commitIndex n < c \<and> committable n c \<and>
      (\<forall>j. c < j \<longrightarrow> \<not> committable n j))"
  using maybeCommit_loop_spec [of n "LastIndex (n_log n)"] committable_le_LastIndex [of n]
  unfolding maybeCommit_def by (meson order.trans)

definition entries_between :: "RaftLog \<Rightarrow> int \<Rightarrow> int \<Rightarrow> LogEntry list" where
  "entries_between l a b = map (\<lambda>i. fst (Log_Entry l i)) [a + 1..b]"

text \<open>The entries a log holds at the indexes behind \<open>a\<close> up to \<open>b\<close>; it may hold only some of them.\<close>

definition held_entries :: "RaftLog \<Rightarrow> int \<Rightarrow> int \<Rightarrow> LogEntry list" where
  "held_entries l a b = map (\<lambda>i. fst (Log_Entry l i)) (filter (\<lambda>i. snd (Log_Entry l i)) [a + 1..b])"

lemma held_entries_all: "0 \<le> a \<Longrightarrow> b \<le> LastIndex l \<Longrightarrow> held_entries l a b = entries_between l a b"
proof -
  assume "0 \<le> a" "b \<le> LastIndex l"
  then have "filter (\<lambda>i. snd (Log_Entry l i)) [a + 1..b] = [a + 1..b]"
    by (intro filter_True ballI) (auto simp: Log_Entry_def LastIndex_def)
  then show ?thesis by (simp add: held_entries_def entries_between_def)
qed

lemma held_entries_Cons:
  "a < b \<Longrightarrow> held_entries l a b =
     (if snd (Log_Entry l (a + 1)) then [fst (Log_Entry l (a + 1))] else []) @ held_entries l (a + 1) b"
  unfolding held_entries_def by (subst upto_rec1) simp_all

lemma applyLoop_round_step:
  assumes "\<not> n_stopped n" "n_lastApplied n < n_commitIndex n"
  shows "n_fsm (applyLoop_round app n) = fold app
      (if snd (Log_Entry (n_log n) (n_lastApplied n + 1)) then [fst (Log_Entry (n_log n) (n_lastApplied n + 1))] else [])
      (n_fsm n)"
    "n_lastApplied (applyLoop_round app n) = n_lastApplied n + 1"
    "n_log (applyLoop_round app n) = n_log n" "n_commitIndex (applyLoop_round app n) = n_commitIndex n"
    "\<not> n_stopped (applyLoop_round app n)"
  using assms by (simp_all add: applyLoop_round_def Let_def split: prod.split)

lemma applyLoop_round_idle: "n_commitIndex n \<le> n_lastApplied n \<Longrightarrow> applyLoop_round app n = n"
  by (simp add: applyLoop_round_def)

lemma applyLoop_held:
  assumes "\<not> n_stopped n" "n_lastApplied n \<le> n_commitIndex n"
  shows "n_lastApplied (applyLoop app k n) = min (n_lastApplied n + int k) (n_commitIndex n) \<and>
    n_fsm (applyLoop app k n) =
      fold app (held_entries (n_log n) (n_lastApplied n)
        (min (n_lastApplied n + int k) (n_commitIndex n))) (n_fsm n)"
  using assms
proof (induction k arbitrary: n)
  case 0
  then show ?case by (simp add: held_entries_def)
next
  case (Suc k)
  show ?case
  proof (cases "n_lastApplied n < n_commitIndex n")
    case True
    note st = applyLoop_round_step [OF Suc.prems(1) True]
    let ?m = "min (n_lastApplied n + 1 + int k) (n_commitIndex n)"
    have "n_lastApplied n < ?m" using True by simp
    note held = held_entries_Cons [OF this, of "n_log n"]
    have k: "n_lastApplied n + int (Suc k) = n_lastApplied n + 1 + int k" by simp
    show ?thesis
      unfolding k held using Suc.IH [of "applyLoop_round app n"] Suc.prems True by (simp add: st)
  next
    case False
    then have eq: "n_lastApplied n = n_commitIndex n" using Suc.prems(2) by simp
    then have "applyLoop_round app n = n" by (simp add: applyLoop_round_idle)
    then show ?thesis using Suc.IH [OF Suc.prems] eq by simp
  qed
qed

lemma applyLoop_spec:
  assumes "\<not> n_stopped n" "0 \<le> n_lastApplied n" "n_lastApplied n \<le> n_commitIndex n"
    "n_commitIndex n \<le> LastIndex (n_log n)"
  shows "n_lastApplied (applyLoop app k n) = min (n_lastApplied n + int k) (n_commitIndex n) \<and>
    n_fsm (applyLoop app k n) =
      fold app (entries_between (n_log n) (n_lastApplied n)
        (min (n_lastApplied n + int k) (n_commitIndex n))) (n_fsm n)"
  using applyLoop_held [OF assms(1,3), of app k] assms(2,4) by (simp add: held_entries_all)

text \<open>
  C27: \<open>applyLoop\<close> works through the committed indexes in order and once each. After \<open>k\<close> rounds
  \<open>lastApplied\<close> has moved up by \<open>k\<close>, or to the commit index and no further, and the state machine has
  been fed the entries the log holds at the indexes passed, in their order. If the log reaches to the
  commit index these are all of them; an index the log does not hold is passed as well, and nothing
  is applied for it then or later (\<open>reordered_append_skips_committed_entry\<close> gets a follower there).
\<close>

theorem apply_loop_in_order:
  assumes "\<not> n_stopped n" "n_lastApplied n \<le> n_commitIndex n"
    "reached = min (n_lastApplied n + int k) (n_commitIndex n)"
  shows "n_lastApplied (applyLoop app k n) = reached \<and>
    n_fsm (applyLoop app k n) = fold app (held_entries (n_log n) (n_lastApplied n) reached) (n_fsm n) \<and>
    (0 \<le> n_lastApplied n \<and> n_commitIndex n \<le> LastIndex (n_log n) \<longrightarrow>
       held_entries (n_log n) (n_lastApplied n) reached =
         map (\<lambda>i. rl_entries (n_log n) ! nat i) [n_lastApplied n + 1..reached])"
proof -
  have "held_entries (n_log n) (n_lastApplied n) reached =
      map (\<lambda>i. rl_entries (n_log n) ! nat i) [n_lastApplied n + 1..reached]"
    if "0 \<le> n_lastApplied n" "n_commitIndex n \<le> LastIndex (n_log n)"
    using that by (auto simp: assms(3) held_entries_all entries_between_def Log_Entry_def LastIndex_def)
  then show ?thesis using applyLoop_held [OF assms(1,2), of app k] by (simp add: assms(3))
qed

definition ex_node :: "LogEntry list \<Rightarrow> LogEntry list Node" where
  "ex_node es =
     \<lparr>n_id = 1, n_state = Leader, n_currentTerm = 1, n_votedFor = 1, n_leaderID = 1,
      n_log = \<lparr>rl_entries = rl_entries newRaftLog @ es\<rparr>, n_commitIndex = 0, n_lastApplied = 0,
      n_peers = [(2, []), (3, [])], n_fsm = [], n_nextIndex = [(2, 1), (3, 1)],
      n_matchIndex = [(2, 0), (3, 0)], n_resetElectionCh = False, n_proposeCh = [],
      n_commitCh = [], n_stopped = False, n_heartbeatLoops = 1\<rparr>"

definition ex_entry :: "nat \<Rightarrow> LogEntry" where
  "ex_entry k = \<lparr>le_Term = 1, le_Index = int k, le_Type = EntryNoop, le_Data = [of_nat k]\<rparr>"

theorem maybe_commit_largest_majority_witness:
  "maybeCommit (ex_node [ex_entry 1, ex_entry 2, ex_entry 3]\<lparr>n_matchIndex := [(2, 2), (3, 0)]\<rparr>) =
     ex_node [ex_entry 1, ex_entry 2, ex_entry 3]\<lparr>n_matchIndex := [(2, 2), (3, 0)], n_commitIndex := 2\<rparr> \<and>
   \<not> committable (ex_node [ex_entry 1, ex_entry 2, ex_entry 3]\<lparr>n_matchIndex := [(2, 2), (3, 0)]\<rparr>) 3"
proof -
  let ?n = "ex_node [ex_entry 1, ex_entry 2, ex_entry 3]\<lparr>n_matchIndex := [(2, 2), (3, 0)]\<rparr>"
  have m: "maybeCommit ?n = ?n\<lparr>n_commitIndex := 2\<rparr>" "n_commitIndex ?n = 0" by code_simp+
  then have "n_commitIndex (maybeCommit ?n) \<noteq> n_commitIndex ?n" by simp
  then obtain c where c: "maybeCommit ?n = ?n\<lparr>n_commitIndex := c\<rparr>" "\<forall>j. c < j \<longrightarrow> \<not> committable ?n j"
    using maybe_commit_largest_majority [of ?n] by metis
  then have "n_commitIndex (?n\<lparr>n_commitIndex := c\<rparr>) = n_commitIndex (?n\<lparr>n_commitIndex := 2\<rparr>)"
    using m by metis
  then have "c = 2" by simp
  then show ?thesis using m c by simp
qed

theorem apply_loop_in_order_witness:
  "n_fsm (applyLoop (\<lambda>e s. s @ [e]) 5 ((ex_node [ex_entry 1, ex_entry 2])\<lparr>n_commitIndex := 3\<rparr>)) =
     [ex_entry 1, ex_entry 2] \<and>
   n_lastApplied (applyLoop (\<lambda>e s. s @ [e]) 5 ((ex_node [ex_entry 1, ex_entry 2])\<lparr>n_commitIndex := 3\<rparr>)) = 3"
proof -
  let ?n = "(ex_node [ex_entry 1, ex_entry 2])\<lparr>n_commitIndex := 3\<rparr>"
  have "n_lastApplied (applyLoop (\<lambda>e s. s @ [e]) 5 ?n) = 3 \<and> n_fsm (applyLoop (\<lambda>e s. s @ [e]) 5 ?n) =
      fold (\<lambda>e s. s @ [e]) (held_entries (n_log ?n) (n_lastApplied ?n) 3) (n_fsm ?n)"
    using apply_loop_in_order [of ?n 3 5 "\<lambda>e s. s @ [e]"] by (simp add: ex_node_def)
  moreover have "fold (\<lambda>e s. s @ [e]) (held_entries (n_log ?n) (n_lastApplied ?n) 3) (n_fsm ?n) =
      [ex_entry 1, ex_entry 2]" by code_simp
  ultimately show ?thesis by simp
qed

section \<open>What replication does not check\<close>

text \<open>
  The handler \<open>RequestVote\<close> holds no lock between loading the vote and storing it, and gRPC runs
  handlers concurrently: a second candidate whose request of the same term is handled before the
  first vote is stored is granted the vote of the node too.
\<close>

lemma concurrent_vote_requests_both_granted:
  assumes "RequestVote_decide n r1 = Some (p1, n1)" "rv_VoteGranted p1" "n_currentTerm n < rq_Term r1"
    "RequestVote_decide n r2 = Some (p2, n2)" "rv_VoteGranted p2" "rq_Term r2 = rq_Term r1"
  shows "RequestVote_decide n1 r2 = Some (\<lparr>rv_Term = rq_Term r1, rv_VoteGranted = True\<rparr>, n1)"
  using assms
  by (auto simp: RequestVote_decide_def becomeFollower_def Let_def split: option.splits if_splits)

text \<open>
  \<open>AppendEntries\<close> never looks at \<open>PrevLogTerm\<close>: whatever term the leader claims for the entry
  before the new ones, the answer and the new state are the same, so a follower whose log
  diverges at \<open>PrevLogIndex\<close> keeps the divergent entry under the new ones.
\<close>

lemma append_ignores_prev_log_term:
  "AppendEntries n (req\<lparr>aq_PrevLogTerm := trm\<rparr>) = AppendEntries n req"
proof -
  have "aq_Term (req\<lparr>aq_PrevLogTerm := trm\<rparr>) = aq_Term req" "aq_LeaderId (req\<lparr>aq_PrevLogTerm := trm\<rparr>) = aq_LeaderId req"
    "aq_PrevLogIndex (req\<lparr>aq_PrevLogTerm := trm\<rparr>) = aq_PrevLogIndex req"
    "aq_Entries (req\<lparr>aq_PrevLogTerm := trm\<rparr>) = aq_Entries req"
    "aq_LeaderCommit (req\<lparr>aq_PrevLogTerm := trm\<rparr>) = aq_LeaderCommit req"
    by simp_all
  then show ?thesis unfolding AppendEntries_def by (simp only:)
qed

text \<open>
  An entry appended while a request is in flight is counted as replicated by the response to
  it. In a cluster of three, the leader sends entry 1, appends entry 2, and commits entry 2 when
  the answer arrives, although no other node has it.
\<close>

lemma commit_without_replication:
  "\<exists>(n0 :: LogEntry list Node) req n1.
     replicate_request n0 2 = Some req \<and> aq_Entries req = [ex_entry 1] \<and>
     n1 = n0\<lparr>n_log := Log_Append (n_log n0) (ex_entry 2)\<rparr> \<and> length (n_peers n1) = 2 \<and>
     n_commitIndex n1 = 0 \<and>
     n_commitIndex (replicate_reply n1 2 (length (aq_Entries req))
       (Some \<lparr>ae_Term = 1, ae_Success = True\<rparr>)) = 2"
proof -
  let ?n = "ex_node [ex_entry 1]"
  let ?n1 = "?n\<lparr>n_log := Log_Append (n_log ?n) (ex_entry 2)\<rparr>"
  have "map_option aq_Entries (replicate_request ?n 2) = Some [ex_entry 1]" by code_simp
  then obtain req where req: "replicate_request ?n 2 = Some req" "aq_Entries req = [ex_entry 1]"
    by (auto simp: map_option_eq_Some)
  have "n_commitIndex (replicate_reply ?n1 2 (length [ex_entry 1])
      (Some \<lparr>ae_Term = 1, ae_Success = True\<rparr>)) = 2"
    by code_simp
  moreover have "length (n_peers ?n1) = 2" "n_commitIndex ?n1 = 0" by code_simp+
  ultimately show ?thesis using req by metis
qed

end
