(* ===== verification/Metrics_Collector.thy ===== *)
theory Metrics_Collector
  imports Go_Prelude "HOL-Library.Multiset" "HOL-Library.Signed_Division"
begin

text \<open>
  \<open>internal/metrics/metrics.go\<close>: counters, the ring buffer of latencies, the rate window, and the
  statistics computed from them. A Go \<open>float64\<close> is a pair of mantissa and exponent, rounded to 53
  bits, ties to even; the magnitudes that occur here neither overflow nor become subnormal.
\<close>

section \<open>Floating point\<close>

type_synonym float64 = "int \<times> int" \<comment> \<open>\<open>(m, e)\<close> is \<open>m * 2 ^ e\<close>\<close>

fun bitlen :: "nat \<Rightarrow> nat" where
  "bitlen n = (if n = 0 then 0 else Suc (bitlen (n div 2)))"

declare bitlen.simps [simp del]

lemma bitlen_numeral [simp]:
  "bitlen 0 = 0" "bitlen (Suc 0) = 1" "bitlen (numeral k) = Suc (bitlen (numeral k div 2))"
  by (subst bitlen.simps; simp add: bitlen.simps [of 0])+

definition round_quot :: "nat \<Rightarrow> nat \<Rightarrow> nat" where
  "round_quot a b =
     (let q = a div b; r = a mod b in if b < 2 * r \<or> 2 * r = b \<and> odd q then q + 1 else q)"

text \<open>The float nearest to \<open>a / b\<close>, for \<open>b > 0\<close>.\<close>

definition f64_quot :: "nat \<Rightarrow> nat \<Rightarrow> float64" where
  "f64_quot a b =
     (if a = 0 then (0, 0)
      else let s = 54 - (int (bitlen a) - int (bitlen b));
               num = (if s \<ge> 0 then a * 2 ^ nat s else a);
               den = (if s \<ge> 0 then b else b * 2 ^ nat (- s));
               k = bitlen (num div den) - 53
           in (int (round_quot num (den * 2 ^ k)), int k - s))"

definition f64_of_int :: "int \<Rightarrow> float64" where
  "f64_of_int x = (case f64_quot (nat \<bar>x\<bar>) 1 of (m, e) \<Rightarrow> (sgn x * m, e))"

definition f64_div :: "float64 \<Rightarrow> nat \<Rightarrow> float64" where
  "f64_div f d =
     (case f of (m, e) \<Rightarrow>
       let num = (if e \<ge> 0 then nat \<bar>m\<bar> * 2 ^ nat e else nat \<bar>m\<bar>);
           den = (if e \<ge> 0 then d else d * 2 ^ nat (- e))
       in case f64_quot num den of (m', e') \<Rightarrow> (sgn m * m', e'))"

text \<open>
  \<open>int(float64(size) * 0.99)\<close>: the constant is \<open>8917127262193582 / 2 ^ 53\<close>, the product of a
  small integer is rounded once and then truncated.
\<close>

definition p99_index :: "nat \<Rightarrow> nat" where
  "p99_index n =
     (case f64_quot (n * 8917127262193582) (2 ^ 53) of (m, e) \<Rightarrow>
       if e \<ge> 0 then nat m * 2 ^ nat e else nat m div 2 ^ nat (- e))"

section \<open>The collector\<close>

definition latBufSize :: nat where "latBufSize = 10000"
definition rateWinSize :: nat where "rateWinSize = 60"

record Collector =
  mc_messagesIn :: int
  mc_messagesOut :: int
  mc_bytesIn :: int
  mc_bytesOut :: int
  mc_latencies :: "int list"
  mc_latIdx :: nat
  mc_msgPerSec :: float64
  mc_rateWin :: "int list"
  mc_lastMsgIn :: int
  mc_lastTick :: int

definition New_Collector :: "int \<Rightarrow> Collector" where
  "New_Collector now =
     \<lparr>mc_messagesIn = 0, mc_messagesOut = 0, mc_bytesIn = 0, mc_bytesOut = 0,
      mc_latencies = replicate latBufSize 0, mc_latIdx = 0, mc_msgPerSec = (0, 0),
      mc_rateWin = replicate rateWinSize 0, mc_lastMsgIn = 0, mc_lastTick = now\<rparr>"

definition RecordPublish :: "Collector \<Rightarrow> int \<Rightarrow> int \<Rightarrow> Collector" where
  "RecordPublish c bytes latencyNs =
     c\<lparr>mc_messagesIn := i64 (mc_messagesIn c + 1), mc_bytesIn := i64 (mc_bytesIn c + bytes),
       mc_latencies := (mc_latencies c)[mc_latIdx c mod latBufSize := latencyNs],
       mc_latIdx := mc_latIdx c + 1\<rparr>"

definition RecordFetch :: "Collector \<Rightarrow> int \<Rightarrow> Collector" where
  "RecordFetch c bytes =
     c\<lparr>mc_messagesOut := i64 (mc_messagesOut c + 1), mc_bytesOut := i64 (mc_bytesOut c + bytes)\<rparr>"

fun sum_int64 :: "int list \<Rightarrow> int \<Rightarrow> int" where
  "sum_int64 [] acc = acc"
| "sum_int64 (v # vs) acc = sum_int64 vs (i64 (acc + v))"

text \<open>One tick of \<open>tickLoop\<close>; \<open>wIdx\<close> is the loop's local counter.\<close>

definition tickLoop_tick :: "Collector \<Rightarrow> nat \<Rightarrow> Collector \<times> nat" where
  "tickLoop_tick c wIdx =
     (let current = mc_messagesIn c;
          win = (mc_rateWin c)[wIdx mod rateWinSize := i64 (current - mc_lastMsgIn c)]
      in (c\<lparr>mc_rateWin := win, mc_lastMsgIn := current,
            mc_msgPerSec := f64_div (f64_of_int (sum_int64 win 0)) rateWinSize\<rparr>, wIdx + 1))"

text \<open>
  \<open>sortInt64\<close>: the inner loop moves larger elements one place up and returns the slice and the
  place \<open>j + 1\<close> for the element; its argument is \<open>j + 1\<close>.
\<close>

fun shift_loop :: "int list \<Rightarrow> int \<Rightarrow> nat \<Rightarrow> int list \<times> nat" where
  "shift_loop a x 0 = (a, 0)"
| "shift_loop a x (Suc j) = (if a ! j > x then shift_loop (a[Suc j := a ! j]) x j else (a, Suc j))"

definition sort_step :: "int list \<Rightarrow> nat \<Rightarrow> int list" where
  "sort_step a i = (let x = a ! i; (a', p) = shift_loop a x i in a'[p := x])"

definition sortInt64 :: "int list \<Rightarrow> int list" where
  "sortInt64 a = foldl sort_step a [1..<length a]"

definition computeLatencies :: "Collector \<Rightarrow> int \<times> int" where
  "computeLatencies c =
     (if mc_latIdx c = 0 then (0, 0)
      else let n = (if mc_latIdx c > latBufSize then latBufSize else mc_latIdx c);
               vals = take n (mc_latencies c);
               avg = sum_int64 vals 0 sdiv int n;
               vals' = sortInt64 vals;
               idx = (if p99_index n \<ge> n then n - 1 else p99_index n)
           in (avg, vals' ! idx))"

record Snapshot =
  sn_MessagesIn :: int
  sn_MessagesOut :: int
  sn_BytesIn :: int
  sn_BytesOut :: int
  sn_MessagesPerSec :: float64
  sn_AvgLatencyMs :: float64
  sn_P99LatencyMs :: float64

definition Collector_Snapshot :: "Collector \<Rightarrow> Snapshot" where
  "Collector_Snapshot c =
     (let (avgLat, p99Lat) = computeLatencies c in
      \<lparr>sn_MessagesIn = mc_messagesIn c, sn_MessagesOut = mc_messagesOut c,
       sn_BytesIn = mc_bytesIn c, sn_BytesOut = mc_bytesOut c, sn_MessagesPerSec = mc_msgPerSec c,
       sn_AvgLatencyMs = f64_div (f64_of_int avgLat) 1000000,
       sn_P99LatencyMs = f64_div (f64_of_int p99Lat) 1000000\<rparr>)"

section \<open>Sorting\<close>

lemma insort_snoc_less: "x < y \<Longrightarrow> insort x (xs @ [y]) = insort x xs @ [y]" for x :: int
  by (induction xs) auto

lemma insort_max:
  assumes "sorted xs" "\<forall>z\<in>set xs. z \<le> (x :: int)"
  shows "insort x xs = xs @ [x]"
proof -
  have "sorted (xs @ [x])" using assms by (simp add: sorted_append)
  then have "sort (xs @ [x]) = xs @ [x]" by (rule sorted_sort_id)
  moreover have "sort (xs @ [x]) = insort x xs"
    using assms(1) by (intro properties_for_sort) (simp_all add: sorted_insort)
  ultimately show ?thesis by simp
qed

lemma shift_loop_insort:
  "shift_loop a x j = (a', p) \<Longrightarrow> j < length a \<Longrightarrow> sorted (take j a) \<Longrightarrow>
     a'[p := x] = insort x (take j a) @ drop (Suc j) a"
proof (induction a x j arbitrary: a' p rule: shift_loop.induct)
  case (1 a x)
  then show ?case by (cases a) auto
next
  case (2 a x j)
  have tk: "take (Suc j) a = take j a @ [a ! j]" using 2(3) by (simp add: take_Suc_conv_app_nth)
  show ?case
  proof (cases "a ! j > x")
    case True
    have "a'[p := x] = insort x (take j (a[Suc j := a ! j])) @ drop (Suc j) (a[Suc j := a ! j])"
      using 2 True by (intro 2(1)) (auto simp: tk sorted_append)
    also have "drop (Suc j) (a[Suc j := a ! j]) = a ! j # drop (Suc (Suc j)) a"
      using 2(3) by (simp add: drop_update_swap Cons_nth_drop_Suc [symmetric])
    finally show ?thesis unfolding tk using insort_snoc_less [OF True] by simp
  next
    case False
    then have "a'[p := x] = a[Suc j := x]" using 2(2) by auto
    moreover have "insort x (take (Suc j) a) = take (Suc j) a @ [x]"
    proof (rule insort_max [OF 2(4)], intro ballI)
      fix z assume "z \<in> set (take (Suc j) a)"
      then have "z \<le> a ! j" using 2(4) unfolding tk by (auto simp: sorted_append)
      then show "z \<le> x" using False by simp
    qed
    ultimately show ?thesis using 2(3) by (simp add: upd_conv_take_nth_drop)
  qed
qed

lemma sort_step_prefix:
  assumes "i < length a" "sorted (take i a)"
  shows "sort_step a i = insort (a ! i) (take i a) @ drop (Suc i) a"
    "mset (sort_step a i) = mset a" "length (sort_step a i) = length a"
    "sorted (take (Suc i) (sort_step a i))"
proof -
  obtain a' p where e: "shift_loop a (a ! i) i = (a', p)" by fastforce
  show eq: "sort_step a i = insort (a ! i) (take i a) @ drop (Suc i) a"
    using shift_loop_insort [OF e assms] by (simp add: sort_step_def e)
  show "mset (sort_step a i) = mset a"
    unfolding eq using assms(1) by (metis (no_types) append.assoc append_Cons append_Nil id_take_nth_drop
      mset.simps(2) mset_append mset_insort union_mset_add_mset_left union_mset_add_mset_right)
  then show "length (sort_step a i) = length a" by (metis size_mset)
  show "sorted (take (Suc i) (sort_step a i))"
    unfolding eq using assms by (simp add: sorted_insort)
qed

lemma sort_steps:
  assumes "i \<le> n" "n \<le> length a" "sorted (take i a)"
  shows "mset (foldl sort_step a [i..<n]) = mset a \<and> sorted (take n (foldl sort_step a [i..<n]))"
  using assms
proof (induction "n - i" arbitrary: i a)
  case (Suc k)
  then have i: "i < n" "i < length a" by simp_all
  note st = sort_step_prefix [OF i(2) Suc.prems(3)]
  have "mset (foldl sort_step (sort_step a i) [Suc i..<n]) = mset (sort_step a i) \<and>
      sorted (take n (foldl sort_step (sort_step a i) [Suc i..<n]))"
    using Suc.hyps(2) Suc.prems(2) i st by (intro Suc.hyps(1)) simp_all
  moreover have "[i..<n] = i # [Suc i..<n]" using i(1) by (rule upt_conv_Cons)
  ultimately show ?case using st(2) by (simp only: foldl.simps)
qed simp

lemma sortInt64_eq: "sortInt64 a = sort a"
proof (cases "length a \<le> 1")
  case True
  then show ?thesis by (cases a) (auto simp: sortInt64_def)
next
  case False
  then have "sorted (take 1 a)" by (cases a) auto
  then have "mset (sortInt64 a) = mset a \<and> sorted (take (length a) (sortInt64 a))"
    using sort_steps [of 1 "length a" a] False by (simp add: sortInt64_def)
  moreover have "length (sortInt64 a) = length a" using calculation by (metis size_mset)
  ultimately show ?thesis by (metis properties_for_sort order_refl take_all)
qed

lemma sum_int64_eq: "in_i64 acc \<Longrightarrow> sum_int64 vs acc = i64 (acc + sum_list vs)"
proof (induction vs arbitrary: acc)
  case (Cons v vs)
  have "sum_int64 (v # vs) acc = i64 (i64 (acc + v) + sum_list vs)" using Cons by simp
  then show ?case by (simp only: i64_add_left) (simp add: add.assoc)
qed simp

section \<open>The place of the percentile\<close>

lemma bitlen_bounds: "0 < n \<Longrightarrow> 2 ^ bitlen n \<le> 2 * n \<and> n < 2 ^ bitlen n"
proof (induction n rule: bitlen.induct)
  case (1 n)
  show ?case
  proof (cases "n div 2 = 0")
    case True
    with 1(2) have "n = 1" by (cases n) auto
    then show ?thesis by simp
  next
    case False
    then have "2 ^ bitlen (n div 2) \<le> 2 * (n div 2)" "n div 2 < 2 ^ bitlen (n div 2)" using 1 by simp_all
    then show ?thesis using 1(2) by (subst (1 2) bitlen.simps) auto
  qed
qed

lemma bitlen_unique: "2 ^ k \<le> n \<Longrightarrow> n < 2 ^ Suc k \<Longrightarrow> bitlen n = Suc k"
proof -
  assume n: "2 ^ k \<le> n" "n < 2 ^ Suc k"
  then have "0 < n" by (metis gr0I le_zero_eq power_not_zero zero_neq_numeral)
  note b = bitlen_bounds [OF this]
  have "(2::nat) ^ k < 2 ^ bitlen n" using n(1) conjunct2 [OF b] by (rule le_less_trans)
  moreover have "(2::nat) ^ bitlen n < 2 ^ Suc (Suc k)" using n(2) b by simp
  ultimately have "k < bitlen n" "bitlen n < Suc (Suc k)"
    using power_less_imp_less_exp [of "2::nat"] one_less_numeral_iff semiring_norm(76) by blast+
  then show ?thesis by simp
qed

lemma round_quot_bounds: "0 < b \<Longrightarrow> 2 * a \<le> 2 * (b * round_quot a b) + b \<and> 2 * (b * round_quot a b) \<le> 2 * a + b"
proof -
  assume b: "0 < b"
  obtain q r where qr: "q = a div b" "r = a mod b" by blast
  have "a = b * q + r" "r < b" using b by (simp_all add: qr)
  moreover have "round_quot a b = q \<and> 2 * r \<le> b \<or> round_quot a b = q + 1 \<and> b \<le> 2 * r"
    unfolding round_quot_def Let_def qr [symmetric] by auto
  ultimately show ?thesis by (auto simp: add_mult_distrib2)
qed

text \<open>A quotient by \<open>2 ^ 53\<close> whose numerator has at most 67 bits is rounded to a multiple of a small power.\<close>

lemma f64_quot_small:
  assumes "0 < a" "bitlen a \<le> 67"
  shows "\<exists>t m. f64_quot a (2 ^ 53) = (int m, - int t) \<and> 39 \<le> t \<and> a * 2 ^ t < 2 ^ 106 \<and>
    m = round_quot (a * 2 ^ (t + 2)) (2 ^ 55)"
proof -
  define t where "t = 106 - bitlen a"
  have t: "bitlen a + t = 106" "39 \<le> t" using assms(2) by (simp_all add: t_def)
  have "a * 2 ^ t < 2 ^ bitlen a * 2 ^ t" "2 ^ bitlen a * 2 ^ t \<le> 2 * a * 2 ^ t"
    using bitlen_bounds [OF assms(1)] by simp_all
  then have b: "a * 2 ^ t < 2 ^ 106" "2 ^ 105 \<le> a * 2 ^ t" using t(1) by (simp_all flip: power_add)
  have b53: "bitlen (2 ^ 53) = 54" by (rule bitlen_unique [of 53, simplified]) simp_all
  have s: "54 - (int (bitlen a) - int (bitlen (2 ^ 53))) = int (t + 2)" using t(1) by (simp add: b53)
  have num: "a * 2 ^ (t + 2) = 2 ^ 2 * (a * 2 ^ t)" by (simp add: power_add)
  have "bitlen (a * 2 ^ (t + 2) div 2 ^ 53) = 55"
    unfolding num using b by (intro bitlen_unique [of 54, simplified]) (simp_all add: div_less_dividend less_eq_div_iff_mult_less_eq div_less_iff_less_mult)
  then have "f64_quot a (2 ^ 53) = (int (round_quot (a * 2 ^ (t + 2)) (2 ^ 53 * 2 ^ 2)), - int t)"
    using assms(1) unfolding f64_quot_def s Let_def nat_int by (simp del: power_add_numeral add_2_eq_Suc')
  then show ?thesis
    using t(2) b(1) by (intro exI [of _ t] exI [of _ "round_quot (a * 2 ^ (t + 2)) (2 ^ 55)"]) simp
qed

text \<open>
  For the sizes of the ring buffer the float computation gives the truncated 99 per cent: 0.99 as a
  \<open>float64\<close> is a little smaller, but by less than the rounding of the product.
\<close>

lemma p99_index_eq:
  assumes "0 < n" "n \<le> 10000"
  shows "p99_index n = 99 * n div 100"
proof -
  let ?K = "8917127262193582 :: nat"
  have "n * ?K < 2 ^ 67" using assms(2) by simp
  then have "2 ^ bitlen (n * ?K) < (2::nat) ^ 68" using bitlen_bounds [of "n * ?K"] assms(1) by simp
  then have "bitlen (n * ?K) \<le> 67" using power_less_imp_less_exp [of "2::nat" _ 68] by fastforce
  from f64_quot_small [OF _ this] assms(1) obtain t m where q: "f64_quot (n * ?K) (2 ^ 53) = (int m, - int t)"
    "39 \<le> t" "n * ?K * 2 ^ t < 2 ^ 106" "m = round_quot (n * ?K * 2 ^ (t + 2)) (2 ^ 55)" by auto
  define P where "P = (2::nat) ^ t"
  have P: "64 \<le> P" unfolding P_def using q(2) power_increasing [of 6 t "2::nat"] by simp
  define c d where "c = 99 * n div 100" and "d = 99 * n mod 100"
  have cd: "99 * n = 100 * c + d" "d < 100" by (simp_all add: c_def d_def)
  have m: "2 * (n * ?K * P) * 4 \<le> 2 * (2 ^ 55 * m) + 2 ^ 55" "2 * (2 ^ 55 * m) \<le> 2 * (n * ?K * P) * 4 + 2 ^ 55"
    using round_quot_bounds [of "2 ^ 55" "n * ?K * 2 ^ (t + 2)"] by (simp_all add: q(4) P_def power_add mult.assoc)
  have nP: "99 * (n * P) = 100 * (c * P) + d * P" using arg_cong [OF cd(1), of "\<lambda>x. x * P"] by (simp add: algebra_simps)
  have small: "?K * (n * P) < 2 ^ 106" using q(3) by (simp add: P_def mult.commute mult.left_commute)
  have dP: "d * P \<le> 99 * P" using cd(2) by simp
  have low: "c * P \<le> m"
  proof (rule ccontr)
    assume "\<not> c * P \<le> m"
    moreover have "8 * ?K * X \<le> 2 ^ 56 * m + 2 ^ 55 \<Longrightarrow> 99 * X = 100 * Y + Z \<Longrightarrow> ?K * X < 2 ^ 106 \<Longrightarrow> Y \<le> m"
      for X Y Z :: nat by simp
    moreover have "8 * ?K * (n * P) \<le> 2 ^ 56 * m + 2 ^ 55" using m(1) by (simp add: ac_simps)
    ultimately show False using nP small by blast
  qed
  have high: "m < c * P + P"
  proof (rule ccontr)
    assume "\<not> m < c * P + P"
    then show False using m(2) nP dP P by simp
  qed
  have "m div 2 ^ t = c"
    using low high unfolding P_def [symmetric] by (intro div_nat_eqI) (simp_all add: mult.commute)
  moreover have "p99_index n = m div 2 ^ t"
    using q(2) by (simp add: p99_index_def q(1) [simplified])
  ultimately show ?thesis by (simp add: c_def)
qed

section \<open>The ring buffer\<close>

text \<open>
  A ring of size \<open>b\<close> after the values \<open>ls\<close>: the last \<open>b\<close> of them are at their places, and
  nothing else is in the part already written.
\<close>

definition ring_ok :: "nat \<Rightarrow> int list \<Rightarrow> int list \<Rightarrow> bool" where
  "ring_ok b ls buf \<longleftrightarrow> length buf = b \<and>
     (\<forall>m < length ls. length ls \<le> m + b \<longrightarrow> buf ! (m mod b) = ls ! m) \<and>
     mset (take (min (length ls) b) buf) = mset (drop (length ls - b) ls)"

lemma mod_distinct: "m < n \<Longrightarrow> n < m + b \<Longrightarrow> m mod b \<noteq> n mod (b :: nat)"
proof
  assume "m < n" "n < m + b" "m mod b = n mod b"
  then have "b dvd n - m" by (metis less_imp_le mod_eq_dvd_iff_nat)
  moreover have "0 < n - m" "n - m < b" using \<open>m < n\<close> \<open>n < m + b\<close> by auto
  ultimately show False by (meson nat_dvd_not_less)
qed

lemma ring_step:
  assumes ok: "ring_ok b ls buf" and b: "0 < b"
  shows "ring_ok b (ls @ [x]) (buf[length ls mod b := x])"
proof -
  let ?n = "length ls"
  have len: "length buf = b"
    and at: "\<And>m. m < ?n \<Longrightarrow> ?n \<le> m + b \<Longrightarrow> buf ! (m mod b) = ls ! m"
    and ms: "mset (take (min ?n b) buf) = mset (drop (?n - b) ls)"
    using ok by (auto simp: ring_ok_def)
  have k: "?n mod b < length buf" using b len by simp
  have "buf[?n mod b := x] ! (m mod b) = (ls @ [x]) ! m" if "m < Suc ?n" "Suc ?n \<le> m + b" for m
  proof (cases "m = ?n")
    case True
    then show ?thesis using k by simp
  next
    case False
    then have "m < ?n" using that(1) by simp
    moreover have "?n mod b \<noteq> m mod b" using mod_distinct [of m ?n b] calculation that(2) by auto
    ultimately show ?thesis using at [of m] that(2) by (simp add: nth_append)
  qed
  moreover have "mset (take (min (Suc ?n) b) (buf[?n mod b := x])) = mset (drop (Suc ?n - b) (ls @ [x]))"
  proof (cases "?n < b")
    case True
    then have "take (Suc ?n) (buf[?n := x]) = take ?n buf @ [x]"
      using len by (simp add: upd_conv_take_nth_drop)
    then show ?thesis using True ms by simp
  next
    case False
    then have n: "?n - b < ?n" "(?n - b) mod b = ?n mod b" "Suc ?n - b = Suc (?n - b)"
      using b by (simp_all add: le_mod_geq)
    have old: "buf ! (?n mod b) = ls ! (?n - b)" using at [of "?n - b"] n False by simp
    have "mset buf = mset (drop (?n - b) ls)" using ms False len by simp
    also have "\<dots> = add_mset (ls ! (?n - b)) (mset (drop (Suc (?n - b)) ls))"
      by (simp add: Cons_nth_drop_Suc [OF n(1), symmetric])
    finally have "mset buf - {#ls ! (?n - b)#} = mset (drop (Suc (?n - b)) ls)" by simp
    then have "mset (buf[?n mod b := x]) = add_mset x (mset (drop (Suc (?n - b)) ls))"
      using mset_update [OF k, of x] old by simp
    moreover have "take (min (Suc ?n) b) (buf[?n mod b := x]) = buf[?n mod b := x]"
      using False len by simp
    moreover have "drop (Suc ?n - b) (ls @ [x]) = drop (Suc (?n - b)) ls @ [x]" using n by simp
    ultimately show ?thesis by simp
  qed
  ultimately show ?thesis using len by (simp add: ring_ok_def)
qed

definition record_all :: "Collector \<Rightarrow> (int \<times> int) list \<Rightarrow> Collector" where
  "record_all c recs = foldl (\<lambda>c (bytes, lat). RecordPublish c bytes lat) c recs"

lemma record_all_ring:
  "ring_ok latBufSize (map snd recs) (mc_latencies (record_all (New_Collector now) recs)) \<and>
   mc_latIdx (record_all (New_Collector now) recs) = length recs"
proof (induction recs rule: rev_induct)
  case Nil
  then show ?case by (simp add: record_all_def New_Collector_def ring_ok_def)
next
  case (snoc r recs)
  then show ?case
    using ring_step [of latBufSize "map snd recs" _ "snd r"]
    by (cases r) (simp add: record_all_def RecordPublish_def latBufSize_def)
qed

section \<open>Properties\<close>

text \<open>
  The insertion sort sorts: it returns the sorted permutation of its input.
\<close>

lemma sortInt64_sorts:
  "sortInt64 a = sort a \<and> sorted (sortInt64 a) \<and> mset (sortInt64 a) = mset a"
  by (simp add: sortInt64_eq)

text \<open>
  C36: after any number of publishes the statistics are those of the last 10000 latencies,
  whatever their order in the ring: the average is the truncated quotient of their 64-bit sum and
  their number, and the 99th percentile is the element of the sorted window before which lie 99 per
  cent of it, rounded down: the float product of the code picks exactly this place.
\<close>

theorem latency_statistics_of_window:
  assumes "recs \<noteq> []" "w = drop (length recs - 10000) (map snd recs)"
  shows "computeLatencies (record_all (New_Collector now) recs) =
    (i64 (sum_list w) sdiv int (length w), sort w ! (99 * length w div 100))"
proof -
  let ?c = "record_all (New_Collector now) recs"
  let ?n = "min (length recs) latBufSize"
  note ring = record_all_ring [of recs now]
  have m: "mset (take ?n (mc_latencies ?c)) = mset w"
    using ring by (simp add: ring_ok_def assms(2) latBufSize_def)
  then have s: "sort (take ?n (mc_latencies ?c)) = sort w"
    by (metis mset_sort properties_for_sort sorted_sort)
  have l: "length w = ?n" using assms(2) by (simp add: latBufSize_def)
  have sum: "sum_list (take ?n (mc_latencies ?c)) = sum_list w"
    using m by (metis sum_mset_sum_list)
  have i: "mc_latIdx ?c = length recs" "length recs \<noteq> 0" using ring assms(1) by simp_all
  have n: "(if mc_latIdx ?c > latBufSize then latBufSize else mc_latIdx ?c) = ?n"
    using i(1) by simp
  have idx: "(if p99_index ?n \<ge> ?n then ?n - 1 else p99_index ?n) = min (?n - 1) (p99_index ?n)"
    using i(2) by (auto simp: min_def latBufSize_def)
  have "0 < ?n" "?n \<le> 10000" using i(2) by (simp_all add: latBufSize_def)
  moreover have "99 * m div 100 < m" if "0 < m" for m :: nat using that by simp
  ultimately have p99: "p99_index ?n = 99 * ?n div 100" "99 * ?n div 100 < ?n"
    using p99_index_eq by blast+
  have z: "in_i64 0" by (simp add: in_i64_def)
  show ?thesis
    unfolding computeLatencies_def n Let_def idx sortInt64_eq s sum_int64_eq [OF z] sum
    using i l p99 by simp
qed

theorem latency_statistics_of_window_witness:
  "computeLatencies (record_all (New_Collector 0) [(1, 30), (1, 10), (1, 20)]) = (20, 30)"
proof -
  have "computeLatencies (record_all (New_Collector 0) [(1, 30), (1, 10), (1, 20)]) =
      (i64 (sum_list [30, 10, 20]) sdiv int (length [30::int, 10, 20]),
       sort [30, 10, 20] ! (99 * length [30::int, 10, 20] div 100))"
    by (rule latency_statistics_of_window) simp_all
  also have "\<dots> = (20, 30)" by (simp add: i64_id)
  finally show ?thesis .
qed

end
