(* ===== verification/Ws_Events.thy ===== *)
theory Ws_Events
  imports Json_Decode
begin

text \<open>
  The events of \<open>internal/transport/ws_server.go\<close> and their text: \<open>json.Marshal\<close> of a \<open>WSEvent\<close>,
  whose payload is a \<open>json.RawMessage\<close>, a text that is checked, freed of white space and escaped
  byte by byte before it becomes a part of the event's text.
\<close>

record WSEvent =
  we_Type :: string
  we_Timestamp :: int
  we_Payload :: bytes

section \<open>appendCompact\<close>

datatype text_state = Outside | In_string | In_escape

fun next_state :: "text_state \<Rightarrow> char \<Rightarrow> text_state" where
  "next_state Outside c = (if c = CHR 0x22 then In_string else Outside)"
| "next_state In_string c =
     (if c = CHR 0x22 then Outside else if c = CHR 0x5C then In_escape else In_string)"
| "next_state In_escape c = In_string"

definition html_char :: "char \<Rightarrow> bool" where
  "html_char c \<longleftrightarrow> c = CHR ''<'' \<or> c = CHR ''>'' \<or> c = CHR ''&''"

fun compact_text :: "text_state \<Rightarrow> string \<Rightarrow> string" where
  "compact_text st [] = []"
| "compact_text st (c # s) =
     (if html_char c then hex_escape (byte_val c) @ compact_text (next_state st c) s
      else if is_line_sep (c # s)
      then hex_escape (8224 + byte_val (s ! 1) mod 16) @ compact_text (next_state st c) (drop 2 s)
      else if st = Outside \<and> is_space c then compact_text st s
      else c # compact_text (next_state st c) s)"

definition Marshal_event :: "WSEvent \<Rightarrow> bytes option" where
  "Marshal_event e =
     (if parse_json (text_of (we_Payload e)) = None then None
      else Some (bytes_of
        (''{'' @ quote ''type'' @ '':'' @ quote (we_Type e) @ '','' @
         quote ''ts'' @ '':'' @ fmt_d (we_Timestamp e) @ '','' @
         quote ''payload'' @ '':'' @ compact_text Outside (text_of (we_Payload e)) @ ''}'')))"

section \<open>A printed payload is compact\<close>

definition stays :: "text_state \<Rightarrow> string \<Rightarrow> bool" where
  "stays st x \<longleftrightarrow> (\<forall>z. compact_text st (x @ z) = x @ compact_text st z)"

lemma staysD: "stays st x \<Longrightarrow> compact_text st (x @ z) = x @ compact_text st z"
  by (simp add: stays_def)

lemma staysI: "(\<And>z. compact_text st (x @ z) = x @ compact_text st z) \<Longrightarrow> stays st x"
  by (simp add: stays_def)

lemma stays_append: "stays st x \<Longrightarrow> stays st y \<Longrightarrow> stays st (x @ y)"
  by (simp add: stays_def)

lemma stays_Nil [simp]: "stays st []"
  by (simp add: stays_def)

lemma line_sep_hd: "is_line_sep (c # s) \<Longrightarrow> c = CHR 0xE2"
  using line_sep_bytes by blast

lemma compact_plain:
  "\<not> html_char c \<Longrightarrow> c \<noteq> CHR 0xE2 \<Longrightarrow> \<not> (st = Outside \<and> is_space c) \<Longrightarrow>
     compact_text st (c # s) = c # compact_text (next_state st c) s"
  using line_sep_hd [of c s] by auto

lemma stays_Cons:
  "\<not> html_char c \<Longrightarrow> c \<noteq> CHR 0xE2 \<Longrightarrow> \<not> (st = Outside \<and> is_space c) \<Longrightarrow> next_state st c = st \<Longrightarrow>
     stays st x \<Longrightarrow> stays st (c # x)"
  by (simp add: stays_def compact_plain del: compact_text.simps)

declare compact_text.simps(2) [simp del]

definition plain_char :: "char \<Rightarrow> bool" where
  "plain_char c \<longleftrightarrow> \<not> html_char c \<and> c \<noteq> CHR 0xE2 \<and> c \<noteq> CHR 0x22 \<and> c \<noteq> CHR 0x5C"

lemma plain_string: "list_all plain_char x \<Longrightarrow> stays In_string x"
  by (induction x) (auto intro: stays_Cons simp: plain_char_def)

lemma plain_outside: "list_all (\<lambda>c. plain_char c \<and> \<not> is_space c) x \<Longrightarrow> stays Outside x"
  by (induction x) (auto intro: stays_Cons simp: plain_char_def)

lemma plain_char_bound: "48 \<le> byte_val c \<and> byte_val c \<le> 57 \<or> 97 \<le> byte_val c \<and> byte_val c \<le> 122 \<Longrightarrow> plain_char c"
  by (auto simp: plain_char_def html_char_def byte_val_def)

lemma plain_hex_digit [simp]: "n < 16 \<Longrightarrow> plain_char (hex_digit n)"
  by (rule plain_char_bound) (auto simp: hex_digit_def)

lemma stays_escaped:
  assumes "\<not> html_char d" "d \<noteq> CHR 0xE2" "stays In_string x"
  shows "stays In_string (CHR 0x5C # d # x)"
  using assms by (auto simp: stays_def compact_plain html_char_def)

lemma stays_hex_escape: "n < 65536 \<Longrightarrow> stays In_string (hex_escape n)"
  unfolding hex_escape_def
  by (intro stays_escaped plain_string) (simp_all add: html_char_def)

lemma escape_html: "html_char c \<Longrightarrow> escape_ascii c = hex_escape (byte_val c)"
  by (auto simp: html_char_def escape_ascii_def)

lemma simple_escape_letter: "simple_escape d = Some c \<Longrightarrow> \<not> html_char d \<and> d \<noteq> CHR 0xE2"
  by (auto simp: simple_escape_def html_char_def split: if_splits)

lemma stays_escape_ascii:
  assumes "byte_val c < 128"
  shows "stays In_string (escape_ascii c)"
proof -
  have e2: "c \<noteq> CHR 0xE2" using assms by (auto simp: byte_val_def)
  have hex: "stays In_string (hex_escape (byte_val c))" using assms by (simp add: stays_hex_escape)
  show ?thesis
  proof (cases "html_char c")
    case False
    from escape_ascii_cases [of c] show ?thesis
    proof (elim disjE exE conjE)
      assume "escape_ascii c = [c]" "c \<noteq> CHR 0x22" "c \<noteq> CHR 0x5C"
      then show ?thesis using False e2 by (simp add: plain_string plain_char_def)
    next
      fix d assume "escape_ascii c = [CHR 0x5C, d]" "simple_escape d = Some c"
      then show ?thesis using simple_escape_letter by (simp add: stays_escaped)
    qed (use hex in simp)
  qed (simp add: hex escape_html)
qed

lemma rune_plain:
  assumes "rune_len (c # s) = n" "0 < n" "128 \<le> byte_val c" "\<not> is_line_sep (c # s)"
  shows "stays In_string (c # take (n - 1) s)"
proof -
  have cont: "plain_char d" if "is_cont d" for d
    using that by (auto simp: plain_char_def html_char_def is_cont_def byte_val_def)
  have high: "\<not> html_char c \<and> c \<noteq> CHR 0x22 \<and> c \<noteq> CHR 0x5C"
    using assms(3) by (auto simp: html_char_def byte_val_def)
  have tail: "list_all plain_char (take (n - 1) s)"
    using rune_len_cases [of "c # s"] assms(1-3) cont
    by (auto simp: seq2_def seq3_def seq4_def numeral_eq_Suc)
  have "\<not> is_line_sep (c # take (n - 1) s @ z)" for z
  proof
    assume sep: "is_line_sep (c # take (n - 1) s @ z)"
    then obtain d r where b: "c = CHR 0xE2" "take (n - 1) s @ z = CHR 0x80 # d # r"
      using line_sep_bytes by blast
    have "byte_val c = 226" by (simp add: b(1) byte_val_def)
    then have "n = 3" using rune_len_cases [of "c # s"] assms(1,2)
      by (auto simp: seq2_def seq4_def)
    then have "take 3 (c # take (n - 1) s @ z) = take 3 (c # s)"
      using rune_len_le [of "c # s"] assms(1) by (simp add: numeral_eq_Suc)
    then show False using sep assms(4) by (simp add: is_line_sep_def)
  qed
  then have "compact_text In_string (c # take (n - 1) s @ z) = c # compact_text In_string (take (n - 1) s @ z)" for z
    using high by (simp add: compact_text.simps(2))
  then show ?thesis using plain_string [OF tail] by (simp add: stays_def)
qed

lemma stays_escape: "stays In_string (escape s)"
proof (induction s rule: escape.induct)
  case (2 c s)
  consider (ascii) "byte_val c < 128" | (bad) "128 \<le> byte_val c" "rune_len (c # s) = 0"
    | (sep) "128 \<le> byte_val c" "0 < rune_len (c # s)" "is_line_sep (c # s)"
    | (rune) "128 \<le> byte_val c" "0 < rune_len (c # s)" "\<not> is_line_sep (c # s)"
    by linarith
  then show ?case
  proof cases
    case ascii
    then show ?thesis using 2(1) [OF refl ascii]
      by (simp add: escape.simps(2) stays_append stays_escape_ascii)
  next
    case bad
    then show ?thesis using 2(2) [OF refl]
      by (simp add: escape.simps(2) stays_append stays_hex_escape)
  next
    case sep
    have "8224 + byte_val (s ! 1) mod 16 < 65536" using mod_less_divisor [of 16 "byte_val (s ! 1)"] by linarith
    then show ?thesis using 2(3) [OF refl] sep
      by (simp add: escape.simps(2) stays_append stays_hex_escape)
  next
    case rune
    then show ?thesis using 2(4) [OF refl] stays_append [OF rune_plain [OF refl rune(2,1,3)]]
      by (simp add: escape.simps(2) Let_def)
  qed
qed simp

lemma outside_quote: "stays Outside (quote s)"
proof (rule staysI)
  fix z
  have "compact_text Outside (CHR 0x22 # x) = CHR 0x22 # compact_text In_string x"
    "compact_text In_string (CHR 0x22 # x) = CHR 0x22 # compact_text Outside x" for x
    by (simp_all add: compact_plain html_char_def is_space_def byte_val_def)
  then show "compact_text Outside (quote s @ z) = quote s @ compact_text Outside z"
    using staysD [OF stays_escape, of s "CHR 0x22 # z"] by (simp add: quote_def)
qed

lemma outside_char:
  assumes "c \<in> {CHR ''{'', CHR ''}'', CHR ''['', CHR '']'', CHR '':'', CHR '',''}" "stays Outside x"
  shows "stays Outside (c # x)"
  by (rule stays_Cons [OF _ _ _ _ assms(2)]) (use assms(1) in \<open>auto simp: html_char_def is_space_def byte_val_def\<close>)

lemma outside_joined: "list_all (stays Outside) xs \<Longrightarrow> stays Outside (joined (CHR '','') xs)"
proof (induction xs)
  case (Cons x xs)
  then show ?case
    by (cases "xs = []") (simp_all add: joined_Cons stays_append outside_char)
qed simp

lemma outside_number: "number_literal n \<Longrightarrow> stays Outside n"
proof (rule plain_outside)
  assume "number_literal n"
  moreover have "plain_char c \<and> \<not> is_space c" if "is_number_char c" for c
    using that by (auto simp: is_number_char_def is_digit_def plain_char_def html_char_def is_space_def byte_val_def)
  ultimately show "list_all (\<lambda>c. plain_char c \<and> \<not> is_space c) n"
    using number_literal_chars [of n] by (simp add: list_all_iff)
qed

lemma compact_print: "numbers_ok v \<Longrightarrow> stays Outside (print_json v)"
proof (induction v rule: print_json.induct)
  case (5 vs)
  then have "list_all (stays Outside) (map print_json vs)" by (auto simp: list_all_iff)
  then show ?case by (simp add: outside_char outside_joined stays_append)
next
  case (6 kvs)
  have "stays Outside (quote k @ '':'' @ print_json v)" if "(k, v) \<in> set kvs" for k v
  proof -
    have "numbers_ok v" using 6(2) that by (auto simp: list_all_iff)
    then have "stays Outside (print_json v)" using 6(1) that by blast
    then show ?thesis by (simp add: stays_append outside_quote outside_char)
  qed
  then have "list_all (stays Outside) (map (\<lambda>(k, v). quote k @ '':'' @ print_json v) kvs)"
    by (auto simp: list_all_iff)
  then show ?case by (simp add: outside_char outside_joined stays_append)
qed (auto intro!: plain_outside simp: outside_number outside_quote plain_char_def html_char_def is_space_def byte_val_def)

section \<open>The text of an event\<close>

definition event_json :: "string \<Rightarrow> int \<Rightarrow> json \<Rightarrow> json" where
  "event_json ty ts v = JObj [(''type'', JStr ty), (''ts'', JInt ts), (''payload'', v)]"

text \<open>
  An event whose payload was marshalled before is sent as the text of one object, and read back as
  that object with the sanitized payload; a payload nested too deeply is not sent.
\<close>

lemma Marshal_event_text:
  assumes "numbers_ok v" "we_Payload e = Marshal v" "Marshal_event e = Some m"
  shows "m = Marshal (event_json (we_Type e) (we_Timestamp e) v)"
  using assms(2,3) staysD [OF compact_print [OF assms(1)], of "[]"]
  by (auto simp: Marshal_event_def Marshal_def event_json_def JInt_def split: if_splits)

lemma Marshal_event_defined:
  assumes "numbers_ok v" "fits 0 v" "we_Payload e = Marshal v"
  shows "Marshal_event e = Some (Marshal (event_json (we_Type e) (we_Timestamp e) v))"
proof -
  have "Marshal_event e \<noteq> None"
    using parse_print [OF assms(1,2)] by (simp add: Marshal_event_def assms(3) Marshal_def)
  then show ?thesis using Marshal_event_text [OF assms(1,3)] by blast
qed

lemma event_json_read:
  assumes "numbers_ok v" "fits 1 v"
  shows "parse_json (text_of (Marshal (event_json ty ts v))) = Some (event_json (sanitize ty) ts (sanitize_json v))"
proof -
  have "sanitize ''type'' = ''type''" "sanitize ''ts'' = ''ts''" "sanitize ''payload'' = ''payload''"
    by (rule sanitize_valid, rule valid_utf8_ascii, simp add: byte_val_def)+
  moreover have "numbers_ok (event_json ty ts v)" "fits 0 (event_json ty ts v)"
    using assms by (simp_all add: event_json_def JInt_def)
  ultimately show ?thesis
    using parse_print [of "event_json ty ts v"] by (simp add: Marshal_def event_json_def JInt_def)
qed

end
