(* ===== verification/Ws_Hub.thy ===== *)
theory Ws_Hub
  imports Ws_Events Step_Systems "HOL-Library.Sublist"
begin

text \<open>
  \<open>internal/transport/ws_server.go\<close>: the hub that fans events out to WebSocket clients. A client
  pointer is a number into \<open>h_heap\<close>; the channels are bounded queues. The cases of \<open>Run\<close>'s
  \<open>select\<close>, the two pumps of a client and \<open>Broadcast\<close> are functions on the hub, \<open>None\<close> being a
  panic (a send on, or a second close of, a closed channel); \<open>hub_step\<close> interleaves them.
  Events and their text are in \<open>Ws_Events\<close>.
\<close>

section \<open>Data\<close>

text \<open>
  A client: its queue, whether its channel is closed, whether its pumps still run, what
  \<open>writePump\<close> has written to the connection; and, for the statements only, how many messages the
  hub had broadcast when it was registered.
\<close>

record wsClient =
  ws_send :: "bytes list"
  ws_closed :: bool
  ws_reading :: bool
  ws_writing :: bool
  ws_written :: "bytes list"
  ws_joined :: nat

record WSHub =
  h_clients :: "(nat, bool) gomap"
  h_broadcast :: "WSEvent list"
  h_register :: "nat list"
  h_unregister :: "nat list"
  h_heap :: "(nat, wsClient) gomap"
  h_log :: "bytes list" \<comment> \<open>the messages broadcast so far\<close>

definition NewWSHub :: WSHub where
  "NewWSHub = \<lparr>h_clients = gm_empty, h_broadcast = [], h_register = [], h_unregister = [],
     h_heap = gm_empty, h_log = []\<rparr>"

definition set_client :: "WSHub \<Rightarrow> nat \<Rightarrow> wsClient \<Rightarrow> WSHub" where
  "set_client h c cl = h\<lparr>h_heap := gm_put (h_heap h) c cl\<rparr>"

section \<open>Run\<close>

definition Run_register :: "WSHub \<Rightarrow> nat \<Rightarrow> nat list \<Rightarrow> WSHub" where
  "Run_register h c rest =
     (let h1 = h\<lparr>h_register := rest, h_clients := gm_put (h_clients h) c True\<rparr> in
      case gm_get (h_heap h1) c of
        None \<Rightarrow> h1
      | Some cl \<Rightarrow> set_client h1 c (cl\<lparr>ws_joined := length (h_log h1)\<rparr>))"

definition close_send :: "WSHub \<Rightarrow> nat \<Rightarrow> WSHub option" where
  "close_send h c =
     (case gm_get (h_heap h) c of
        None \<Rightarrow> None
      | Some cl \<Rightarrow> if ws_closed cl then None else Some (set_client h c (cl\<lparr>ws_closed := True\<rparr>)))"

definition Run_unregister :: "WSHub \<Rightarrow> nat \<Rightarrow> nat list \<Rightarrow> WSHub option" where
  "Run_unregister h c rest =
     (let h1 = h\<lparr>h_unregister := rest\<rparr> in
      if gm_get (h_clients h1) c = None then Some h1
      else close_send (h1\<lparr>h_clients := gm_del (h_clients h1) c\<rparr>) c)"

text \<open>The loop over the clients: a full queue closes the client's channel and drops the client.\<close>

fun broadcast_loop :: "bytes \<Rightarrow> nat list \<Rightarrow> WSHub \<Rightarrow> WSHub option" where
  "broadcast_loop dat [] h = Some h"
| "broadcast_loop dat (c # cs) h =
     (case gm_get (h_heap h) c of
        None \<Rightarrow> None
      | Some cl \<Rightarrow>
          if ws_closed cl then None
          else if length (ws_send cl) < 256
          then broadcast_loop dat cs (set_client h c (cl\<lparr>ws_send := ws_send cl @ [dat]\<rparr>))
          else (case close_send h c of
              None \<Rightarrow> None
            | Some h1 \<Rightarrow> broadcast_loop dat cs (h1\<lparr>h_clients := gm_del (h_clients h1) c\<rparr>)))"

definition Run_broadcast :: "WSHub \<Rightarrow> WSEvent \<Rightarrow> WSEvent list \<Rightarrow> WSHub option" where
  "Run_broadcast h e rest =
     (let h1 = h\<lparr>h_broadcast := rest\<rparr> in
      case Marshal_event e of
        None \<Rightarrow> Some h1
      | Some dat \<Rightarrow> broadcast_loop dat (gm_keys (h_clients h1)) (h1\<lparr>h_log := h_log h1 @ [dat]\<rparr>))"

section \<open>The other goroutines\<close>

text \<open>The payload is the JSON value of what the caller passes; marshalling it does not fail.\<close>

definition Hub_Broadcast :: "int \<Rightarrow> WSHub \<Rightarrow> string \<Rightarrow> json \<Rightarrow> WSHub" where
  "Hub_Broadcast now h ty payload =
     (if length (h_broadcast h) < 1024
      then h\<lparr>h_broadcast := h_broadcast h @
               [\<lparr>we_Type = ty, we_Timestamp = now, we_Payload = Marshal payload\<rparr>]\<rparr>
      else h)"

text \<open>\<open>ServeHTTP\<close> after a successful upgrade; it blocks while the registration queue is full.\<close>

definition ServeHTTP :: "WSHub \<Rightarrow> nat \<Rightarrow> WSHub option" where
  "ServeHTTP h c =
     (if gm_get (h_heap h) c \<noteq> None \<or> 64 \<le> length (h_register h) then None
      else Some ((set_client h c \<lparr>ws_send = [], ws_closed = False, ws_reading = True,
                    ws_writing = True, ws_written = [], ws_joined = 0\<rparr>)
                 \<lparr>h_register := h_register h @ [c]\<rparr>))"

text \<open>\<open>readPump\<close> ends when the connection does; its deferred call unregisters the client.\<close>

definition readPump_end :: "WSHub \<Rightarrow> nat \<Rightarrow> WSHub option" where
  "readPump_end h c =
     (case gm_get (h_heap h) c of
        None \<Rightarrow> None
      | Some cl \<Rightarrow>
          if \<not> ws_reading cl \<or> 64 \<le> length (h_unregister h) then None
          else Some ((set_client h c (cl\<lparr>ws_reading := False\<rparr>))\<lparr>h_unregister := h_unregister h @ [c]\<rparr>))"

text \<open>
  One round of \<open>writePump\<close>: a queued message is written, a closed and drained channel or a failed
  write ends it. \<open>ok\<close> says whether the connection takes the message.
\<close>

definition writePump_round :: "WSHub \<Rightarrow> nat \<Rightarrow> bool \<Rightarrow> WSHub option" where
  "writePump_round h c ok =
     (case gm_get (h_heap h) c of
        None \<Rightarrow> None
      | Some cl \<Rightarrow>
          if \<not> ws_writing cl then None
          else (case ws_send cl of
              m # ms \<Rightarrow>
                Some (set_client h c (if ok
                  then cl\<lparr>ws_send := ms, ws_written := ws_written cl @ [m]\<rparr>
                  else cl\<lparr>ws_send := ms, ws_writing := False\<rparr>))
            | [] \<Rightarrow>
                if ws_closed cl then Some (set_client h c (cl\<lparr>ws_writing := False\<rparr>)) else None))"

text \<open>A ping that the connection does not take ends \<open>writePump\<close> too.\<close>

definition writePump_ping :: "WSHub \<Rightarrow> nat \<Rightarrow> bool \<Rightarrow> WSHub option" where
  "writePump_ping h c ok =
     (case gm_get (h_heap h) c of
        None \<Rightarrow> None
      | Some cl \<Rightarrow>
          if \<not> ws_writing cl then None
          else Some (if ok then h else set_client h c (cl\<lparr>ws_writing := False\<rparr>)))"

text \<open>A payload that the machine of the client's decoder has room for inside an event.\<close>

definition json_sendable :: "json \<Rightarrow> bool" where
  "json_sendable v \<longleftrightarrow> numbers_ok v \<and> fits 1 v"

inductive hub_step :: "WSHub \<Rightarrow> WSHub \<Rightarrow> bool" where
  hub_register: "h_register h = c # rest \<Longrightarrow> hub_step h (Run_register h c rest)"
| hub_unregister: "h_unregister h = c # rest \<Longrightarrow> Run_unregister h c rest = Some h' \<Longrightarrow> hub_step h h'"
| hub_broadcast: "h_broadcast h = e # rest \<Longrightarrow> Run_broadcast h e rest = Some h' \<Longrightarrow> hub_step h h'"
| hub_event: "json_sendable v \<Longrightarrow> hub_step h (Hub_Broadcast now h ty v)"
| hub_serve: "ServeHTTP h c = Some h' \<Longrightarrow> hub_step h h'"
| hub_read_end: "readPump_end h c = Some h' \<Longrightarrow> hub_step h h'"
| hub_write: "writePump_round h c ok = Some h' \<Longrightarrow> hub_step h h'"
| hub_ping: "writePump_ping h c ok = Some h' \<Longrightarrow> hub_step h h'"

section \<open>The invariant of a client\<close>

text \<open>
  A client that waits for registration or is registered has an open channel. What \<open>writePump\<close> has
  written is an initial part of the messages \<open>L\<close> since the registration; while it runs, what it has
  written and what is queued together are, too, and are all of them for a registered client.
\<close>

definition client_ok :: "bytes list \<Rightarrow> WSHub \<Rightarrow> nat \<Rightarrow> wsClient \<Rightarrow> bool" where
  "client_ok L h c cl \<longleftrightarrow>
     length (ws_send cl) \<le> 256 \<and> ws_joined cl \<le> length L \<and>
     (c \<in> set (h_register h) \<longrightarrow> \<not> ws_closed cl \<and> ws_send cl = [] \<and> ws_written cl = []) \<and>
     (gm_get (h_clients h) c \<noteq> None \<longrightarrow> \<not> ws_closed cl \<and>
        (ws_writing cl \<longrightarrow> ws_written cl @ ws_send cl = drop (ws_joined cl) L)) \<and>
     prefix (ws_written cl) (drop (ws_joined cl) L) \<and>
     (ws_writing cl \<longrightarrow> prefix (ws_written cl @ ws_send cl) (drop (ws_joined cl) L))"

definition hub_struct :: "WSHub \<Rightarrow> bool" where
  "hub_struct h \<longleftrightarrow>
     gm_wf (h_clients h) \<and> distinct (h_register h) \<and>
     set (h_register h) \<inter> set (gm_keys (h_clients h)) = {} \<and>
     set (h_register h) \<union> set (gm_keys (h_clients h)) \<subseteq> set (gm_keys (h_heap h)) \<and>
     length (h_broadcast h) \<le> 1024 \<and> length (h_register h) \<le> 64 \<and> length (h_unregister h) \<le> 64"

text \<open>During a broadcast the clients in \<open>R\<close> have not been given the newest message yet.\<close>

definition hub_inv_in :: "nat set \<Rightarrow> WSHub \<Rightarrow> bool" where
  "hub_inv_in R h \<longleftrightarrow> hub_struct h \<and>
     (\<forall>c cl. gm_get (h_heap h) c = Some cl \<longrightarrow>
        client_ok (if c \<in> R then butlast (h_log h) else h_log h) h c cl)"

lemma hub_inv_inI:
  "hub_struct h \<Longrightarrow> (\<And>c cl. gm_get (h_heap h) c = Some cl \<Longrightarrow>
     client_ok (if c \<in> R then butlast (h_log h) else h_log h) h c cl) \<Longrightarrow> hub_inv_in R h"
  by (simp add: hub_inv_in_def)

abbreviation hub_inv :: "WSHub \<Rightarrow> bool" where
  "hub_inv \<equiv> hub_inv_in {}"

lemma set_client_fields [simp]:
  "h_clients (set_client h c cl) = h_clients h" "h_broadcast (set_client h c cl) = h_broadcast h"
  "h_register (set_client h c cl) = h_register h" "h_unregister (set_client h c cl) = h_unregister h"
  "h_log (set_client h c cl) = h_log h" "h_heap (set_client h c cl) = gm_put (h_heap h) c cl"
  by (simp_all add: set_client_def)

lemma client_ok_cong:
  "h_register h = h_register h' \<Longrightarrow> h_clients h = h_clients h' \<Longrightarrow> client_ok L h = client_ok L h'"
  by (intro ext) (simp add: client_ok_def)

lemma hub_invD: "hub_inv_in R h \<Longrightarrow> gm_get (h_heap h) c = Some cl \<Longrightarrow>
    client_ok (if c \<in> R then butlast (h_log h) else h_log h) h c cl"
  by (simp add: hub_inv_in_def)

lemma hub_inv_set_client:
  assumes "hub_inv_in R h" "client_ok (if c \<in> R' then butlast (h_log h) else h_log h) h c cl"
    "R' - {c} = R - {c}"
  shows "hub_inv_in R' (set_client h c cl)"
proof (rule hub_inv_inI)
  show "hub_struct (set_client h c cl)"
    using assms(1) by (auto simp: hub_inv_in_def hub_struct_def gm.set_keys_put)
next
  fix k x assume x: "gm_get (h_heap (set_client h c cl)) k = Some x"
  have e: "client_ok L (set_client h c cl) = client_ok L h" for L by (rule client_ok_cong) simp_all
  show "client_ok (if k \<in> R' then butlast (h_log (set_client h c cl)) else h_log (set_client h c cl))
      (set_client h c cl) k x"
  proof (cases "k = c")
    case True
    then have "x = cl" using x by simp
    then show ?thesis using assms(2) True unfolding e set_client_fields by blast
  next
    case False
    then have "k \<in> R' \<longleftrightarrow> k \<in> R" "gm_get (h_heap h) k = Some x" using assms(3) x by auto
    then show ?thesis using hub_invD [OF assms(1), of k x] by (cases "k \<in> R") (simp_all add: e)
  qed
qed

text \<open>A step that changes the membership of no client and no client record.\<close>

lemma hub_inv_cong:
  assumes "hub_inv h" "h_register h' = h_register h" "h_clients h' = h_clients h"
    "h_heap h' = h_heap h" "h_log h' = h_log h" "length (h_broadcast h') \<le> 1024"
    "length (h_unregister h') \<le> 64"
  shows "hub_inv h'"
  using assms client_ok_cong [of h' h] by (simp add: hub_inv_in_def hub_struct_def)

text \<open>Dropping a registered client and closing its channel.\<close>

lemma drop_client:
  assumes inv: "hub_inv_in R h" and c: "gm_get (h_clients h) c \<noteq> None"
  shows "\<exists>h1. close_send h c = Some h1 \<and> hub_inv_in (R - {c}) (h1\<lparr>h_clients := gm_del (h_clients h1) c\<rparr>) \<and>
    h_log h1 = h_log h \<and> h_clients h1 = h_clients h"
proof -
  have s: "hub_struct h" using inv by (simp add: hub_inv_in_def)
  have cm: "c \<in> set (gm_keys (h_clients h))" using c by (simp add: gm.set_keys)
  then have "c \<in> set (gm_keys (h_heap h))" and nr: "c \<notin> set (h_register h)"
    using s by (auto simp: hub_struct_def)
  then obtain cl where cl: "gm_get (h_heap h) c = Some cl" by (auto simp: gm.set_keys)
  note ok = hub_invD [OF inv cl]
  have open_c: "\<not> ws_closed cl" using ok c by (simp add: client_ok_def)
  let ?h1 = "set_client h c (cl\<lparr>ws_closed := True\<rparr>)"
  let ?h2 = "?h1\<lparr>h_clients := gm_del (h_clients h) c\<rparr>"
  have "hub_inv_in (R - {c}) ?h2"
  proof (rule hub_inv_inI)
    show "hub_struct ?h2"
      using s by (auto simp: hub_struct_def gm.set_keys_del gm.set_keys_put)
  next
  fix k x assume x: "gm_get (h_heap ?h2) k = Some x"
  show "client_ok (if k \<in> R - {c} then butlast (h_log ?h2) else h_log ?h2) ?h2 k x"
  proof (cases "k = c")
    case True
    have p: "prefix xs (drop (ws_joined cl) (h_log h))"
      if "prefix xs (drop (ws_joined cl) (butlast (h_log h)))" for xs
    proof -
      have "prefix (drop (ws_joined cl) (butlast (h_log h))) (drop (ws_joined cl) (h_log h))"
        by (metis butlast_append drop_butlast prefix_def prefixeq_butlast prefix_order.refl)
      then show ?thesis using that by (metis prefix_order.trans)
    qed
    have "x = cl\<lparr>ws_closed := True\<rparr>" using x True by simp
    then show ?thesis using True ok nr p
      by (cases "c \<in> R") (auto simp: client_ok_def)
  next
    case False
    then have "gm_get (h_heap h) k = Some x" using x by simp
    from hub_invD [OF inv this] show ?thesis
      using False by (cases "k \<in> R") (simp_all add: client_ok_def)
  qed
  qed
  then show ?thesis using cl open_c by (simp add: close_send_def)
qed

lemma broadcast_loop_inv:
  assumes "hub_inv_in (set cs) h" "set cs \<subseteq> set (gm_keys (h_clients h))" "distinct cs"
    "h_log h = L @ [dat]"
  shows "\<exists>h'. broadcast_loop dat cs h = Some h' \<and> hub_inv h'"
  using assms
proof (induction cs arbitrary: h)
  case (Cons c cs)
  have s: "hub_struct h" using Cons.prems(1) by (simp add: hub_inv_in_def)
  have c: "gm_get (h_clients h) c \<noteq> None" using Cons.prems(2) by (auto simp: gm.set_keys)
  then have "c \<in> set (gm_keys (h_heap h))" and nr: "c \<notin> set (h_register h)"
    using s by (auto simp: hub_struct_def gm.set_keys)
  then obtain cl where cl: "gm_get (h_heap h) c = Some cl" by (auto simp: gm.set_keys)
  have ok: "client_ok L h c cl" using hub_invD [OF Cons.prems(1) cl] Cons.prems(4) by simp
  then have op: "\<not> ws_closed cl" using c by (simp add: client_ok_def)
  show ?case
  proof (cases "length (ws_send cl) < 256")
    case True
    let ?cl = "cl\<lparr>ws_send := ws_send cl @ [dat]\<rparr>"
    have "client_ok (L @ [dat]) h c ?cl"
      using ok True c nr by (auto simp: client_ok_def prefix_def)
    then have "hub_inv_in (set cs) (set_client h c ?cl)"
      using Cons.prems(1,3,4) by (intro hub_inv_set_client [OF Cons.prems(1)]) auto
    then obtain h' where "broadcast_loop dat cs (set_client h c ?cl) = Some h'" "hub_inv h'"
      using Cons.IH [of "set_client h c ?cl"] Cons.prems(2,3,4) by auto
    then show ?thesis using cl op True by simp
  next
    case False
    obtain h1 where h1: "close_send h c = Some h1"
      "hub_inv_in (set (c # cs) - {c}) (h1\<lparr>h_clients := gm_del (h_clients h1) c\<rparr>)"
      "h_log h1 = h_log h" "h_clients h1 = h_clients h"
      using drop_client [OF Cons.prems(1) c] by blast
    have "set (c # cs) - {c} = set cs" using Cons.prems(3) by auto
    then obtain h' where "broadcast_loop dat cs (h1\<lparr>h_clients := gm_del (h_clients h1) c\<rparr>) = Some h'" "hub_inv h'"
      using Cons.IH [of "h1\<lparr>h_clients := gm_del (h_clients h1) c\<rparr>"] Cons.prems(2,3,4) h1
      by (auto simp: gm.set_keys_del)
    then show ?thesis using cl op False h1(1) by simp
  qed
qed simp

section \<open>Every step keeps the invariant\<close>

lemma Run_broadcast_inv:
  assumes inv: "hub_inv h" and q: "h_broadcast h = e # rest"
  shows "\<exists>h'. Run_broadcast h e rest = Some h' \<and> hub_inv h'"
proof (cases "Marshal_event e")
  case None
  have "hub_inv (h\<lparr>h_broadcast := rest\<rparr>)"
    using inv q by (intro hub_inv_cong [OF inv]) (simp_all add: hub_inv_in_def hub_struct_def)
  then show ?thesis by (simp add: Run_broadcast_def None)
next
  case (Some dat)
  let ?h = "h\<lparr>h_broadcast := rest, h_log := h_log h @ [dat]\<rparr>" and ?R = "set (gm_keys (h_clients h))"
  have "hub_inv_in ?R ?h"
  proof (rule hub_inv_inI)
    show "hub_struct ?h" using inv q by (simp add: hub_inv_in_def hub_struct_def)
  next
    fix c cl assume "gm_get (h_heap ?h) c = Some cl"
    then have ok: "client_ok (h_log h) h c cl" using hub_invD [OF inv, of c cl] by simp
    show "client_ok (if c \<in> ?R then butlast (h_log ?h) else h_log ?h) ?h c cl"
    proof (cases "c \<in> ?R")
      case True
      then show ?thesis using ok by (simp add: client_ok_def)
    next
      case False
      then have "gm_get (h_clients h) c = None" by (simp add: gm.set_keys)
      then show ?thesis using ok False by (auto simp: client_ok_def intro: prefix_prefix)
    qed
  qed
  moreover have "distinct (gm_keys (h_clients h))"
    using inv by (simp add: hub_inv_in_def hub_struct_def gm.wf_keys)
  ultimately have "\<exists>h'. broadcast_loop dat (gm_keys (h_clients h)) ?h = Some h' \<and> hub_inv h'"
    by (intro broadcast_loop_inv [where L = "h_log h"]) simp_all
  then show ?thesis by (simp add: Run_broadcast_def Some)
qed

lemma Run_unregister_inv:
  assumes inv: "hub_inv h" and q: "h_unregister h = c # rest"
  shows "\<exists>h'. Run_unregister h c rest = Some h' \<and> hub_inv h'"
proof -
  let ?h = "h\<lparr>h_unregister := rest\<rparr>"
  have inv': "hub_inv ?h"
    using inv q by (intro hub_inv_cong [OF inv]) (simp_all add: hub_inv_in_def hub_struct_def)
  show ?thesis
  proof (cases "gm_get (h_clients h) c = None")
    case True
    then show ?thesis using inv' by (simp add: Run_unregister_def)
  next
    case False
    have swap: "close_send (?h\<lparr>h_clients := m\<rparr>) c = map_option (\<lambda>h1. h1\<lparr>h_clients := m\<rparr>) (close_send ?h c)" for m
      by (simp add: close_send_def set_client_def split: option.split)
    obtain h1 where "close_send ?h c = Some h1" "hub_inv (h1\<lparr>h_clients := gm_del (h_clients h1) c\<rparr>)"
      "h_clients h1 = h_clients ?h"
      using drop_client [OF inv', of c] False by auto
    moreover obtain y where "gm_get (h_clients h) c = Some y" using False by blast
    ultimately show ?thesis by (simp add: Run_unregister_def Let_def swap)
  qed
qed

lemma Run_register_inv:
  assumes inv: "hub_inv h" and q: "h_register h = c # rest"
  shows "hub_inv (Run_register h c rest)"
proof -
  have s: "hub_struct h" using inv by (simp add: hub_inv_in_def)
  then have "c \<in> set (gm_keys (h_heap h))" using q by (auto simp: hub_struct_def)
  then obtain cl where cl: "gm_get (h_heap h) c = Some cl" by (auto simp: gm.set_keys)
  note ok = hub_invD [OF inv cl]
  let ?h = "(set_client (h\<lparr>h_register := rest, h_clients := gm_put (h_clients h) c True\<rparr>) c
      (cl\<lparr>ws_joined := length (h_log h)\<rparr>))"
  have "hub_inv ?h"
  proof (rule hub_inv_inI)
    show "hub_struct ?h"
      using s q by (auto simp: hub_struct_def gm.set_keys_put)
  next
    fix k x assume x: "gm_get (h_heap ?h) k = Some x"
    show "client_ok (if k \<in> {} then butlast (h_log ?h) else h_log ?h) ?h k x"
    proof (cases "k = c")
      case True
      then have "x = cl\<lparr>ws_joined := length (h_log h)\<rparr>" using x by simp
      then show ?thesis using ok q s True by (simp add: client_ok_def hub_struct_def)
    next
      case False
      then have "gm_get (h_heap h) k = Some x" using x by simp
      from hub_invD [OF inv this] show ?thesis using False q by (simp add: client_ok_def)
    qed
  qed
  then show ?thesis by (simp add: Run_register_def Let_def cl)
qed

lemma ServeHTTP_inv:
  assumes inv: "hub_inv h" and ex: "ServeHTTP h c = Some h'"
  shows "hub_inv h'"
proof -
  define cl where "cl = \<lparr>ws_send = [], ws_closed = False, ws_reading = True, ws_writing = True,
    ws_written = [], ws_joined = 0\<rparr>"
  have g: "gm_get (h_heap h) c = None" "length (h_register h) < 64"
    and h': "h' = (set_client h c cl)\<lparr>h_register := h_register h @ [c]\<rparr>"
    using ex by (auto simp: ServeHTTP_def cl_def split: if_splits)
  have s: "hub_struct h" using inv by (simp add: hub_inv_in_def)
  then have c: "c \<notin> set (h_register h)" "c \<notin> set (gm_keys (h_clients h))"
    using g(1) by (auto simp: hub_struct_def gm.set_keys)
  show ?thesis unfolding h'
  proof (rule hub_inv_inI)
    show "hub_struct ((set_client h c cl)\<lparr>h_register := h_register h @ [c]\<rparr>)"
      using s c g(2) by (auto simp: hub_struct_def gm.set_keys_put)
  next
    fix k x assume x: "gm_get (h_heap ((set_client h c cl)\<lparr>h_register := h_register h @ [c]\<rparr>)) k = Some x"
    show "client_ok (if k \<in> {} then butlast (h_log ((set_client h c cl)\<lparr>h_register := h_register h @ [c]\<rparr>))
        else h_log ((set_client h c cl)\<lparr>h_register := h_register h @ [c]\<rparr>))
      ((set_client h c cl)\<lparr>h_register := h_register h @ [c]\<rparr>) k x"
    proof (cases "k = c")
      case True
      then have "x = cl" using x by simp
      moreover have "gm_get (h_clients h) c = None" using c(2) by (simp add: gm.set_keys)
      ultimately show ?thesis using True by (simp add: client_ok_def cl_def)
    next
      case False
      then have "gm_get (h_heap h) k = Some x" using x by simp
      from hub_invD [OF inv this] show ?thesis using False by (simp add: client_ok_def)
    qed
  qed
qed

text \<open>The pumps change one client record in ways that keep it in order.\<close>

lemma pump_inv:
  assumes inv: "hub_inv h" and cl: "gm_get (h_heap h) c = Some cl"
    and cl': "ws_closed cl' = ws_closed cl" "ws_joined cl' = ws_joined cl"
      "length (ws_send cl') \<le> length (ws_send cl)"
      "ws_writing cl' \<longrightarrow> ws_writing cl \<and> ws_written cl' @ ws_send cl' = ws_written cl @ ws_send cl"
      "ws_written cl' = ws_written cl \<or> ws_writing cl'"
      "ws_send cl = [] \<longrightarrow> ws_written cl' = ws_written cl"
  shows "hub_inv (set_client h c cl')"
proof (rule hub_inv_set_client [OF inv])
  have ok: "client_ok (h_log h) h c cl" using hub_invD [OF inv cl] by simp
  have "prefix (ws_written cl') (drop (ws_joined cl) (h_log h))"
  proof (cases "ws_writing cl'")
    case True
    then have "prefix (ws_written cl' @ ws_send cl') (drop (ws_joined cl) (h_log h))"
      using ok cl'(4) by (simp add: client_ok_def)
    then show ?thesis by (rule append_prefixD)
  next
    case False
    then show ?thesis using ok cl'(5) by (simp add: client_ok_def)
  qed
  moreover have "ws_send cl = [] \<longrightarrow> ws_send cl' = []" using cl'(3) by auto
  ultimately have "client_ok (h_log h) h c cl'" using ok cl' by (simp add: client_ok_def)
  then show "client_ok (if c \<in> {} then butlast (h_log h) else h_log h) h c cl'" by simp
qed simp

lemma hub_step_inv:
  assumes inv: "hub_inv h" and "hub_step h h'"
  shows "hub_inv h'"
  using assms(2)
proof (cases rule: hub_step.cases)
  case (hub_register c rest)
  then show ?thesis using Run_register_inv [OF inv] by simp
next
  case (hub_unregister c rest)
  then show ?thesis using Run_unregister_inv [OF inv hub_unregister(1)] by (metis option.inject)
next
  case (hub_broadcast e rest)
  then show ?thesis using Run_broadcast_inv [OF inv hub_broadcast(1)] by (metis option.inject)
next
  case (hub_event v now ty)
  have s: "length (h_broadcast h) \<le> 1024" "length (h_unregister h) \<le> 64"
    using inv by (simp_all add: hub_inv_in_def hub_struct_def)
  have "hub_inv (h\<lparr>h_broadcast := h_broadcast h @ [e]\<rparr>)" if "length (h_broadcast h) < 1024" for e
    using that s by (intro hub_inv_cong [OF inv]) simp_all
  then show ?thesis using hub_event inv by (simp add: Hub_Broadcast_def)
next
  case (hub_serve c)
  then show ?thesis using ServeHTTP_inv [OF inv] by simp
next
  case (hub_read_end c)
  then obtain cl where cl: "gm_get (h_heap h) c = Some cl" "length (h_unregister h) < 64"
    "h' = (set_client h c (cl\<lparr>ws_reading := False\<rparr>))\<lparr>h_unregister := h_unregister h @ [c]\<rparr>"
    by (auto simp: readPump_end_def split: option.splits if_splits)
  have "hub_inv (set_client h c (cl\<lparr>ws_reading := False\<rparr>))"
    by (rule pump_inv [OF inv cl(1)]) simp_all
  then show ?thesis unfolding cl(3)
    by (rule hub_inv_cong) (use inv cl(2) in \<open>simp_all add: hub_inv_in_def hub_struct_def\<close>)
next
  case (hub_write c ok)
  then obtain cl cl' where cl: "gm_get (h_heap h) c = Some cl" "h' = set_client h c cl'" "ws_writing cl"
    "cl' = cl\<lparr>ws_writing := False\<rparr> \<or> (\<exists>m ms. ws_send cl = m # ms \<and>
       cl' \<in> {cl\<lparr>ws_send := ms, ws_written := ws_written cl @ [m]\<rparr>, cl\<lparr>ws_send := ms, ws_writing := False\<rparr>})"
    by (auto simp: writePump_round_def split: option.splits if_splits list.splits)
  then show ?thesis by (auto intro!: pump_inv [OF inv cl(1)])
next
  case (hub_ping c ok)
  then obtain cl where cl: "gm_get (h_heap h) c = Some cl" "ws_writing cl"
    "h' \<in> {h, set_client h c (cl\<lparr>ws_writing := False\<rparr>)}"
    by (auto simp: writePump_ping_def split: option.splits if_splits)
  then show ?thesis using inv by (auto intro!: pump_inv [OF inv cl(1)])
qed

interpretation hub_sys: invariant_system "\<lambda>h. h = NewWSHub" hub_step hub_inv
proof unfold_locales
  show "hub_inv h" if "h = NewWSHub" for h
    using that by (simp add: hub_inv_in_def hub_struct_def NewWSHub_def gm_empty_def gm_wf_def gm_keys_def gm_get_def)
qed (rule hub_step_inv)

section \<open>What a broadcast does to the clients\<close>

text \<open>A registered client gets the message if its queue has room, and loses its channel if not.\<close>

definition offered :: "bytes \<Rightarrow> wsClient \<Rightarrow> wsClient" where
  "offered m cl = (if length (ws_send cl) < 256 then cl\<lparr>ws_send := ws_send cl @ [m]\<rparr> else cl\<lparr>ws_closed := True\<rparr>)"

lemma broadcast_loop_offers:
  "broadcast_loop m cs h = Some h' \<Longrightarrow> distinct cs \<Longrightarrow>
     gm_get (h_heap h') c = (if c \<in> set cs then map_option (offered m) (gm_get (h_heap h) c) else gm_get (h_heap h) c) \<and>
     (gm_get (h_clients h') c = None \<longleftrightarrow> gm_get (h_clients h) c = None \<or>
        c \<in> set cs \<and> (\<forall>cl. gm_get (h_heap h) c = Some cl \<longrightarrow> 256 \<le> length (ws_send cl)))"
proof (induction cs arbitrary: h)
  case (Cons k cs)
  obtain cl where cl: "gm_get (h_heap h) k = Some cl" "\<not> ws_closed cl"
    using Cons.prems(1) by (auto split: option.splits if_splits)
  let ?h1 = "if length (ws_send cl) < 256 then set_client h k (offered m cl)
    else (set_client h k (offered m cl))\<lparr>h_clients := gm_del (h_clients h) k\<rparr>"
  have "broadcast_loop m cs ?h1 = Some h'"
    using Cons.prems(1) cl by (simp add: offered_def close_send_def split: if_splits)
  from Cons.IH [OF this] Cons.prems(2) cl show ?case by auto
qed simp

lemma Run_broadcast_offers:
  assumes "hub_inv h" "h_broadcast h = e # rest" "Marshal_event e = Some m"
  shows "\<exists>h'. Run_broadcast h e rest = Some h' \<and>
    (\<forall>c cl. gm_get (h_clients h) c \<noteq> None \<and> gm_get (h_heap h) c = Some cl \<longrightarrow>
       gm_get (h_heap h') c = Some (offered m cl) \<and>
       (gm_get (h_clients h') c \<noteq> None \<longleftrightarrow> length (ws_send cl) < 256))"
proof -
  obtain h' where h': "Run_broadcast h e rest = Some h'" using Run_broadcast_inv [OF assms(1,2)] by blast
  have "distinct (gm_keys (h_clients h))" using assms(1) by (simp add: hub_inv_in_def hub_struct_def gm_wf_def)
  moreover have "broadcast_loop m (gm_keys (h_clients h)) (h\<lparr>h_broadcast := rest, h_log := h_log h @ [m]\<rparr>) = Some h'"
    using h' by (simp add: Run_broadcast_def Let_def assms(3))
  ultimately have offers: "gm_get (h_heap h') c = map_option (offered m) (gm_get (h_heap h) c) \<and>
      (gm_get (h_clients h') c = None \<longleftrightarrow> (\<forall>cl. gm_get (h_heap h) c = Some cl \<longrightarrow> 256 \<le> length (ws_send cl)))"
    if "gm_get (h_clients h) c \<noteq> None" for c
    using that broadcast_loop_offers [of m "gm_keys (h_clients h)" _ h' c] by (auto simp: gm.set_keys)
  show ?thesis
  proof (intro exI [of _ h'] conjI allI impI h')
    fix c cl assume c: "gm_get (h_clients h) c \<noteq> None \<and> gm_get (h_heap h) c = Some cl"
    then show "gm_get (h_heap h') c = Some (offered m cl)"
      "gm_get (h_clients h') c \<noteq> None \<longleftrightarrow> length (ws_send cl) < 256"
      using offers [OF conjunct1 [OF c]] by (simp_all add: not_le)
  qed
qed

section \<open>What the messages are\<close>

text \<open>Every event waits with a marshalled payload, and every message broadcast is an event's text.\<close>

definition event_text :: "bytes \<Rightarrow> bool" where
  "event_text m \<longleftrightarrow> (\<exists>ty ts v. json_sendable v \<and> m = Marshal (event_json ty ts v))"

definition events_ok :: "WSHub \<Rightarrow> bool" where
  "events_ok h \<longleftrightarrow>
     (\<forall>e \<in> set (h_broadcast h). \<exists>v. json_sendable v \<and> we_Payload e = Marshal v) \<and>
     (\<forall>m \<in> set (h_log h). event_text m)"

lemma events_ok_cong:
  "events_ok h \<Longrightarrow> set (h_broadcast h') \<subseteq> set (h_broadcast h) \<Longrightarrow> h_log h' = h_log h \<Longrightarrow> events_ok h'"
  by (auto simp: events_ok_def)

lemma close_send_keeps: "close_send h c = Some h' \<Longrightarrow> h_broadcast h' = h_broadcast h \<and> h_log h' = h_log h"
  by (auto simp: close_send_def split: option.splits if_splits)

lemma broadcast_loop_keeps:
  "broadcast_loop m cs h = Some h' \<Longrightarrow> h_broadcast h' = h_broadcast h \<and> h_log h' = h_log h"
  by (induction cs arbitrary: h) (fastforce split: option.splits if_splits dest: close_send_keeps)+

lemma Run_broadcast_events:
  assumes "events_ok h" "h_broadcast h = e # rest" "Run_broadcast h e rest = Some h'"
  shows "events_ok h'"
proof (cases "Marshal_event e")
  case None
  then show ?thesis
    using assms by (intro events_ok_cong [OF assms(1)]) (auto simp: Run_broadcast_def)
next
  case (Some m)
  obtain v where v: "json_sendable v" "we_Payload e = Marshal v"
    using assms(1,2) by (auto simp: events_ok_def)
  then have "event_text m"
    using Marshal_event_text [OF _ v(2) Some] by (auto simp: event_text_def json_sendable_def)
  moreover have "h_broadcast h' = rest \<and> h_log h' = h_log h @ [m]"
    using assms(3) Some by (auto simp: Run_broadcast_def Let_def dest: broadcast_loop_keeps)
  ultimately show ?thesis using assms(1,2) by (simp add: events_ok_def)
qed

lemma hub_step_events:
  assumes "events_ok h" "hub_step h h'"
  shows "events_ok h'"
  using assms(2)
proof (cases rule: hub_step.cases)
  case (hub_broadcast e rest)
  then show ?thesis using Run_broadcast_events [OF assms(1)] by blast
next
  case (hub_event v now ty)
  then show ?thesis using assms(1) by (auto simp: Hub_Broadcast_def events_ok_def)
next
  case (hub_unregister c rest)
  then have "h_broadcast h' = h_broadcast h \<and> h_log h' = h_log h"
    by (auto simp: Run_unregister_def Let_def dest!: close_send_keeps split: if_splits)
  then show ?thesis using events_ok_cong [OF assms(1)] by simp
qed (auto intro!: events_ok_cong [OF assms(1)] simp: Run_register_def Let_def ServeHTTP_def readPump_end_def
      writePump_round_def writePump_ping_def split: option.splits if_splits list.splits)

interpretation hub_events: invariant_system "\<lambda>h. h = NewWSHub" hub_step events_ok
proof unfold_locales
  show "events_ok h" if "h = NewWSHub" for h
    using that by (simp add: events_ok_def NewWSHub_def)
qed (rule hub_step_events)

section \<open>Properties\<close>

text \<open>
  C30: the hub never sends on a closed channel and never closes one twice, however clients come,
  go and stall: in every reachable state every case of \<open>Run\<close> that is ready returns.
\<close>

theorem hub_never_panics:
  assumes "reachable (\<lambda>h. h = NewWSHub) hub_step h"
  shows "(h_unregister h = c # rest \<longrightarrow> Run_unregister h c rest \<noteq> None) \<and>
    (h_broadcast h = e # es \<longrightarrow> Run_broadcast h e es \<noteq> None)"
proof -
  have inv: "hub_inv h" using assms by (rule hub_sys.reachable_inv)
  show ?thesis using Run_unregister_inv [OF inv] Run_broadcast_inv [OF inv, of e es] by fastforce
qed

text \<open>
  C31: what a client is sent is, in order and without gaps, an initial part of the messages
  broadcast since it was registered; for a registered client whose \<open>writePump\<close> runs, what has
  been written and what is queued are together all of them.
\<close>

theorem hub_clients_receive_in_order:
  assumes "reachable (\<lambda>h. h = NewWSHub) hub_step h" "gm_get (h_heap h) c = Some cl"
  shows "prefix (ws_written cl) (drop (ws_joined cl) (h_log h)) \<and>
    (gm_get (h_clients h) c \<noteq> None \<and> ws_writing cl \<longrightarrow>
       ws_written cl @ ws_send cl = drop (ws_joined cl) (h_log h))"
  using hub_invD [OF hub_sys.reachable_inv [OF assms(1)] assms(2)] by (simp add: client_ok_def)

text \<open>
  C32: every message a WebSocket client has been sent is the text of one event, and reading it gives
  the event back: an object with a type, a time stamp and the payload, whatever bytes the strings in
  it are made of.
\<close>

theorem clients_receive_json_events:
  assumes "reachable (\<lambda>h. h = NewWSHub) hub_step h" "gm_get (h_heap h) c = Some cl" "m \<in> set (ws_written cl)"
  shows "\<exists>ty ts v. m = Marshal (event_json ty ts v) \<and>
    parse_json (text_of m) = Some (event_json (sanitize ty) ts (sanitize_json v))"
proof -
  have "prefix (ws_written cl) (drop (ws_joined cl) (h_log h))"
    using hub_invD [OF hub_sys.reachable_inv [OF assms(1)] assms(2)] by (simp add: client_ok_def)
  then have "m \<in> set (h_log h)" using assms(3) set_mono_prefix by (blast dest: in_set_dropD)
  then have "event_text m" using hub_events.reachable_inv [OF assms(1)] by (simp add: events_ok_def)
  then obtain ty ts v where "json_sendable v" "m = Marshal (event_json ty ts v)"
    unfolding event_text_def by blast
  then show ?thesis using event_json_read [of v ty ts] unfolding json_sendable_def by blast
qed

text \<open>No queue outgrows its channel, so a slow client or a burst of events costs bounded memory.\<close>

lemma hub_queues_bounded:
  assumes "reachable (\<lambda>h. h = NewWSHub) hub_step h" "gm_get (h_heap h) c = Some cl"
  shows "length (ws_send cl) \<le> 256 \<and> length (h_broadcast h) \<le> 1024 \<and>
    length (h_register h) \<le> 64 \<and> length (h_unregister h) \<le> 64"
proof -
  have inv: "hub_inv h" using assms(1) by (rule hub_sys.reachable_inv)
  show ?thesis using inv hub_invD [OF inv assms(2)] by (simp add: hub_inv_in_def hub_struct_def client_ok_def)
qed

text \<open>A client that has connected, is registered and has been sent one message.\<close>

definition ex_client :: wsClient where
  "ex_client = \<lparr>ws_send = [], ws_closed = False, ws_reading = True, ws_writing = True,
     ws_written = [], ws_joined = 0\<rparr>"

definition ex_text :: bytes where
  "ex_text = Marshal (event_json ''t'' 0 JNull)"

definition ex_hub :: WSHub where
  "ex_hub = \<lparr>h_clients = [(0, True)], h_broadcast = [], h_register = [], h_unregister = [],
     h_heap = [(0, ex_client\<lparr>ws_send := [ex_text]\<rparr>)], h_log = [ex_text]\<rparr>"

lemma ex_served:
  "reachable (\<lambda>h. h = NewWSHub) hub_step (NewWSHub\<lparr>h_heap := [(0, ex_client)], h_register := [0]\<rparr>)"
proof -
  have "ServeHTTP NewWSHub 0 = Some (NewWSHub\<lparr>h_heap := [(0, ex_client)], h_register := [0]\<rparr>)"
    by code_simp
  then have "hub_step NewWSHub (NewWSHub\<lparr>h_heap := [(0, ex_client)], h_register := [0]\<rparr>)"
    by (rule hub_serve)
  moreover have "reachable (\<lambda>h. h = NewWSHub) hub_step NewWSHub" by (rule reach_init) simp
  ultimately show ?thesis by (rule reach_step [rotated])
qed

lemma ex_hub_reachable:
  "reachable (\<lambda>h. h = NewWSHub) hub_step (ex_hub\<lparr>h_unregister := [0], h_heap :=
     [(0, ex_client\<lparr>ws_send := [ex_text], ws_reading := False\<rparr>)]\<rparr>)"
proof -
  let ?h1 = "NewWSHub\<lparr>h_heap := [(0, ex_client)], h_register := [0]\<rparr>"
  let ?h2 = "NewWSHub\<lparr>h_heap := [(0, ex_client)], h_clients := [(0, True)]\<rparr>"
  let ?e = "\<lparr>we_Type = ''t'', we_Timestamp = 0, we_Payload = Marshal JNull\<rparr>"
  have "hub_step ?h1 (Run_register ?h1 0 [])" by (rule hub_register) simp
  moreover have "Run_register ?h1 0 [] = ?h2" by code_simp
  ultimately have r2: "reachable (\<lambda>h. h = NewWSHub) hub_step ?h2" using reach_step [OF ex_served] by simp
  have "hub_step ?h2 (Hub_Broadcast 0 ?h2 ''t'' JNull)" by (rule hub_event) (simp add: json_sendable_def)
  moreover have "Hub_Broadcast 0 ?h2 ''t'' JNull = ?h2\<lparr>h_broadcast := [?e]\<rparr>"
    by (simp add: Hub_Broadcast_def NewWSHub_def)
  ultimately have r3: "reachable (\<lambda>h. h = NewWSHub) hub_step (?h2\<lparr>h_broadcast := [?e]\<rparr>)"
    using reach_step [OF r2] by simp
  have "Marshal_event ?e = Some ex_text" using Marshal_event_defined [of JNull ?e] by (simp add: ex_text_def)
  then have "Run_broadcast (?h2\<lparr>h_broadcast := [?e]\<rparr>) ?e [] = Some ex_hub"
    by (simp add: Run_broadcast_def NewWSHub_def ex_hub_def ex_client_def gm_keys_def gm_get_def
        set_client_def gm_put_def Let_def)
  then have "hub_step (?h2\<lparr>h_broadcast := [?e]\<rparr>) ex_hub" by (intro hub_broadcast [of _ ?e "[]"]) simp_all
  then have r4: "reachable (\<lambda>h. h = NewWSHub) hub_step ex_hub" by (rule reach_step [OF r3])
  have "readPump_end ex_hub 0 = Some (ex_hub\<lparr>h_unregister := [0], h_heap :=
     [(0, ex_client\<lparr>ws_send := [ex_text], ws_reading := False\<rparr>)]\<rparr>)"
    by (simp add: readPump_end_def ex_hub_def ex_client_def gm_get_def gm_put_def set_client_def)
  then show ?thesis by (intro reach_step [OF r4] hub_read_end)
qed

theorem hub_never_panics_witness:
  "Run_unregister (ex_hub\<lparr>h_unregister := [0], h_heap :=
     [(0, ex_client\<lparr>ws_send := [ex_text], ws_reading := False\<rparr>)]\<rparr>) 0 [] \<noteq> None"
  using hub_never_panics [OF ex_hub_reachable] by simp

theorem hub_clients_receive_in_order_witness:
  "\<exists>h cl. reachable (\<lambda>h. h = NewWSHub) hub_step h \<and> gm_get (h_heap h) 0 = Some cl \<and>
     gm_get (h_clients h) 0 \<noteq> None \<and> ws_writing cl \<and> ws_send cl = [ex_text] \<and>
     ws_written cl @ ws_send cl = drop (ws_joined cl) (h_log h)"
proof -
  let ?cl = "ex_client\<lparr>ws_send := [ex_text], ws_reading := False\<rparr>"
  let ?h = "ex_hub\<lparr>h_unregister := [0], h_heap := [(0, ?cl)]\<rparr>"
  have h: "gm_get (h_heap ?h) 0 = Some ?cl" "gm_get (h_clients ?h) 0 \<noteq> None" "ws_writing ?cl"
    "ws_send ?cl = [ex_text]"
    by (simp_all add: ex_hub_def ex_client_def gm_get_def)
  with hub_clients_receive_in_order [OF ex_hub_reachable h(1)]
  have "ws_written ?cl @ ws_send ?cl = drop (ws_joined ?cl) (h_log ?h)" by blast
  with ex_hub_reachable h show ?thesis by blast
qed

lemma ex_written_reachable:
  "reachable (\<lambda>h. h = NewWSHub) hub_step (ex_hub\<lparr>h_unregister := [0], h_heap :=
     [(0, ex_client\<lparr>ws_written := [ex_text], ws_reading := False\<rparr>)]\<rparr>)"
  by (rule reach_step [OF ex_hub_reachable], rule hub_write [of _ 0 True])
    (simp add: writePump_round_def ex_hub_def ex_client_def gm_get_def gm_put_def set_client_def)

theorem clients_receive_json_events_witness:
  "\<exists>h cl. reachable (\<lambda>h. h = NewWSHub) hub_step h \<and> gm_get (h_heap h) 0 = Some cl \<and> ws_written cl = [ex_text] \<and>
     (\<exists>ty ts v. ex_text = Marshal (event_json ty ts v) \<and>
        parse_json (text_of ex_text) = Some (event_json (sanitize ty) ts (sanitize_json v)))"
proof -
  let ?cl = "ex_client\<lparr>ws_written := [ex_text], ws_reading := False\<rparr>"
  have c: "gm_get (h_heap (ex_hub\<lparr>h_unregister := [0], h_heap := [(0, ?cl)]\<rparr>)) 0 = Some ?cl"
    "ex_text \<in> set (ws_written ?cl)" "ws_written ?cl = [ex_text]"
    by (simp_all add: gm_get_def)
  from clients_receive_json_events [OF ex_written_reachable c(1,2)] ex_written_reachable c
  show ?thesis by blast
qed

text \<open>
  A client whose connection breaks before the hub has registered it can be unregistered
  first, which does nothing, and registered afterwards: it stays registered although its
  \<open>readPump\<close> has ended and will never unregister it again.
\<close>

lemma unregister_before_register_leaks:
  "\<exists>h cl. reachable (\<lambda>h. h = NewWSHub) hub_step h \<and> gm_get (h_clients h) 0 = Some True \<and>
     gm_get (h_heap h) 0 = Some cl \<and> \<not> ws_reading cl \<and> h_register h = [] \<and> h_unregister h = [] \<and>
     readPump_end h 0 = None"
proof -
  let ?cl = "ex_client\<lparr>ws_reading := False\<rparr>"
  let ?h1 = "NewWSHub\<lparr>h_heap := [(0, ex_client)], h_register := [0]\<rparr>"
  let ?h2 = "NewWSHub\<lparr>h_heap := [(0, ?cl)], h_register := [0], h_unregister := [0]\<rparr>"
  let ?h3 = "NewWSHub\<lparr>h_heap := [(0, ?cl)], h_register := [0]\<rparr>"
  let ?h4 = "NewWSHub\<lparr>h_heap := [(0, ?cl)], h_clients := [(0, True)]\<rparr>"
  have "hub_step ?h1 ?h2" by (rule hub_read_end [of _ 0]) code_simp
  then have r2: "reachable (\<lambda>h. h = NewWSHub) hub_step ?h2" by (rule reach_step [OF ex_served])
  have "hub_step ?h2 ?h3" by (rule hub_unregister [of _ 0 "[]"]) code_simp+
  then have r3: "reachable (\<lambda>h. h = NewWSHub) hub_step ?h3" by (rule reach_step [OF r2])
  have "hub_step ?h3 (Run_register ?h3 0 [])" by (rule hub_register) simp
  moreover have "Run_register ?h3 0 [] = ?h4" by code_simp
  ultimately have "reachable (\<lambda>h. h = NewWSHub) hub_step ?h4" using reach_step [OF r3] by simp
  moreover have "gm_get (h_clients ?h4) 0 = Some True" "gm_get (h_heap ?h4) 0 = Some ?cl"
    "h_register ?h4 = []" "h_unregister ?h4 = []" "readPump_end ?h4 0 = None"
    by code_simp+
  moreover have "\<not> ws_reading ?cl" by simp
  ultimately show ?thesis by blast
qed

end
