(* ===== verification/Grpc_Server.thy ===== *)
theory Grpc_Server
  imports Broker_Core Consumer_Coordinator Raft_Node Metrics_Collector Ws_Hub
begin

text \<open>
  \<open>internal/transport/grpc_server.go\<close>: the gRPC handlers, which compose the broker, the group
  coordinator, the Raft node, the metrics and the event hub. A handler takes the server, the
  request and the clock readings it makes, and returns the reply (\<open>Inl\<close> is a gRPC error) and the
  new server. Protobuf messages are records with the fields of the generated structs; the
  transport is a parameter: the event encoder, and whether a stream accepts a message.
\<close>

section \<open>Messages\<close>

record PublishRequest =
  pq_Topic :: string
  pq_Partition :: int
  pq_Key :: bytes
  pq_Value :: bytes

record PublishResponse =
  pr_Offset :: int
  pr_Timestamp :: int
  pr_Partition :: int

record FetchRequest =
  fq_Topic :: string
  fq_Partition :: int
  fq_Offset :: int
  fq_MaxBytes :: int
  fq_MaxWaitMs :: int

record FetchResponse =
  fr_Messages :: "Message list"
  fr_HighWatermark :: int

record PartitionMetadata =
  pm_Id :: int
  pm_Leader :: int
  pm_HighWatermark :: int

record TopicMetadata =
  tm_Name :: string
  tm_Partitions :: "PartitionMetadata list"

record BrokerInfo =
  bi_Id :: int
  bi_Addr :: string

record MetadataResponse =
  md_Topics :: "TopicMetadata list"
  md_Brokers :: "BrokerInfo list"

record TopicReply =
  tr_Success :: bool
  tr_Error :: string

record StatsReply =
  st_BrokerId :: int
  st_MessagesIn :: int
  st_MessagesOut :: int
  st_BytesIn :: int
  st_BytesOut :: int
  st_MessagesPerSec :: float64
  st_AvgLatencyMs :: float64
  st_P99LatencyMs :: float64
  st_TopicCount :: int
  st_PartitionCount :: int
  st_ConsumerGroupCount :: int

record JoinGroupResponse =
  jr_GroupId :: string
  jr_MemberId :: string
  jr_Generation :: int
  jr_Members :: "string list"

record SyncGroupResponse =
  sr_AssignedPartitions :: "int list"
  sr_Error :: string

record HeartbeatResponse =
  hr_RebalanceNeeded :: bool
  hr_Error :: string

record OffsetCommit =
  oc_Topic :: string
  oc_Partition :: int
  oc_Offset :: int

record OffsetInfo =
  oi_Topic :: string
  oi_Partition :: int
  oi_Offset :: int
  oi_Lag :: int

text \<open>The payload of an event is a \<open>map[string]interface{}\<close> literal; it is printed in the order of its keys.\<close>

type_synonym payload = "(string \<times> json) list"

definition payload_json :: "payload \<Rightarrow> json" where
  "payload_json pl = json_map False (\<lambda>_ v. v) pl"

record 's Server =
  s_broker :: Broker
  s_fs :: fs
  s_coord :: Coordinator
  s_raft :: "'s Node option"
  s_metrics :: Collector
  s_hub :: WSHub

definition NewGRPCServer :: "Broker \<Rightarrow> fs \<Rightarrow> Coordinator \<Rightarrow> 's Node option \<Rightarrow> Collector \<Rightarrow> WSHub \<Rightarrow> 's Server" where
  "NewGRPCServer b f coord n m hub =
     \<lparr>s_broker = b, s_fs = f, s_coord = coord, s_raft = n, s_metrics = m, s_hub = hub\<rparr>"

text \<open>\<open>err.Error()\<close>; \<open>ioText\<close> is the text of the operating system's error.\<close>

fun err_text :: "string \<Rightarrow> go_error \<Rightarrow> string" where
  "err_text ioText ErrIO = ioText"
| "err_text ioText (Errorf msg) = msg"
| "err_text ioText (ErrWrap msg e) = msg @ '': '' @ err_text ioText e"

definition broadcast :: "int \<Rightarrow> 's Server \<Rightarrow> string \<Rightarrow> payload \<Rightarrow> 's Server" where
  "broadcast now s ty pl = s\<lparr>s_hub := Hub_Broadcast now (s_hub s) ty (payload_json pl)\<rparr>"

section \<open>BrokerService\<close>

text \<open>The clock is read five times: at the start and end in nanoseconds, and by the append, the
  event and the reply in milliseconds.\<close>

record PublishTimes =
  t_start :: int
  t_end :: int
  t_append :: int
  t_event :: int
  t_reply :: int

definition Grpc_Publish :: "PublishTimes \<Rightarrow> 's Server \<Rightarrow> PublishRequest \<Rightarrow>
    (go_error + PublishResponse) \<times> 's Server" where
  "Grpc_Publish tm s req =
     (case Broker_Publish (s_broker s) (pq_Topic req) (pq_Partition req) (pq_Key req) (pq_Value req) (t_append tm) of
        (Inl e, b) \<Rightarrow> (Inl e, s\<lparr>s_broker := b\<rparr>)
      | (Inr offset, b) \<Rightarrow>
          let s1 = s\<lparr>s_broker := b,
                 s_metrics := RecordPublish (s_metrics s) (int (length (pq_Value req)))
                   (time_since (t_end tm) (t_start tm))\<rparr>;
              s2 = broadcast (t_event tm) s1 ''partition.offset''
                 [(''topic'', JStr (pq_Topic req)), (''partition'', JInt (pq_Partition req)),
                  (''offset'', JInt offset)]
          in (Inr \<lparr>pr_Offset = offset, pr_Timestamp = t_reply tm, pr_Partition = pq_Partition req\<rparr>, s2))"

text \<open>
  One round of the loop of \<open>FetchStream\<close>, at the clock reading that its condition is tested
  with: \<open>Some\<close> is the handler's error and the responses it sent, \<open>None\<close> goes round again after the
  pause. The round after the deadline is the code behind the loop.
\<close>

definition FetchStream_round :: "int \<Rightarrow> int \<Rightarrow> bool \<Rightarrow> string \<Rightarrow> int \<Rightarrow> int \<Rightarrow> int \<Rightarrow> 's Server \<Rightarrow>
    (go_error option \<times> FetchResponse list) option \<times> 's Server" where
  "FetchStream_round now deadline sendOk topic i fromOffset maxBytes s =
     (if now < deadline then
        (case Broker_Fetch (s_fs s) (s_broker s) topic i fromOffset maxBytes now of
           (r, b, f) \<Rightarrow>
             let s1 = s\<lparr>s_broker := b, s_fs := f\<rparr> in
             (case r of
                Inl e \<Rightarrow> (Some (Some e, []), s1)
              | Inr (msgs, hw) \<Rightarrow>
                  if 0 < length msgs then
                    (if sendOk
                     then (Some (None, [\<lparr>fr_Messages = msgs, fr_HighWatermark = hw\<rparr>]),
                       s1\<lparr>s_metrics := RecordFetch (s_metrics s1) maxBytes\<rparr>)
                     else (Some (Some ErrIO, []), s1))
                  else (None, s1)))
      else
        (case Broker_Fetch (s_fs s) (s_broker s) topic i fromOffset 0 now of
           (r, b, f) \<Rightarrow>
             let s1 = s\<lparr>s_broker := b, s_fs := f\<rparr> in
             (case r of
                Inl e \<Rightarrow> (Some (None, []), s1)
              | Inr (msgs, hw) \<Rightarrow>
                  if sendOk then (Some (None, [\<lparr>fr_Messages = [], fr_HighWatermark = hw\<rparr>]), s1)
                  else (Some (Some ErrIO, []), s1))))"

text \<open>\<open>clk k\<close> is the clock of the \<open>k\<close>-th round; \<open>None\<close> would be a loop that never ends.\<close>

partial_function (option) FetchStream_loop ::
  "(nat \<Rightarrow> int) \<Rightarrow> int \<Rightarrow> bool \<Rightarrow> string \<Rightarrow> int \<Rightarrow> int \<Rightarrow> int \<Rightarrow> nat \<Rightarrow> 's Server \<Rightarrow>
     (go_error option \<times> FetchResponse list \<times> 's Server) option" where
  "FetchStream_loop clk deadline sendOk topic i fromOffset maxBytes k s =
     (case FetchStream_round (clk k) deadline sendOk topic i fromOffset maxBytes s of
        (x, s1) \<Rightarrow>
          (case x of
             Some (e, rs) \<Rightarrow> Some (e, rs, s1)
           | None \<Rightarrow> FetchStream_loop clk deadline sendOk topic i fromOffset maxBytes (Suc k) s1))"

definition stream_wait :: "FetchRequest \<Rightarrow> int" where
  "stream_wait req =
     (let maxWait = i64 (fq_MaxWaitMs req * 1000000) in if maxWait = 0 then 500000000 else maxWait)"

definition stream_budget :: "FetchRequest \<Rightarrow> int" where
  "stream_budget req = (if fq_MaxBytes req = 0 then 1 * 1024 * 1024 else fq_MaxBytes req)"

definition FetchStream :: "(nat \<Rightarrow> int) \<Rightarrow> int \<Rightarrow> bool \<Rightarrow> 's Server \<Rightarrow> FetchRequest \<Rightarrow>
    (go_error option \<times> FetchResponse list \<times> 's Server) option" where
  "FetchStream clk now sendOk s req =
     FetchStream_loop clk (now + stream_wait req) sendOk (fq_Topic req) (fq_Partition req)
       (fq_Offset req) (stream_budget req) 0 s"

fun topic_metas :: "Broker \<Rightarrow> string list \<Rightarrow> TopicMetadata list" where
  "topic_metas b [] = []"
| "topic_metas b (t # ts) =
     (case GetPartitionInfo b t of
        Inl e \<Rightarrow> topic_metas b ts
      | Inr infos \<Rightarrow>
          \<lparr>tm_Name = t, tm_Partitions = map (\<lambda>x. \<lparr>pm_Id = pi_ID x, pm_Leader = pi_LeaderID x,
             pm_HighWatermark = pi_HWM x\<rparr>) infos\<rparr> # topic_metas b ts)"

definition GetMetadata :: "'s Server \<Rightarrow> string list \<Rightarrow> MetadataResponse" where
  "GetMetadata s topics =
     (let ts = (if length topics = 0 then ListTopics (s_broker s) else topics)
      in \<lparr>md_Topics = topic_metas (s_broker s) ts,
          md_Brokers = [\<lparr>bi_Id = b_ID (s_broker s), bi_Addr = []\<rparr>]\<rparr>)"

section \<open>AdminService\<close>

definition Grpc_CreateTopic :: "string \<Rightarrow> int \<Rightarrow> 's Server \<Rightarrow> string \<Rightarrow> int \<Rightarrow>
    TopicReply \<times> 's Server" where
  "Grpc_CreateTopic ioText now s name parts =
     (case CreateTopic (s_fs s) (s_broker s) name parts now of
        (Some e, b, f) \<Rightarrow>
          (\<lparr>tr_Success = False, tr_Error = err_text ioText e\<rparr>, s\<lparr>s_broker := b, s_fs := f\<rparr>)
      | (None, b, f) \<Rightarrow>
          let s1 = s\<lparr>s_broker := b, s_fs := f, s_coord := SetTopicPartitions (s_coord s) name parts\<rparr>;
              s2 = broadcast now s1 ''topic.created'' [(''topic'', JStr name), (''partitions'', JInt parts)]
          in (\<lparr>tr_Success = True, tr_Error = []\<rparr>, s2))"

definition Grpc_DeleteTopic :: "string \<Rightarrow> int \<Rightarrow> 's Server \<Rightarrow> string \<Rightarrow> TopicReply \<times> 's Server" where
  "Grpc_DeleteTopic ioText now s name =
     (case DeleteTopic (s_fs s) (s_broker s) name now of
        (Some e, b, f) \<Rightarrow>
          (\<lparr>tr_Success = False, tr_Error = err_text ioText e\<rparr>, s\<lparr>s_broker := b, s_fs := f\<rparr>)
      | (None, b, f) \<Rightarrow> (\<lparr>tr_Success = True, tr_Error = []\<rparr>, s\<lparr>s_broker := b, s_fs := f\<rparr>))"

definition GetBrokerStats :: "'s Server \<Rightarrow> StatsReply" where
  "GetBrokerStats s =
     (let snap = Collector_Snapshot (s_metrics s); bStats = Broker_Stats (s_broker s) in
      \<lparr>st_BrokerId = bs_ID bStats, st_MessagesIn = MessagesIn bStats, st_MessagesOut = MessagesOut bStats,
       st_BytesIn = BytesIn bStats, st_BytesOut = BytesOut bStats,
       st_MessagesPerSec = sn_MessagesPerSec snap, st_AvgLatencyMs = sn_AvgLatencyMs snap,
       st_P99LatencyMs = sn_P99LatencyMs snap, st_TopicCount = TopicCount bStats,
       st_PartitionCount = PartitionCount bStats,
       st_ConsumerGroupCount = i32 (int (length (ListGroups (s_coord s))))\<rparr>)"

definition Grpc_ListTopics :: "'s Server \<Rightarrow> string list" where
  "Grpc_ListTopics s = ListTopics (s_broker s)"

section \<open>ConsumerService\<close>

definition JoinGroup :: "int \<Rightarrow> int \<Rightarrow> 's Server \<Rightarrow> string \<Rightarrow> string \<Rightarrow> string list \<Rightarrow>
    int \<Rightarrow> (go_error + JoinGroupResponse) \<times> 's Server" where
  "JoinGroup now evNow s gid mid topics timeoutMs =
     (let c1 = GetOrCreateGroup (s_coord s) gid timeoutMs in
      case GetGroup c1 gid of
        None \<Rightarrow> (Inl (Errorf []), s)
      | Some g \<Rightarrow>
          (case Group_Join now g mid topics of
             ((gen, members, isStable), g') \<Rightarrow>
               let s1 = s\<lparr>s_coord := on_group c1 gid (\<lambda>_. g')\<rparr>;
                   s2 = broadcast evNow s1 ''group.member_joined''
                     [(''group_id'', JStr gid), (''member_id'', JStr mid)]
               in (Inr \<lparr>jr_GroupId = gid, jr_MemberId = mid, jr_Generation = gen, jr_Members = members\<rparr>, s2)))"

definition SyncGroup :: "string \<Rightarrow> 's Server \<Rightarrow> string \<Rightarrow> string \<Rightarrow> int \<Rightarrow> go_error + SyncGroupResponse" where
  "SyncGroup ioText s gid mid gen =
     (case GetGroup (s_coord s) gid of
        None \<Rightarrow> Inl (Errorf (''group '' @ gid @ '' not found''))
      | Some g \<Rightarrow>
          (case Group_Sync g mid gen of
             Inl e \<Rightarrow> Inr \<lparr>sr_AssignedPartitions = [], sr_Error = err_text ioText e\<rparr>
           | Inr parts \<Rightarrow> Inr \<lparr>sr_AssignedPartitions = parts, sr_Error = []\<rparr>))"

definition LeaveGroup :: "int \<Rightarrow> 's Server \<Rightarrow> string \<Rightarrow> string \<Rightarrow> 's Server" where
  "LeaveGroup now s gid mid =
     (case GetGroup (s_coord s) gid of
        None \<Rightarrow> s
      | Some g \<Rightarrow>
          broadcast now (s\<lparr>s_coord := on_group (s_coord s) gid (\<lambda>_. Group_Leave g mid)\<rparr>)
            ''group.member_left'' [(''group_id'', JStr gid), (''member_id'', JStr mid)])"

definition Heartbeat :: "string \<Rightarrow> int \<Rightarrow> 's Server \<Rightarrow> string \<Rightarrow> string \<Rightarrow> int \<Rightarrow> HeartbeatResponse \<times> 's Server" where
  "Heartbeat ioText now s gid mid gen =
     (case GetGroup (s_coord s) gid of
        None \<Rightarrow> (\<lparr>hr_RebalanceNeeded = False, hr_Error = ''group not found''\<rparr>, s)
      | Some g \<Rightarrow>
          (case Group_Heartbeat now g mid gen of
             (r, g') \<Rightarrow>
               let s1 = s\<lparr>s_coord := on_group (s_coord s) gid (\<lambda>_. g')\<rparr> in
               (case r of
                  Inl e \<Rightarrow> (\<lparr>hr_RebalanceNeeded = False, hr_Error = err_text ioText e\<rparr>, s1)
                | Inr rebalance \<Rightarrow> (\<lparr>hr_RebalanceNeeded = rebalance, hr_Error = []\<rparr>, s1))))"

fun commit_loop :: "OffsetCommit list \<Rightarrow> Group \<Rightarrow> Group" where
  "commit_loop [] g = g"
| "commit_loop (o1 # os) g = commit_loop os (CommitOffset g (oc_Topic o1) (oc_Partition o1) (oc_Offset o1))"

definition CommitOffsets :: "'s Server \<Rightarrow> string \<Rightarrow> OffsetCommit list \<Rightarrow> string \<times> 's Server" where
  "CommitOffsets s gid os =
     (case GetGroup (s_coord s) gid of
        None \<Rightarrow> (''group not found'', s)
      | Some g \<Rightarrow> ([], s\<lparr>s_coord := on_group (s_coord s) gid (commit_loop os)\<rparr>))"

definition offset_info :: "Group \<Rightarrow> string \<Rightarrow> PartitionInfo \<Rightarrow> OffsetInfo" where
  "offset_info g t info =
     (let committed = FetchOffset g t (pi_ID info);
          lag = i64 (pi_HWM info - committed)
      in \<lparr>oi_Topic = t, oi_Partition = pi_ID info, oi_Offset = committed,
          oi_Lag = (if lag < 0 then 0 else lag)\<rparr>)"

fun offset_infos :: "Broker \<Rightarrow> Group \<Rightarrow> string list \<Rightarrow> OffsetInfo list" where
  "offset_infos b g [] = []"
| "offset_infos b g (t # ts) =
     (case GetPartitionInfo b t of
        Inl e \<Rightarrow> offset_infos b g ts
      | Inr infos \<Rightarrow> map (offset_info g t) infos @ offset_infos b g ts)"

definition FetchOffsets :: "'s Server \<Rightarrow> string \<Rightarrow> string list \<Rightarrow> go_error + OffsetInfo list" where
  "FetchOffsets s gid topics =
     (case GetGroup (s_coord s) gid of
        None \<Rightarrow> Inl (Errorf ''group not found'')
      | Some g \<Rightarrow> Inr (offset_infos (s_broker s) g topics))"

section \<open>RaftService\<close>

text \<open>Without a Raft node the replies are empty; \<open>None\<close> is a panic of the node's handler.\<close>

definition Grpc_RequestVote :: "'s Server \<Rightarrow> RequestVoteRequest \<Rightarrow> (RequestVoteResponse \<times> 's Server) option" where
  "Grpc_RequestVote s req =
     (case s_raft s of
        None \<Rightarrow> Some (\<lparr>rv_Term = 0, rv_VoteGranted = False\<rparr>, s)
      | Some n \<Rightarrow> map_option (\<lambda>(r, n'). (r, s\<lparr>s_raft := Some n'\<rparr>)) (RequestVote n req))"

definition Grpc_AppendEntries :: "'s Server \<Rightarrow> AppendEntriesRequest \<Rightarrow> (AppendEntriesResponse \<times> 's Server) option" where
  "Grpc_AppendEntries s req =
     (case s_raft s of
        None \<Rightarrow> Some (\<lparr>ae_Term = 0, ae_Success = False\<rparr>, s)
      | Some n \<Rightarrow> map_option (\<lambda>(r, n'). (r, s\<lparr>s_raft := Some n'\<rparr>)) (AppendEntries n req))"

section \<open>FetchStream returns\<close>

text \<open>\<open>time.Sleep\<close> pauses for at least its argument, so two readings are 10 ms apart.\<close>

definition clock_ok :: "(nat \<Rightarrow> int) \<Rightarrow> bool" where
  "clock_ok clk \<longleftrightarrow> (\<forall>k. clk k + 10000000 \<le> clk (Suc k))"

lemma FetchStream_round_waits:
  "FetchStream_round now deadline sendOk t i off mx s = (None, s1) \<Longrightarrow> now < deadline"
  by (auto simp: FetchStream_round_def Let_def split: prod.splits sum.splits if_splits)

lemma FetchStream_loop_returns:
  fixes s :: "'s Server"
  assumes "clock_ok clk"
  shows "\<exists>r. FetchStream_loop clk deadline sendOk t i off mx k s = Some r"
proof (induction "nat (deadline - clk k)" arbitrary: k s rule: less_induct)
  case less
  obtain x s1 where x: "FetchStream_round (clk k) deadline sendOk t i off mx s = (x, s1)" by fastforce
  show ?case
  proof (cases x)
    case None
    then have "clk k < deadline" using x FetchStream_round_waits by blast
    moreover have "clk k < clk (Suc k)" using assms by (auto simp: clock_ok_def dest: spec [of _ k])
    ultimately have "\<exists>r. FetchStream_loop clk deadline sendOk t i off mx (Suc k) s1 = Some r"
      by (intro less) simp
    then show ?thesis by (subst FetchStream_loop.simps) (simp add: x None)
  next
    case (Some r)
    then show ?thesis by (subst FetchStream_loop.simps) (auto simp: x split: prod.split)
  qed
qed

section \<open>Properties\<close>

text \<open>
  C33: \<open>FetchStream\<close> always returns: the loop tests its deadline against a clock that moves by at
  least the 10 ms it sleeps.
\<close>

theorem fetch_stream_terminates:
  assumes "clock_ok clk"
  shows "\<exists>r. FetchStream clk now sendOk s req = Some r"
  unfolding FetchStream_def by (rule FetchStream_loop_returns [OF assms])

section \<open>Offsets\<close>

lemma commit_loop_fetch:
  "FetchOffset (commit_loop os g) t p =
     (case find (\<lambda>o1. oc_Topic o1 = t \<and> oc_Partition o1 = p) (rev os) of
        None \<Rightarrow> FetchOffset g t p | Some o1 \<Rightarrow> oc_Offset o1)"
proof (induction os arbitrary: g)
  case (Cons o1 os)
  have "find P (xs @ [x]) = (case find P xs of None \<Rightarrow> (if P x then Some x else None) | Some y \<Rightarrow> Some y)"
    for P :: "OffsetCommit \<Rightarrow> bool" and xs x
    by (induction xs) auto
  then show ?case
    by (auto simp: Cons.IH committed_offset_lookup split: option.splits)
qed simp

lemma on_group_GetGroup:
  "GetGroup c gid = Some g \<Longrightarrow> GetGroup (on_group c gid f) gid = Some (f g)"
  by (auto simp: GetGroup_def on_group_get)

text \<open>What a group has committed for a partition after one more commit request: its last mention counts.\<close>

definition last_commit :: "OffsetCommit list \<Rightarrow> Group \<Rightarrow> string \<Rightarrow> int \<Rightarrow> int" where
  "last_commit os g t p =
     (case find (\<lambda>o1. oc_Topic o1 = t \<and> oc_Partition o1 = p) (rev os) of
        None \<Rightarrow> FetchOffset g t p | Some o1 \<Rightarrow> oc_Offset o1)"

text \<open>One entry per partition of the topics that exist, in the order of the request and of the map.\<close>

definition offset_report :: "Broker \<Rightarrow> (string \<Rightarrow> int \<Rightarrow> int) \<Rightarrow> string list \<Rightarrow> OffsetInfo list" where
  "offset_report b committed topics =
     concat (map (\<lambda>t. case gm_get (b_partitions b) t of
         None \<Rightarrow> []
       | Some parts \<Rightarrow> map (\<lambda>(i, p). \<lparr>oi_Topic = t, oi_Partition = i, oi_Offset = committed t i,
           oi_Lag = max 0 (i64 (hwm p - committed t i))\<rparr>) parts) topics)"

lemma offset_infos_report: "offset_infos b (commit_loop os g) ts = offset_report b (last_commit os g) ts"
proof (induction ts)
  case (Cons t ts)
  have "offset_info (commit_loop os g) t \<lparr>pi_ID = i, pi_Topic = t, pi_LeaderID = l, pi_HWM = h\<rparr> =
      \<lparr>oi_Topic = t, oi_Partition = i, oi_Offset = last_commit os g t i, oi_Lag = max 0 (i64 (h - last_commit os g t i))\<rparr>"
    for i l h
    by (simp add: offset_info_def commit_loop_fetch last_commit_def Let_def max_def)
  with Cons.IH show ?case
    by (cases "gm_get (b_partitions b) t") (auto simp: GetPartitionInfo_def offset_report_def split: prod.split)
qed (simp add: offset_report_def)

lemma offset_report_elem:
  assumes "x \<in> set (offset_report b committed topics)"
  shows "\<exists>t ps i p. gm_get (b_partitions b) t = Some ps \<and> (i, p) \<in> set ps \<and>
    x = \<lparr>oi_Topic = t, oi_Partition = i, oi_Offset = committed t i, oi_Lag = max 0 (i64 (hwm p - committed t i))\<rparr>"
proof -
  obtain t where t: "x \<in> set (case gm_get (b_partitions b) t of None \<Rightarrow> [] | Some parts \<Rightarrow>
      map (\<lambda>(i, p). \<lparr>oi_Topic = t, oi_Partition = i, oi_Offset = committed t i,
        oi_Lag = max 0 (i64 (hwm p - committed t i))\<rparr>) parts)"
    using assms unfolding offset_report_def set_concat set_map by blast
  then show ?thesis by (cases "gm_get (b_partitions b) t") auto
qed

text \<open>
  C35: after \<open>CommitOffsets\<close>, \<open>FetchOffsets\<close> reports exactly the partitions of the topics asked for that
  exist, each with the offset the request committed last for it, or the one committed before if the
  request does not mention it. The lag is the 64-bit difference to the high watermark, or zero if
  that is negative; it is never negative, and for a commit and a watermark that are not negative it
  is their difference, cut off at zero, and at most the watermark.
\<close>

theorem committed_offsets_and_lag:
  assumes "CommitOffsets s gid os = ([], s1)" "GetGroup (s_coord s) gid = Some g"
  shows "FetchOffsets s1 gid topics = Inr (offset_report (s_broker s) (last_commit os g) topics) \<and>
    (\<forall>x \<in> set (offset_report (s_broker s) (last_commit os g) topics). 0 \<le> oi_Lag x \<and>
       (\<exists>ps p. gm_get (b_partitions (s_broker s)) (oi_Topic x) = Some ps \<and> (oi_Partition x, p) \<in> set ps \<and>
          (0 \<le> oi_Offset x \<and> oi_Offset x < 2 ^ 63 \<and> 0 \<le> hwm p \<and> hwm p < 2 ^ 63 \<longrightarrow>
             oi_Lag x = max 0 (hwm p - oi_Offset x) \<and> oi_Lag x \<le> hwm p)))"
proof -
  have s1: "s_coord s1 = on_group (s_coord s) gid (commit_loop os)" "s_broker s1 = s_broker s"
    using assms by (auto simp: CommitOffsets_def)
  have lag: "max 0 (i64 (hw - off)) = max 0 (hw - off) \<and> max 0 (hw - off) \<le> hw"
    if "0 \<le> off" "off < 2 ^ 63" "0 \<le> hw" "hw < 2 ^ 63" for hw off using that by (simp add: i64_id)
  have "FetchOffsets s1 gid topics = Inr (offset_report (s_broker s) (last_commit os g) topics)"
    using assms(2) s1 by (simp add: FetchOffsets_def on_group_GetGroup offset_infos_report)
  moreover have "0 \<le> oi_Lag x \<and> (\<exists>ps p. gm_get (b_partitions (s_broker s)) (oi_Topic x) = Some ps \<and>
      (oi_Partition x, p) \<in> set ps \<and>
      (0 \<le> oi_Offset x \<and> oi_Offset x < 2 ^ 63 \<and> 0 \<le> hwm p \<and> hwm p < 2 ^ 63 \<longrightarrow>
         oi_Lag x = max 0 (hwm p - oi_Offset x) \<and> oi_Lag x \<le> hwm p))"
    if elem: "x \<in> set (offset_report (s_broker s) (last_commit os g) topics)" for x
  proof -
    obtain t ps i p where x: "gm_get (b_partitions (s_broker s)) t = Some ps" "(i, p) \<in> set ps"
      "x = \<lparr>oi_Topic = t, oi_Partition = i, oi_Offset = last_commit os g t i,
             oi_Lag = max 0 (i64 (hwm p - last_commit os g t i))\<rparr>"
      using offset_report_elem [OF elem] by blast
    show ?thesis
    proof (intro conjI exI impI)
      show "gm_get (b_partitions (s_broker s)) (oi_Topic x) = Some ps" "(oi_Partition x, p) \<in> set ps"
        using x by simp_all
    qed (use lag in \<open>simp_all add: x(3)\<close>)
  qed
  ultimately show ?thesis by blast
qed

section \<open>The server as a whole\<close>

text \<open>The requests that change the server; the others only read it.\<close>

datatype request =
    RqPublish PublishTimes PublishRequest
  | RqFetch "nat \<Rightarrow> int" int bool FetchRequest
  | RqCreateTopic int string int
  | RqDeleteTopic int string
  | RqJoin int int string string "string list" int
  | RqLeave int string string
  | RqHeartbeat int string string int
  | RqCommit string "OffsetCommit list"
  | RqVote RequestVoteRequest
  | RqAppend AppendEntriesRequest

fun serve :: "string \<Rightarrow> 's Server \<Rightarrow> request \<Rightarrow> 's Server option" where
  "serve io s (RqPublish tm req) = Some (snd (Grpc_Publish tm s req))"
| "serve io s (RqFetch clk now sendOk req) = map_option (\<lambda>(e, rs, s'). s') (FetchStream clk now sendOk s req)"
| "serve io s (RqCreateTopic now name parts) = Some (snd (Grpc_CreateTopic io now s name parts))"
| "serve io s (RqDeleteTopic now name) = Some (snd (Grpc_DeleteTopic io now s name))"
| "serve io s (RqJoin now evNow gid mid topics ms) = Some (snd (JoinGroup now evNow s gid mid topics ms))"
| "serve io s (RqLeave now gid mid) = Some (LeaveGroup now s gid mid)"
| "serve io s (RqHeartbeat now gid mid gen) = Some (snd (Heartbeat io now s gid mid gen))"
| "serve io s (RqCommit gid os) = Some (snd (CommitOffsets s gid os))"
| "serve io s (RqVote req) = map_option snd (Grpc_RequestVote s req)"
| "serve io s (RqAppend req) = map_option snd (Grpc_AppendEntries s req)"

text \<open>
  The \<open>batchFlusher\<close> goroutine of a partition wakes up. It goes on after its topic was deleted, but
  then nothing is left in the batch of the partition and the round does nothing.
\<close>

definition Server_flush :: "'s Server \<Rightarrow> string \<Rightarrow> int \<Rightarrow> flush_wakeup \<Rightarrow> int \<Rightarrow> 's Server" where
  "Server_flush s t i w now =
     (case getPartition (s_broker s) t i of
        Inl e \<Rightarrow> s
      | Inr p \<Rightarrow>
          (case batchFlusher_round (s_fs s) p w now of
             (p', f') \<Rightarrow> s\<lparr>s_broker := put_partition (s_broker s) t i p', s_fs := f'\<rparr>))"

text \<open>
  A server runs requests, single rounds of subscriptions that wait, the goroutines of its
  partitions, of its coordinator and of its hub, in any order.
\<close>

inductive server_step :: "string \<Rightarrow> 's Server \<Rightarrow> 's Server \<Rightarrow> bool"
  for io where
  srv_request: "serve io s rq = Some s' \<Longrightarrow> server_step io s s'"
| srv_round: "FetchStream_round now deadline sendOk t i off mx s = (x, s') \<Longrightarrow> server_step io s s'"
| srv_flush: "server_step io s (Server_flush s t i w now)"
| srv_coord: "coord_step (s_coord s) c \<Longrightarrow> server_step io s (s\<lparr>s_coord := c\<rparr>)"
| srv_hub: "hub_step (s_hub s) h \<Longrightarrow> server_step io s (s\<lparr>s_hub := h\<rparr>)"

definition server_init :: "'s Server \<Rightarrow> bool" where
  "server_init s \<longleftrightarrow> coord_init (s_coord s) \<and> s_hub s = NewWSHub"

text \<open>The interface a handler keeps: its components only move by their own steps.\<close>

definition moves :: "'s Server \<Rightarrow> 's Server \<Rightarrow> bool" where
  "moves s s' \<longleftrightarrow> coord_step\<^sup>*\<^sup>* (s_coord s) (s_coord s') \<and> hub_step\<^sup>*\<^sup>* (s_hub s) (s_hub s')"

lemma moves_refl [simp]: "moves s s"
  by (simp add: moves_def)

lemma moves_trans: "moves s s' \<Longrightarrow> moves s' s'' \<Longrightarrow> moves s s''"
  by (auto simp: moves_def)

lemma moves_keep: "s_coord s' = s_coord s \<Longrightarrow> s_hub s' = s_hub s \<Longrightarrow> moves s s'"
  by (simp add: moves_def)

definition payload_ok :: "payload \<Rightarrow> bool" where
  "payload_ok pl \<longleftrightarrow> list_all (\<lambda>(k, v). numbers_ok v \<and> fits 2 v) pl"

lemma payload_sendable: "payload_ok pl \<Longrightarrow> json_sendable (payload_json pl)"
  by (auto simp: json_sendable_def payload_json_def json_map_def payload_ok_def list_all_iff numeral_eq_Suc)

lemma payload_ok_simps [simp]:
  "payload_ok []" "payload_ok ((k, JStr x) # pl) = payload_ok pl" "payload_ok ((k, JInt i) # pl) = payload_ok pl"
  by (simp_all add: payload_ok_def JInt_def)

lemma moves_broadcast: "moves s s' \<Longrightarrow> payload_ok pl \<Longrightarrow> moves s (broadcast now s' ty pl)"
proof -
  assume "moves s s'" "payload_ok pl"
  moreover from this have "hub_step (s_hub s') (Hub_Broadcast now (s_hub s') ty (payload_json pl))"
    by (intro hub_event payload_sendable)
  ultimately show ?thesis by (auto simp: moves_def broadcast_def)
qed

lemma moves_coord: "coord_step\<^sup>*\<^sup>* (s_coord s) c \<Longrightarrow> moves s (s\<lparr>s_coord := c\<rparr>)"
  by (simp add: moves_def)

lemma on_group_op:
  "GetGroup c gid = Some g \<Longrightarrow> g' = exec_op op g \<Longrightarrow> on_group c gid (\<lambda>_. g') = on_group c gid (exec_op op)"
  by (auto simp: GetGroup_def on_group_def)

lemma on_group_step: "GetGroup c gid = Some g \<Longrightarrow> g' = exec_op op g \<Longrightarrow> coord_step c (on_group c gid (\<lambda>_. g'))"
  by (simp add: on_group_op coord_op)

lemma on_group_twice: "on_group (on_group c gid f) gid f' = on_group c gid (\<lambda>g. f' (f g))"
  by (auto simp: on_group_def split: option.splits)

lemma commit_loop_steps: "coord_step\<^sup>*\<^sup>* c (on_group c gid (commit_loop os))"
proof (induction os arbitrary: c)
  case Nil
  have "on_group c gid (commit_loop []) = c"
    by (auto simp: on_group_def gm_put_same split: option.split)
  then show ?case by (simp only: rtranclp.rtrancl_refl)
next
  case (Cons o1 os)
  let ?c = "on_group c gid (exec_op (OCommit (oc_Topic o1) (oc_Partition o1) (oc_Offset o1)))"
  have "coord_step c ?c" by (rule coord_op)
  moreover have "on_group ?c gid (commit_loop os) = on_group c gid (commit_loop (o1 # os))"
    unfolding on_group_twice by (simp add: fun_eq_iff on_group_def split: option.split)
  ultimately show ?case using Cons.IH [of ?c] by (metis converse_rtranclp_into_rtranclp)
qed

lemma FetchStream_round_keeps:
  "FetchStream_round now deadline sendOk t i off mx s = (x, s1) \<Longrightarrow>
     s_coord s1 = s_coord s \<and> s_hub s1 = s_hub s"
  by (auto simp: FetchStream_round_def Let_def split: prod.splits sum.splits if_splits)

lemma FetchStream_loop_moves:
  assumes "FetchStream_loop clk deadline sendOk t i off mx k s = Some r"
  shows "s_coord (snd (snd r)) = s_coord s \<and> s_hub (snd (snd r)) = s_hub s"
proof (rule FetchStream_loop.raw_induct [where P = "\<lambda>clk deadline sendOk t i off mx k s r.
      s_coord (snd (snd r)) = s_coord s \<and> s_hub (snd (snd r)) = s_hub s", OF _ assms], goal_cases)
  case (1 loop clk deadline sendOk t i off mx k s r)
  obtain x s1 where x: "FetchStream_round (clk k) deadline sendOk t i off mx s = (x, s1)" by fastforce
  show ?case
  proof (cases x)
    case None
    then have "loop clk deadline sendOk t i off mx (Suc k) s1 = Some r" using 1(2) x by simp
    from 1(1) [OF this] show ?thesis using FetchStream_round_keeps [OF x] by simp
  next
    case (Some y)
    then show ?thesis using 1(2) x FetchStream_round_keeps [OF x] by (auto split: prod.splits)
  qed
qed

lemma JoinGroup_moves: "moves s (snd (JoinGroup now evNow s gid mid topics ms))"
proof -
  let ?c = "GetOrCreateGroup (s_coord s) gid ms"
  have c: "coord_step (s_coord s) ?c" by (rule coord_create)
  show ?thesis
  proof (cases "GetGroup ?c gid")
    case None
    then show ?thesis by (simp add: JoinGroup_def)
  next
    case (Some g)
    obtain gen members isStable g' where j: "Group_Join now g mid topics = ((gen, members, isStable), g')"
      by (metis prod.exhaust)
    have "coord_step ?c (on_group ?c gid (\<lambda>_. g'))"
      using on_group_step [OF Some, of g' "OJoin now mid topics"] j by simp
    then have "coord_step\<^sup>*\<^sup>* (s_coord s) (on_group ?c gid (\<lambda>_. g'))"
      by (rule rtranclp.rtrancl_into_rtrancl [OF r_into_rtranclp [where r = coord_step, OF c]])
    then show ?thesis by (simp add: JoinGroup_def Some j Let_def moves_broadcast moves_coord)
  qed
qed

lemma LeaveGroup_moves: "moves s (LeaveGroup now s gid mid)"
proof (cases "GetGroup (s_coord s) gid")
  case (Some g)
  have "coord_step (s_coord s) (on_group (s_coord s) gid (\<lambda>_. Group_Leave g mid))"
    using on_group_step [OF Some, of _ "OLeave mid"] by simp
  then show ?thesis by (simp add: LeaveGroup_def Some moves_broadcast moves_coord r_into_rtranclp)
qed (simp add: LeaveGroup_def)

lemma Heartbeat_moves: "moves s (snd (Heartbeat io now s gid mid gen))"
proof (cases "GetGroup (s_coord s) gid")
  case (Some g)
  obtain r g' where h: "Group_Heartbeat now g mid gen = (r, g')" by fastforce
  have "coord_step (s_coord s) (on_group (s_coord s) gid (\<lambda>_. g'))"
    using on_group_step [OF Some, of g' "OHeartbeat now mid gen"] h by simp
  then show ?thesis
    by (cases r) (simp_all add: Heartbeat_def Some h Let_def moves_coord r_into_rtranclp)
qed (simp add: Heartbeat_def)

lemma CommitOffsets_moves: "moves s (snd (CommitOffsets s gid os))"
  by (simp add: CommitOffsets_def moves_coord commit_loop_steps split: option.split)

lemma CreateTopic_moves: "moves s (snd (Grpc_CreateTopic io now s name parts))"
proof -
  obtain r b f where c: "CreateTopic (s_fs s) (s_broker s) name parts now = (r, b, f)" by (metis prod.exhaust)
  have "coord_step (s_coord s) (SetTopicPartitions (s_coord s) name parts)" by (rule coord_set)
  then have "moves s (s\<lparr>s_broker := b, s_fs := f, s_coord := SetTopicPartitions (s_coord s) name parts\<rparr>)"
    by (simp add: moves_def r_into_rtranclp)
  then show ?thesis
    by (cases r) (simp_all add: Grpc_CreateTopic_def c Let_def moves_broadcast moves_keep)
qed

lemma Publish_moves: "moves s (snd (Grpc_Publish tm s req))"
  by (auto simp: Grpc_Publish_def Let_def intro!: moves_broadcast [OF moves_keep] moves_keep [of "s\<lparr>s_broker := _\<rparr>"]
      split: prod.split sum.split)

lemma FetchStream_moves: "FetchStream clk now sendOk s req = Some r \<Longrightarrow> moves s (snd (snd r))"
  unfolding FetchStream_def by (drule FetchStream_loop_moves) (simp add: moves_keep)

lemma DeleteTopic_moves: "moves s (snd (Grpc_DeleteTopic io now s name))"
  by (auto simp: Grpc_DeleteTopic_def intro!: moves_keep split: prod.splits option.splits)

lemma RequestVote_moves: "Grpc_RequestVote s req = Some r \<Longrightarrow> moves s (snd r)"
  by (auto simp: Grpc_RequestVote_def intro!: moves_keep split: option.splits)

lemma AppendEntries_moves: "Grpc_AppendEntries s req = Some r \<Longrightarrow> moves s (snd r)"
  by (auto simp: Grpc_AppendEntries_def intro!: moves_keep split: option.splits)

lemmas handler_moves = Publish_moves FetchStream_moves CreateTopic_moves DeleteTopic_moves JoinGroup_moves
  LeaveGroup_moves Heartbeat_moves CommitOffsets_moves RequestVote_moves AppendEntries_moves

lemma serve_moves: "serve io s rq = Some s' \<Longrightarrow> moves s s'"
proof (cases rq)
  case (RqFetch clk now sendOk req)
  assume "serve io s rq = Some s'"
  then obtain r where "FetchStream clk now sendOk s req = Some r" "s' = snd (snd r)"
    using RqFetch by (auto simp: map_option_eq_Some)
  then show ?thesis using FetchStream_moves by simp
next
  case (RqVote req)
  assume "serve io s rq = Some s'"
  then obtain r where "Grpc_RequestVote s req = Some r" "s' = snd r"
    using RqVote by (auto simp: map_option_eq_Some)
  then show ?thesis using RequestVote_moves by simp
next
  case (RqAppend req)
  assume "serve io s rq = Some s'"
  then obtain r where "Grpc_AppendEntries s req = Some r" "s' = snd r"
    using RqAppend by (auto simp: map_option_eq_Some)
  then show ?thesis using AppendEntries_moves by simp
next
  case (RqPublish tm req)
  assume "serve io s rq = Some s'"
  then have "s' = snd (Grpc_Publish tm s req)" using RqPublish by simp
  then show ?thesis by (simp only: Publish_moves)
next
  case (RqCreateTopic now name parts)
  assume "serve io s rq = Some s'"
  then have "s' = snd (Grpc_CreateTopic io now s name parts)" using RqCreateTopic by simp
  then show ?thesis by (simp only: CreateTopic_moves)
next
  case (RqDeleteTopic now name)
  assume "serve io s rq = Some s'"
  then have "s' = snd (Grpc_DeleteTopic io now s name)" using RqDeleteTopic by simp
  then show ?thesis by (simp only: DeleteTopic_moves)
next
  case (RqJoin now evNow gid mid topics ms)
  assume "serve io s rq = Some s'"
  then have "s' = snd (JoinGroup now evNow s gid mid topics ms)" using RqJoin by simp
  then show ?thesis by (simp only: JoinGroup_moves)
next
  case (RqLeave now gid mid)
  assume "serve io s rq = Some s'"
  then have "s' = LeaveGroup now s gid mid" using RqLeave by simp
  then show ?thesis by (simp only: LeaveGroup_moves)
next
  case (RqHeartbeat now gid mid gen)
  assume "serve io s rq = Some s'"
  then have "s' = snd (Heartbeat io now s gid mid gen)" using RqHeartbeat by simp
  then show ?thesis by (simp only: Heartbeat_moves)
next
  case (RqCommit gid os)
  assume "serve io s rq = Some s'"
  then have "s' = snd (CommitOffsets s gid os)" using RqCommit by simp
  then show ?thesis by (simp only: CommitOffsets_moves)
qed

interpretation server_moves: monotone_system "server_step io" "\<lambda>s. s" moves for io
proof unfold_locales
  fix s s' :: "'a Server" assume "server_step io s s'"
  then show "moves s s'"
  proof (cases rule: server_step.cases)
    case (srv_request rq)
    then show ?thesis by (rule serve_moves)
  next
    case (srv_round now deadline sendOk t i off mx x)
    then show ?thesis by (simp add: FetchStream_round_keeps moves_keep)
  next
    case (srv_flush t i w now)
    then show ?thesis by (auto simp: Server_flush_def intro!: moves_keep split: sum.split prod.split)
  qed (simp_all add: moves_def r_into_rtranclp)
qed (simp, rule moves_trans)

definition server_inv :: "'s Server \<Rightarrow> bool" where
  "server_inv s \<longleftrightarrow> reachable coord_init coord_step (s_coord s) \<and>
     reachable (\<lambda>h. h = NewWSHub) hub_step (s_hub s)"

interpretation server_sys: invariant_system server_init "server_step io" server_inv for io
proof unfold_locales
  show "server_inv s" if "server_init s" for s :: "'a Server"
    using that by (auto simp: server_init_def server_inv_def intro: reach_init)
next
  fix s s' :: "'a Server" assume i: "server_inv s" and "server_step io s s'"
  then have "moves s s'" by (intro server_moves.step_mono)
  with i show "server_inv s'"
    by (simp add: server_inv_def moves_def reachable_steps [of coord_init coord_step "s_coord s"]
        reachable_steps [of "\<lambda>h. h = NewWSHub" hub_step "s_hub s"])
qed

text \<open>
  C34: end to end, whatever requests a server has handled and however they interleaved with the
  rebalances of its coordinator and the work of its hub: a member of a stable group that sends
  \<open>SyncGroup\<close> with the group's generation is answered with its partitions and no error.
\<close>

theorem sync_request_of_stable_member:
  assumes "reachable server_init (server_step io) s" "GetGroup (s_coord s) gid = Some g"
    "g_state g = Stable" "mid \<in> set (memberIDs g)"
  shows "SyncGroup io s gid mid (g_generation g) =
    Inr \<lparr>sr_AssignedPartitions = slice_of (g_assignment g) mid, sr_Error = []\<rparr>"
proof -
  have "reachable coord_init coord_step (s_coord s)"
    using server_sys.reachable_inv [OF assms(1)] by (simp add: server_inv_def)
  from stable_sync_core [OF this assms(2-4)] show ?thesis by (simp add: SyncGroup_def assms(2))
qed

section \<open>Witnesses\<close>

definition ex_server :: "unit Server" where
  "ex_server = NewGRPCServer ex_broker ex_fs NewCoordinator None (New_Collector 0) NewWSHub"

theorem fetch_stream_terminates_witness:
  "\<exists>r. FetchStream (\<lambda>k. int k * 10000000) 0 True ex_server
     \<lparr>fq_Topic = ''t'', fq_Partition = 0, fq_Offset = 0, fq_MaxBytes = 0, fq_MaxWaitMs = 30\<rparr> = Some r"
  by (rule fetch_stream_terminates) (simp add: clock_ok_def)

lemma ex_server_reach: "reachable server_init (server_step io) ex_server"
  by (rule reach_init) (simp add: server_init_def ex_server_def NewGRPCServer_def coord_init_def NewCoordinator_def)

lemma server_coord_steps:
  "coord_step\<^sup>*\<^sup>* c c' \<Longrightarrow> reachable server_init (server_step io) s \<Longrightarrow> s_coord s = c \<Longrightarrow>
    reachable server_init (server_step io) (s\<lparr>s_coord := c'\<rparr>)"
proof (induction rule: rtranclp_induct)
  case base
  have "s\<lparr>s_coord := c\<rparr> = s" unfolding base(2) [symmetric] by simp
  then show ?case using base(1) by (simp only:)
next
  case (step c1 c2)
  have "server_step io (s\<lparr>s_coord := c1\<rparr>) ((s\<lparr>s_coord := c1\<rparr>)\<lparr>s_coord := c2\<rparr>)"
    using step.hyps(2) by (intro srv_coord) simp
  with step.IH [OF step.prems] have "reachable server_init (server_step io) ((s\<lparr>s_coord := c1\<rparr>)\<lparr>s_coord := c2\<rparr>)"
    by (rule reach_step)
  then show ?case by simp
qed

text \<open>The three members of the payload of a publish event, in the order of their names.\<close>

lemma publish_payload:
  "payload_json [(''topic'', JStr t), (''partition'', JInt p), (''offset'', JInt x)] =
     JObj [(''offset'', JInt x), (''partition'', JInt p), (''topic'', JStr t)]"
proof -
  have "sort_key fst [(''topic'', JStr t), (''partition'', JInt p), (''offset'', JInt x)] =
      [(''offset'', JInt x), (''partition'', JInt p), (''topic'', JStr t)]"
    by (simp add: less_eq_char_def)
  then show ?thesis by (simp add: payload_json_def json_map_def)
qed

text \<open>
  C4: what a successful publish, to a topic whose name is valid UTF-8, tells the WebSocket clients.
  If the queue of the hub is full, nothing: the event is dropped. Otherwise the event is queued, its
  text reads back as the topic, the partition and the offset of the reply, and once the hub takes
  the event from its queue, every client that is registered then has that text as the last message
  of its own queue, or is dropped and its channel closed if that queue is full.
\<close>

theorem publish_is_announced:
  assumes "Grpc_Publish tm s req = (Inr resp, s')" "valid_utf8 (pq_Topic req)"
  shows "if length (h_broadcast (s_hub s)) < 1024
    then \<exists>e m. h_broadcast (s_hub s') = h_broadcast (s_hub s) @ [e] \<and> Marshal_event e = Some m \<and>
      parse_json (text_of m) = Some (event_json ''partition.offset'' (t_event tm)
        (JObj [(''offset'', JInt (pr_Offset resp)), (''partition'', JInt (pr_Partition resp)),
               (''topic'', JStr (pq_Topic req))])) \<and>
      (\<forall>h rest. reachable (\<lambda>h. h = NewWSHub) hub_step h \<and> h_broadcast h = e # rest \<longrightarrow>
         (\<exists>h'. Run_broadcast h e rest = Some h' \<and>
            (\<forall>c cl. gm_get (h_clients h) c \<noteq> None \<and> gm_get (h_heap h) c = Some cl \<longrightarrow>
               gm_get (h_heap h') c = Some (if length (ws_send cl) < 256
                 then cl\<lparr>ws_send := ws_send cl @ [m]\<rparr> else cl\<lparr>ws_closed := True\<rparr>) \<and>
               (gm_get (h_clients h') c \<noteq> None \<longleftrightarrow> length (ws_send cl) < 256))))
    else s_hub s' = s_hub s"
proof (cases "length (h_broadcast (s_hub s)) < 1024")
  case True
  let ?v = "JObj [(''offset'', JInt (pr_Offset resp)), (''partition'', JInt (pr_Partition resp)),
    (''topic'', JStr (pq_Topic req))]"
  let ?e = "\<lparr>we_Type = ''partition.offset'', we_Timestamp = t_event tm, we_Payload = Marshal ?v\<rparr>"
  let ?m = "Marshal (event_json ''partition.offset'' (t_event tm) ?v)"
  have q: "h_broadcast (s_hub s') = h_broadcast (s_hub s) @ [?e]"
    using assms(1) True
    by (auto simp: Grpc_Publish_def Let_def broadcast_def Hub_Broadcast_def publish_payload
        split: prod.splits sum.splits)
  have n: "valid_utf8 ''offset''" "valid_utf8 ''partition''" "valid_utf8 ''topic''" "valid_utf8 ''partition.offset''"
    by (rule valid_utf8_ascii, simp add: byte_val_def)+
  have ok: "json_ok 0 ?v" "json_ok 1 ?v" using n assms(2) by simp_all
  then have m: "Marshal_event ?e = Some ?m" using Marshal_event_defined [of ?v ?e] by (simp add: json_ok_def)
  have "parse_json (text_of ?m) = Some (event_json ''partition.offset'' (t_event tm) ?v)"
    using event_json_read [of ?v] ok(2) sanitize_text_valid [of ?v] sanitize_valid [OF n(4)]
    by (simp only: json_ok_def)
  moreover note Run_broadcast_offers [OF hub_sys.reachable_inv _ m, unfolded offered_def]
  ultimately show ?thesis using q m True by (simp only: if_True) blast
qed (use assms(1) in \<open>auto simp: Grpc_Publish_def Let_def broadcast_def Hub_Broadcast_def split: prod.splits sum.splits\<close>)

definition ex_times :: PublishTimes where
  "ex_times = \<lparr>t_start = 0, t_end = 9, t_append = 5, t_event = 6, t_reply = 7\<rparr>"

text \<open>A broker with two stored messages, and a server with one group.\<close>

definition ex_served :: "unit Server" where
  "ex_served =
     (case CreateTopic ex_fs ex_broker ''t'' 1 0 of (_, b, f) \<Rightarrow>
      case Broker_Publish b ''t'' 0 [1] [2] 5 of (_, b1) \<Rightarrow>
      case Broker_Publish b1 ''t'' 0 [] [3] 6 of (_, b2) \<Rightarrow>
      case Broker_Fetch f b2 ''t'' 0 0 100 7 of (_, b3, f3) \<Rightarrow>
        ex_server\<lparr>s_broker := b3, s_fs := f3, s_coord := GetOrCreateGroup NewCoordinator ''g'' 1000\<rparr>)"

theorem publish_is_announced_witness:
  "\<exists>resp s' e m. Grpc_Publish ex_times (snd (Grpc_CreateTopic [] 0 ex_server ''t'' 1))
       \<lparr>pq_Topic = ''t'', pq_Partition = 0, pq_Key = [1], pq_Value = [2]\<rparr> = (Inr resp, s') \<and>
     last (h_broadcast (s_hub s')) = e \<and> Marshal_event e = Some m \<and>
     parse_json (text_of m) = Some (event_json ''partition.offset'' 6
       (JObj [(''offset'', JInt (pr_Offset resp)), (''partition'', JInt (pr_Partition resp)), (''topic'', JStr ''t'')]))"
proof -
  let ?s = "snd (Grpc_CreateTopic [] 0 ex_server ''t'' 1)"
  let ?req = "\<lparr>pq_Topic = ''t'', pq_Partition = 0, pq_Key = [1], pq_Value = [2]\<rparr>"
  have "isl (fst (Broker_Publish (s_broker ?s) ''t'' 0 [1] [2] 5)) = False" by code_simp
  then obtain x b where x: "Broker_Publish (s_broker ?s) ''t'' 0 [1] [2] 5 = (Inr x, b)"
    by (cases "Broker_Publish (s_broker ?s) ''t'' 0 [1] [2] 5"; cases "fst (Broker_Publish (s_broker ?s) ''t'' 0 [1] [2] 5)") auto
  have "\<exists>resp s'. Grpc_Publish ex_times ?s ?req = (Inr resp, s')"
    by (simp add: Grpc_Publish_def ex_times_def Let_def x)
  then obtain resp s' where p: "Grpc_Publish ex_times ?s ?req = (Inr resp, s')" by blast
  have room: "length (h_broadcast (s_hub ?s)) < 1024"
    by (auto simp: Grpc_CreateTopic_def Let_def broadcast_def Hub_Broadcast_def ex_server_def NewGRPCServer_def
        NewWSHub_def split: prod.split option.split)
  have "valid_utf8 (pq_Topic ?req)" by (rule valid_utf8_ascii) (simp add: byte_val_def)
  from publish_is_announced [OF p this] room
  obtain e m where "h_broadcast (s_hub s') = h_broadcast (s_hub ?s) @ [e]" "Marshal_event e = Some m"
    "parse_json (text_of m) = Some (event_json ''partition.offset'' (t_event ex_times)
      (JObj [(''offset'', JInt (pr_Offset resp)), (''partition'', JInt (pr_Partition resp)), (''topic'', JStr (pq_Topic ?req))]))"
    unfolding if_P [OF room] by blast
  then show ?thesis using p by (intro exI [of _ resp] exI [of _ s'] exI [of _ e] exI [of _ m]) (simp add: ex_times_def)
qed

theorem committed_offsets_and_lag_witness:
  "\<exists>s1. CommitOffsets ex_served ''g'' [\<lparr>oc_Topic = ''t'', oc_Partition = 0, oc_Offset = 1\<rparr>] = ([], s1) \<and>
     FetchOffsets s1 ''g'' [''t'', ''u''] = Inr [\<lparr>oi_Topic = ''t'', oi_Partition = 0, oi_Offset = 1, oi_Lag = 1\<rparr>]"
proof -
  let ?os = "[\<lparr>oc_Topic = ''t'', oc_Partition = 0, oc_Offset = 1\<rparr>]"
  have g: "GetGroup (s_coord ex_served) ''g'' = Some (NewGroup ''g'' 1000000000)" by code_simp
  then obtain s1 where c: "CommitOffsets ex_served ''g'' ?os = ([], s1)" by (simp add: CommitOffsets_def)
  have "map_option (map (\<lambda>(i, p). (i, hwm p))) (gm_get (b_partitions (s_broker ex_served)) ''t'') = Some [(0, 2)]"
    "gm_get (b_partitions (s_broker ex_served)) ''u'' = None"
    by code_simp+
  then have "offset_report (s_broker ex_served) (last_commit ?os (NewGroup ''g'' 1000000000)) [''t'', ''u''] =
      [\<lparr>oi_Topic = ''t'', oi_Partition = 0, oi_Offset = 1, oi_Lag = 1\<rparr>]"
    by (auto simp: offset_report_def last_commit_def i64_id)
  with committed_offsets_and_lag [OF c g, of "[''t'', ''u'']"] c show ?thesis by simp
qed

theorem sync_request_of_stable_member_witness:
  "\<exists>(s :: unit Server) g. reachable server_init (server_step []) s \<and> GetGroup (s_coord s) ''g'' = Some g \<and>
     SyncGroup [] s ''g'' ''a'' 1 = Inr \<lparr>sr_AssignedPartitions = [0, 1], sr_Error = []\<rparr>"
proof -
  let ?c = "\<lambda>s. (NewCoordinator\<lparr>co_groups := gm_put (co_groups NewCoordinator) ''g'' s\<rparr>)"
  define j where "j = snd (JoinGroup 0 0 ex_server ''g'' ''a'' [''t''] 1000)"
  have "server_step [] ex_server j"
    unfolding j_def by (rule srv_request [of _ _ "RqJoin 0 0 ''g'' ''a'' [''t''] 1000"]) simp
  with ex_server_reach have rj: "reachable server_init (server_step []) j"
    by (rule reach_step)
  have cj: "s_coord j = ?c ex_joined"
    unfolding j_def ex_server_def by code_simp
  have "gs_run (\<lambda>_. 2) (co_hasOnRebalance (?c ex_joined)) ex_joined [None, None, None] = Some ex_one"
    by code_simp
  moreover have "gm_get (co_groups (?c ex_joined)) ''g'' = Some ex_joined" by simp
  ultimately have "coord_step\<^sup>*\<^sup>* (?c ex_joined) (?c ex_joined\<lparr>co_groups := gm_put (co_groups (?c ex_joined)) ''g'' ex_one\<rparr>)"
    by (rule coord_run_steps)
  moreover have "?c ex_joined\<lparr>co_groups := gm_put (co_groups (?c ex_joined)) ''g'' ex_one\<rparr> = ?c ex_one"
    by code_simp
  ultimately have "coord_step\<^sup>*\<^sup>* (?c ex_joined) (?c ex_one)" by simp
  then have r: "reachable server_init (server_step []) (j\<lparr>s_coord := ?c ex_one\<rparr>)" (is "reachable _ _ ?s")
    using server_coord_steps [OF _ rj cj] by simp
  have g: "GetGroup (s_coord ?s) ''g'' = Some (gs_group ex_one)" by (simp add: GetGroup_def)
  have "g_state (gs_group ex_one) = Stable" "''a'' \<in> set (memberIDs (gs_group ex_one))"
    and e: "g_generation (gs_group ex_one) = 1" "slice_of (g_assignment (gs_group ex_one)) ''a'' = [0, 1]"
    by code_simp+
  from sync_request_of_stable_member [OF r g this(1,2)] show ?thesis
    unfolding e using r g by blast
qed

end
