(* ===== verification/Broker_Topics.thy ===== *)
theory Broker_Topics
  imports Broker_Core
begin

text \<open>
  The abstract view of a whole broker: the topics it has and one list of messages per partition.
  Every operation of the broker, the deletion of a topic and fetches without a byte budget
  included, is matched by an operation on this view; \<open>topics_rel\<close> is the simulation relation the
  server's theory builds on.
\<close>

section \<open>Fetching without a budget\<close>

lemma read_loop_no_budget: "mx \<le> tot \<Longrightarrow> read_loop f h fromOffset mx tot = ([], f)"
  by (subst read_loop.simps) simp

lemma Segment_Read_no_budget:
  "healthy f \<Longrightarrow> mx \<le> 0 \<Longrightarrow>
     Segment_Read f s fromOffset mx = (Inr [], f) \<or> (\<exists>e. Segment_Read f s fromOffset mx = (Inl e, f))"
  by (auto simp: Segment_Read_def Let_def read_loop_no_budget split: option.split)

lemma fetch_loop_no_budget:
  "healthy f \<Longrightarrow> mx \<le> 0 \<Longrightarrow> fetch_loop f segs fromOffset mx 0 = ([], f)"
proof (induction segs)
  case (Cons s segs)
  then show ?case using Segment_Read_no_budget [of f mx s fromOffset] by auto
qed simp

lemma Partition_Fetch_no_budget:
  assumes "part_inv f p mss" "mx \<le> 0" "Partition_Fetch f p fromOffset mx now = ((ms, h), p', f')"
  shows "ms = [] \<and> h = nextOffset p \<and> Partition_flush f p now = (p', f')"
proof -
  obtain p1 f1 where fl: "Partition_flush f p now = (p1, f1)" by fastforce
  obtain mss' where m: "part_inv f1 p1 mss'" "hwm p1 = nextOffset p"
    using flush_part_inv [OF assms(1) fl] by metis
  then have "healthy f1" by (simp add: part_inv_def store_inv_def)
  then show ?thesis
    using assms(2,3) m(2) fl fetch_loop_no_budget
    by (auto simp: Partition_Fetch_def Let_def split: if_splits)
qed

text \<open>A fetch for any offset and any budget.\<close>

lemma Broker_Fetch_any:
  assumes "broker_inv f b L" "getPartition b t i = Inr p"
    "Broker_Fetch f b t i fromOffset mx now = (r, b', f')"
  obtains ms where "r = Inr (ms, int (length (L t i)))" "broker_inv f' b' L"
    "ms = take (length ms) (drop (nat fromOffset) (L t i))"
    "ms \<noteq> [] \<longleftrightarrow> 0 < mx \<and> 0 \<le> fromOffset \<and> fromOffset < int (length (L t i))"
    "\<exists>p'. b' = put_partition b t i p'"
proof -
  have put: "\<exists>p'. b' = put_partition b t i p'"
    using assms(2,3) by (auto simp: Broker_Fetch_def split: prod.splits)
  show thesis
  proof (cases "0 < mx")
    case True
    obtain ms where "r = Inr (ms, int (length (L t i)))" "broker_inv f' b' L"
      "0 \<le> fromOffset \<Longrightarrow> fromOffset < int (length (L t i)) \<Longrightarrow>
         ms \<noteq> [] \<and> ms = take (length ms) (drop (nat fromOffset) (L t i))"
      "\<not> (0 \<le> fromOffset \<and> fromOffset < int (length (L t i))) \<Longrightarrow> ms = []"
      using Broker_Fetch_inv [OF assms(1,2) True assms(3)] by metis
    then show thesis
      using put True that [of ms] by (cases "0 \<le> fromOffset \<and> fromOffset < int (length (L t i))") auto
  next
    case False
    have ok: "part_ok f b t i p (L t i)" "healthy f" using assms(1,2) by (auto simp: broker_inv_def)
    obtain ms h p' where fe: "Partition_Fetch f p fromOffset mx now = ((ms, h), p', f')"
      and r: "r = Inr (ms, h)" "b' = put_partition b t i p'"
      using assms(2,3) by (auto simp: Broker_Fetch_def split: prod.splits)
    obtain mss where m: "part_inv f p mss" "plog p mss = L t i"
      using ok by (auto simp: part_ok_def refines_def)
    have nb: "ms = []" "h = nextOffset p" "Partition_flush f p now = (p', f')"
      using Partition_Fetch_no_budget [OF m(1) _ fe] False by simp_all
    obtain mss' where m': "part_inv f' p' mss'" "concat mss' = plog p mss" "batch p' = []"
      "dataDir p' = dataDir p" "p_ID p' = p_ID p" "p_LeaderID p' = p_LeaderID p"
      "same_outside (dataDir p) f f'"
      using flush_part_inv [OF m(1) nb(3)] by metis
    have "part_ok f' b t i p' (L t i)" "healthy f'"
      using ok m m' by (auto simp: part_ok_def refines_def plog_def part_inv_def store_inv_def)
    then have "broker_inv f' b' (L(t := (L t)(i := L t i)))"
      using broker_inv_put [OF assms(1) getPartition_topic [OF assms(2)], of f' i p' "L t i"] m'(4,7) r
      by simp
    then show thesis
      using that [of "[]"] put False nb r part_inv_length [OF m(1)] m(2) by (simp del: fun_upd_apply)
  qed
qed

section \<open>Closing partitions\<close>

lemma Segment_Close_frame:
  "Segment_Close f s = (e, s', f') \<Longrightarrow> files f' = files f \<and> (healthy f \<longrightarrow> healthy f')"
  by (cases f rule: io_next_cases) (auto simp: Segment_Close_def split: if_splits io.splits)

lemma close_segs_frame:
  "close_segs f ss = (ss', f') \<Longrightarrow> files f' = files f \<and> (healthy f \<longrightarrow> healthy f')"
proof (induction f ss arbitrary: ss' f' rule: close_segs.induct)
  case (2 f s ss)
  then show ?case by (auto split: prod.splits dest!: Segment_Close_frame)
qed simp

lemma same_outside_files: "files f' = files f \<Longrightarrow> same_outside d f f'"
  by (simp add: same_outside_def content_def fexists_def)

lemma Partition_Close_frame:
  assumes "part_inv f p mss" "Partition_Close f p now = (p', f')"
  shows "healthy f' \<and> same_outside (dataDir p) f f'"
proof -
  obtain p1 f1 where fl: "Partition_flush f p now = (p1, f1)" by fastforce
  obtain ss where c: "close_segs f1 (segments p1) = (ss, f')"
    using assms(2) fl by (auto simp: Partition_Close_def split: prod.splits)
  obtain mss' where "part_inv f1 p1 mss'" "same_outside (dataDir p) f f1"
    using flush_part_inv [OF assms(1) fl] by metis
  moreover have "same_outside (dataDir p) f1 f'" using close_segs_frame [OF c] same_outside_files by blast
  ultimately show ?thesis
    using close_segs_frame [OF c] same_outside_trans by (auto simp: part_inv_def store_inv_def)
qed

lemma refines_frame:
  "refines (q, f) l \<Longrightarrow> healthy f' \<Longrightarrow> same_outside d f f' \<Longrightarrow> dataDir q \<noteq> d \<Longrightarrow> refines (q, f') l"
  by (rule refines_other_dir)

text \<open>Closing the partitions of a topic leaves the partitions of other topics alone.\<close>

lemma close_parts_frame:
  assumes "healthy f" "gm_wf ps" "close_parts f ps now = (ps', f')"
    "\<And>i p. (i, p) \<in> set ps \<Longrightarrow> dataDir p = partDir d t i \<and> (\<exists>l. refines (p, f) l)"
  shows "healthy f' \<and> (\<forall>q l t' i. t' \<noteq> t \<longrightarrow> dataDir q = partDir d t' i \<longrightarrow> refines (q, f) l \<longrightarrow> refines (q, f') l)"
  using assms
proof (induction f ps now arbitrary: ps' f' rule: close_parts.induct)
  case (1 f now)
  then show ?case by simp
next
  case (2 f i p ps now)
  obtain p1 f1 where c: "Partition_Close f p now = (p1, f1)" by fastforce
  obtain ps1 where r: "close_parts f1 ps now = (ps1, f')"
    using "2.prems"(3) c by (auto split: prod.splits)
  have p: "dataDir p = partDir d t i" using "2.prems"(4) [of i p] by simp
  obtain mss where "part_inv f p mss" using "2.prems"(4) [of i p] by (auto simp: refines_def)
  then have f1: "healthy f1" "same_outside (partDir d t i) f f1"
    using Partition_Close_frame [OF _ c] p by simp_all
  have "i \<noteq> j" if "(j, q) \<in> set ps" for j q
    using "2.prems"(2) that by (force simp: gm_wf_def gm_keys_def)
  then have rest: "dataDir q = partDir d t j \<and> (\<exists>l. refines (q, f1) l)" if "(j, q) \<in> set ps" for j q
    using "2.prems"(4) [of j q] that refines_frame [OF _ f1, of q] by fastforce
  have "gm_wf ps" using "2.prems"(2) by (simp add: gm_wf_def gm_keys_def)
  note IH = "2.IH" [OF c [symmetric] f1(1) this r rest]
  have "refines (q, f1) l" if "t' \<noteq> t" "dataDir q = partDir d t' j" "refines (q, f) l" for q l t' j
    using refines_frame [OF that(3) f1] that(1,2) by simp
  with IH show ?case by blast
qed

section \<open>The shape of the topic map\<close>

definition broker_wf :: "Broker \<Rightarrow> bool" where
  "broker_wf b \<longleftrightarrow> (\<forall>t ps. gm_get (b_partitions b) t = Some ps \<longrightarrow> gm_wf ps)"

lemma broker_wf_put [simp]: "broker_wf b \<Longrightarrow> broker_wf (put_partition b t i p)"
  by (auto simp: broker_wf_def put_partition_def split: option.splits)

lemma broker_wf_event [simp]: "broker_wf (send_event b e) = broker_wf b"
  by (simp add: broker_wf_def)

lemma topic_put [simp]:
  "gm_get (b_partitions (put_partition b t i p)) t' = None \<longleftrightarrow> gm_get (b_partitions b) t' = None"
  by (auto simp: put_partition_def split: option.splits)

lemma create_parts_frame:
  "create_parts f b t i k now = (r, b', f') \<Longrightarrow> broker_wf b \<Longrightarrow>
     broker_wf b' \<and> (\<forall>t'. gm_get (b_partitions b') t' = None \<longleftrightarrow> gm_get (b_partitions b) t' = None)"
proof (induction f b t i k now arbitrary: r b' f' rule: create_parts.induct)
  case (2 f b t i k now)
  then show ?case by (auto split: prod.splits sum.splits)
qed simp

section \<open>The abstract view\<close>

type_synonym topic_state = "string \<Rightarrow> (int \<Rightarrow> Message list option) option"

definition log_at :: "topic_state \<Rightarrow> string \<Rightarrow> int \<Rightarrow> Message list option" where
  "log_at S t i = (case S t of None \<Rightarrow> None | Some ls \<Rightarrow> ls i)"

definition spec_publish :: "topic_state \<Rightarrow> string \<Rightarrow> int \<Rightarrow> bytes \<Rightarrow> bytes \<Rightarrow> int \<Rightarrow> topic_state" where
  "spec_publish S t i key val now =
     (case S t of
        None \<Rightarrow> S
      | Some ls \<Rightarrow>
          (case ls i of
             None \<Rightarrow> S
           | Some l \<Rightarrow> S(t \<mapsto> ls(i \<mapsto> log_step l (OpAppend key val now)))))"

definition spec_create :: "topic_state \<Rightarrow> string \<Rightarrow> int \<Rightarrow> topic_state" where
  "spec_create S t n = (if S t = None then S(t \<mapsto> (\<lambda>i. if 0 \<le> i \<and> i < n then Some [] else None)) else S)"

definition spec_delete :: "topic_state \<Rightarrow> string \<Rightarrow> topic_state" where
  "spec_delete S t = S(t := None)"

definition topic_logs :: "Broker \<Rightarrow> (string \<Rightarrow> int \<Rightarrow> Message list) \<Rightarrow> topic_state" where
  "topic_logs b L =
     (\<lambda>t. map_option (\<lambda>ps i. map_option (\<lambda>_. L t i) (gm_get ps i)) (gm_get (b_partitions b) t))"

definition topics_rel :: "fs \<Rightarrow> Broker \<Rightarrow> topic_state \<Rightarrow> bool" where
  "topics_rel f b S \<longleftrightarrow> broker_wf b \<and> 0 < SegmentMaxBytes (c_Storage (b_cfg b)) \<and>
     (\<exists>L. broker_inv f b L \<and> S = topic_logs b L)"

lemma topic_logs_None [simp]: "topic_logs b L t = None \<longleftrightarrow> gm_get (b_partitions b) t = None"
  by (simp add: topic_logs_def)

lemma log_at_topic_logs: "log_at (topic_logs b L) t i = (if has_part b t i then Some (L t i) else None)"
  by (auto simp: log_at_def topic_logs_def has_part_def getPartition_Inr split: option.split)

lemma topic_state_eqI:
  "(\<And>t. S t = None \<longleftrightarrow> S' t = None) \<Longrightarrow> (\<And>t i. log_at S t i = log_at S' t i) \<Longrightarrow> S = S'"
  unfolding log_at_def by (rule ext) (metis (no_types, lifting) ext option.exhaust option.simps(4,5))

lemma topics_relI:
  assumes "broker_inv f b L" "broker_wf b" "0 < SegmentMaxBytes (c_Storage (b_cfg b))"
    "\<And>t. S t = None \<longleftrightarrow> gm_get (b_partitions b) t = None"
    "\<And>t i. log_at S t i = (if has_part b t i then Some (L t i) else None)"
  shows "topics_rel f b S"
proof -
  have "S = topic_logs b L"
    by (rule topic_state_eqI) (simp_all add: assms(4,5) log_at_topic_logs)
  then show ?thesis using assms(1-3) by (auto simp: topics_rel_def)
qed

lemma topics_relE:
  assumes "topics_rel f b S"
  obtains L where "broker_inv f b L" "broker_wf b" "0 < SegmentMaxBytes (c_Storage (b_cfg b))"
    "\<And>t. S t = None \<longleftrightarrow> gm_get (b_partitions b) t = None"
    "\<And>t i. log_at S t i = (if has_part b t i then Some (L t i) else None)"
  using assms by (auto simp: topics_rel_def log_at_topic_logs)

section \<open>The operations refine the view\<close>

text \<open>A round of \<open>batchFlusher\<close> leaves the log of its partition as it is.\<close>

lemma batchFlusher_round_inv:
  assumes "part_inv f p mss" "batchFlusher_round f p w now = (p', f')"
  shows "\<exists>mss'. part_inv f' p' mss' \<and> plog p' mss' = plog p mss \<and> dataDir p' = dataDir p \<and>
    p_ID p' = p_ID p \<and> p_LeaderID p' = p_LeaderID p \<and> same_outside (dataDir p) f f'"
proof -
  have flush: ?thesis if i: "part_inv f q mss" and q: "plog q mss = plog p mss" "dataDir q = dataDir p"
    "p_ID q = p_ID p" "p_LeaderID q = p_LeaderID p" and fl: "Partition_flush f q now = (p', f')" for q
  proof -
    obtain mss' where m': "part_inv f' p' mss'" "concat mss' = plog q mss" "batch p' = []"
      "dataDir p' = dataDir q" "p_ID p' = p_ID q" "p_LeaderID p' = p_LeaderID q"
      "same_outside (dataDir q) f f'"
      using flush_part_inv [OF i fl] by metis
    then show ?thesis by (intro exI [of _ mss']) (simp add: q plog_def [of p'])
  qed
  have "store_inv f (p\<lparr>flushCh := False\<rparr>) mss = store_inv f p mss" by (simp add: store_inv_def)
  then have token: "part_inv f (p\<lparr>flushCh := False\<rparr>) mss" "plog (p\<lparr>flushCh := False\<rparr>) mss = plog p mss"
    using assms(1) by (simp_all add: part_inv_def plog_def)
  show ?thesis
  proof (cases w)
    case Tick
    then show ?thesis using flush [OF assms(1)] assms(2) by (simp add: batchFlusher_round_def)
  next
    case FlushToken
    show ?thesis
    proof (cases "flushCh p")
      case True
      then show ?thesis
        using flush [OF token] assms(2) FlushToken by (simp add: batchFlusher_round_def)
    next
      case False
      then show ?thesis using assms FlushToken by (auto simp: batchFlusher_round_def)
    qed
  qed
qed

lemma has_part_put_other: "has_part b t i \<Longrightarrow> has_part (put_partition b t i p) = has_part b"
  by (rule has_part_put)

lemma log_at_publish:
  "log_at (spec_publish S t i key val now) t' i' =
     (case log_at S t i of
        Some l \<Rightarrow> if t' = t \<and> i' = i then Some (log_step l (OpAppend key val now)) else log_at S t' i'
      | None \<Rightarrow> log_at S t' i')"
  by (auto simp: log_at_def spec_publish_def split: option.splits)

lemma spec_publish_topics: "spec_publish S t i key val now t' = None \<longleftrightarrow> S t' = None"
  by (auto simp: spec_publish_def split: option.splits)

lemma Publish_topics:
  assumes "topics_rel f b S" "op_ok (OpAppend key val now)"
    "\<And>l. log_at S t i = Some l \<Longrightarrow> int (length l) + 1 < 2 ^ 63"
    "Broker_Publish b t i key val now = (r, b')"
  shows "topics_rel f b' (spec_publish S t i key val now) \<and>
    (case log_at S t i of None \<Rightarrow> (\<exists>e. r = Inl e) \<and> b' = b | Some l \<Rightarrow> r = Inr (int (length l)))"
proof -
  obtain L where L: "broker_inv f b L" "broker_wf b" "0 < SegmentMaxBytes (c_Storage (b_cfg b))"
    "\<And>t. S t = None \<longleftrightarrow> gm_get (b_partitions b) t = None"
    "\<And>t i. log_at S t i = (if has_part b t i then Some (L t i) else None)"
    using assms(1) by (rule topics_relE) metis
  show ?thesis
  proof (cases "getPartition b t i")
    case (Inl e)
    then have "r = Inl e" "b' = b" "log_at S t i = None"
      using assms(4) L(5) by (simp_all add: Publish_unknown has_part_def)
    moreover from this(3) have "spec_publish S t i key val now = S"
      by (auto simp: spec_publish_def log_at_def split: option.splits)
    ultimately show ?thesis using assms(1) by simp
  next
    case (Inr p)
    then have hp: "has_part b t i" by (simp add: has_part_def)
    have "int (length (L t i)) + 1 < 2 ^ 63" using assms(3) L(5) hp by simp
    from Broker_Publish_inv [OF L(1) Inr this assms(2,4)]
    have B: "r = Inr (int (length (L t i)))" "b_cfg b' = b_cfg b"
      "broker_inv f b' (L(t := (L t)(i := log_step (L t i) (OpAppend key val now))))" by simp_all
    obtain p' where "b_partitions b' = b_partitions (put_partition b t i p')"
      using assms(4) Inr by (auto simp: Broker_Publish_def split: prod.splits)
    then have b': "broker_wf b'" "gm_get (b_partitions b') t' = None \<longleftrightarrow> gm_get (b_partitions b) t' = None"
      "has_part b' = has_part b" for t'
      using broker_wf_put [OF L(2), of t i p'] has_part_put [OF hp, of p']
        getPartition_cong [of b' "put_partition b t i p'"]
      by (simp_all add: broker_wf_def has_part_def fun_eq_iff)
    have "topics_rel f b' (spec_publish S t i key val now)"
      by (rule topics_relI [OF B(3) b'(1)])
        (use L(3-5) B(2) b'(2,3) hp in \<open>auto simp: spec_publish_topics log_at_publish\<close>)
    then show ?thesis using B(1) L(5) hp by simp
  qed
qed

lemma Fetch_topics:
  assumes "topics_rel f b S" "Broker_Fetch f b t i fromOffset mx now = (r, b', f')"
  shows "topics_rel f' b' S \<and>
    (case log_at S t i of
       None \<Rightarrow> \<exists>e. r = Inl e
     | Some l \<Rightarrow> \<exists>ms. r = Inr (ms, int (length l)) \<and> ms = take (length ms) (drop (nat fromOffset) l) \<and>
         (ms \<noteq> [] \<longleftrightarrow> 0 < mx \<and> 0 \<le> fromOffset \<and> fromOffset < int (length l)))"
proof -
  obtain L where L: "broker_inv f b L" "broker_wf b" "0 < SegmentMaxBytes (c_Storage (b_cfg b))"
    "\<And>t. S t = None \<longleftrightarrow> gm_get (b_partitions b) t = None"
    "\<And>t i. log_at S t i = (if has_part b t i then Some (L t i) else None)"
    using assms(1) by (rule topics_relE) metis
  show ?thesis
  proof (cases "getPartition b t i")
    case (Inl e)
    then have "r = Inl e" "b' = b" "f' = f" "log_at S t i = None"
      using assms(2) L(5) [of t i] by (simp_all add: Publish_unknown has_part_def)
    then show ?thesis using assms(1) by simp
  next
    case (Inr p)
    then have hp: "has_part b t i" by (simp add: has_part_def)
    obtain ms p' where F: "r = Inr (ms, int (length (L t i)))" "broker_inv f' b' L"
      "ms = take (length ms) (drop (nat fromOffset) (L t i))"
      "ms \<noteq> [] \<longleftrightarrow> 0 < mx \<and> 0 \<le> fromOffset \<and> fromOffset < int (length (L t i))"
      "b' = put_partition b t i p'"
      using Broker_Fetch_any [OF L(1) Inr assms(2)] by metis
    have "topics_rel f' b' S"
      by (rule topics_relI [OF F(2)]) (use L(2-5) has_part_put [OF hp] in \<open>simp_all add: F(5)\<close>)
    then show ?thesis using F(1,3,4) L(5) [of t i] hp by auto
  qed
qed

lemma Flush_topics:
  assumes "topics_rel f b S" "getPartition b t i = Inr p" "batchFlusher_round f p w now = (p', f')"
  shows "topics_rel f' (put_partition b t i p') S"
proof -
  obtain L where L: "broker_inv f b L" "broker_wf b" "0 < SegmentMaxBytes (c_Storage (b_cfg b))"
    "\<And>t. S t = None \<longleftrightarrow> gm_get (b_partitions b) t = None"
    "\<And>t i. log_at S t i = (if has_part b t i then Some (L t i) else None)"
    using assms(1) by (rule topics_relE) metis
  have hp: "has_part b t i" using assms(2) by (simp add: has_part_def)
  have ok: "part_ok f b t i p (L t i)" using L(1) assms(2) by (auto simp: broker_inv_def)
  obtain mss where m: "part_inv f p mss" "plog p mss = L t i"
    using ok by (auto simp: part_ok_def refines_def)
  have F: "part_ok f' b t i p' (L t i)" "healthy f'" "same_outside (dataDir p') f f'"
    using batchFlusher_round_inv [OF m(1) assms(3)] ok m(2)
    by (auto simp: part_ok_def refines_def part_inv_def store_inv_def)
  have "broker_inv f' (put_partition b t i p') (L(t := (L t)(i := L t i)))"
    by (rule broker_inv_put [OF L(1) getPartition_topic [OF assms(2)] F])
  then have "broker_inv f' (put_partition b t i p') L" by simp
  then show ?thesis
    by (rule topics_relI) (use L(2-5) has_part_put [OF hp] in simp_all)
qed

lemma CreateTopic_topics:
  assumes "topics_rel f b S"
    "S t = None \<Longrightarrow> (\<And>j. 0 \<le> j \<Longrightarrow> j < n \<Longrightarrow> no_segments f (partDir (DataDir (c_Storage (b_cfg b))) t j))"
    "CreateTopic f b t n now = (r, b', f')"
  shows "topics_rel f' b' (spec_create S t n) \<and> (r = None \<longleftrightarrow> S t = None)"
proof -
  obtain L where L: "broker_inv f b L" "broker_wf b" "0 < SegmentMaxBytes (c_Storage (b_cfg b))"
    "\<And>t. S t = None \<longleftrightarrow> gm_get (b_partitions b) t = None"
    "\<And>t i. log_at S t i = (if has_part b t i then Some (L t i) else None)"
    using assms(1) by (rule topics_relE) metis
  show ?thesis
  proof (cases "S t = None")
    case False
    then show ?thesis using assms(1,3) L(4) by (auto simp: CreateTopic_def spec_create_def)
  next
    case True
    then have g: "gm_get (b_partitions b) t = None" using L(4) by simp
    have C: "r = None" "broker_inv f' b' (L(t := \<lambda>_. []))" "b_cfg b' = b_cfg b"
      "has_part b' t' j \<longleftrightarrow> has_part b t' j \<or> t' = t \<and> 0 \<le> j \<and> j < n" for t' j
      using CreateTopic_ok [OF L(1) g L(3), of n now] assms(2) [OF True] assms(3) unfolding has_part_def
      by auto
    have "create_parts f (b\<lparr>b_partitions := gm_put (b_partitions b) t gm_empty\<rparr>) t 0 (nat n) now = (r, b', f')"
      using assms(3) g by (simp add: CreateTopic_def)
    moreover have "broker_wf (b\<lparr>b_partitions := gm_put (b_partitions b) t gm_empty\<rparr>)"
      using L(2) by (simp add: broker_wf_def)
    ultimately have fr: "broker_wf b' \<and> (\<forall>t'. gm_get (b_partitions b') t' = None \<longleftrightarrow>
        gm_get (b_partitions (b\<lparr>b_partitions := gm_put (b_partitions b) t gm_empty\<rparr>)) t' = None)"
      by (rule create_parts_frame)
    then have W: "broker_wf b'" by simp
    have W2: "gm_get (b_partitions b') t' = None \<longleftrightarrow> t' \<noteq> t \<and> gm_get (b_partitions b) t' = None" for t'
      using fr by simp
    have np: "\<not> has_part b t j" for j using g by (simp add: has_part_def getPartition_Inr)
    have "log_at (spec_create S t n) t' j = (if has_part b' t' j then Some ((L(t := \<lambda>_. [])) t' j) else None)" for t' j
    proof (cases "t' = t")
      case True
      then show ?thesis using np [of j] C(4) [of t' j] \<open>S t = None\<close> by (simp add: log_at_def spec_create_def)
    next
      case False
      then have "log_at (spec_create S t n) t' j = log_at S t' j" by (simp add: log_at_def spec_create_def)
      with False show ?thesis using C(4) [of t' j] L(5) [of t' j] by simp
    qed
    moreover have "spec_create S t n t' = None \<longleftrightarrow> gm_get (b_partitions b') t' = None" for t'
      using W2 [of t'] L(4) [of t'] True by (simp add: spec_create_def)
    ultimately have "topics_rel f' b' (spec_create S t n)"
      by (intro topics_relI [OF C(2) W]) (simp_all add: C(3) L(3) del: fun_upd_apply)
    then show ?thesis using True C(1) by simp
  qed
qed

lemma DeleteTopic_topics:
  assumes "topics_rel f b S" "DeleteTopic f b t now = (r, b', f')"
  shows "topics_rel f' b' (spec_delete S t) \<and> (r = None \<longleftrightarrow> S t \<noteq> None)"
proof -
  obtain L where L: "broker_inv f b L" "broker_wf b" "0 < SegmentMaxBytes (c_Storage (b_cfg b))"
    "\<And>t. S t = None \<longleftrightarrow> gm_get (b_partitions b) t = None"
    "\<And>t i. log_at S t i = (if has_part b t i then Some (L t i) else None)"
    using assms(1) by (rule topics_relE) metis
  show ?thesis
  proof (cases "gm_get (b_partitions b) t")
    case None
    then have "S t = None" using L(4) by simp
    moreover from this have "S(t := None) = S" by (simp add: fun_upd_idem)
    ultimately show ?thesis using assms None by (auto simp: DeleteTopic_def spec_delete_def)
  next
    case (Some ps)
    obtain ps' where c: "close_parts f ps now = (ps', f')"
      using assms(2) Some by (cases "close_parts f ps now") (simp add: DeleteTopic_def)
    have b': "b' = b\<lparr>b_partitions := gm_del (b_partitions b) t\<rparr>" "r = None"
      using assms(2) Some by (auto simp: DeleteTopic_def)
    have wf: "gm_wf ps" using L(2) Some by (simp add: broker_wf_def)
    let ?dd = "DataDir (c_Storage (b_cfg b))"
    have ps: "dataDir p = partDir ?dd t i \<and> (\<exists>l. refines (p, f) l)" if "(i, p) \<in> set ps" for i p
    proof -
      have "gm_get ps i = Some p" using that wf by (simp add: gm_get_def gm_wf_def gm_keys_def)
      then have "part_ok f b t i p (L t i)" using L(1) Some by (auto simp: broker_inv_def getPartition_Inr)
      then show ?thesis by (auto simp: part_ok_def)
    qed
    have h: "healthy f" using L(1) by (simp add: broker_inv_def)
    note F = close_parts_frame [OF h wf c ps]
    have gp: "getPartition b' t' j = Inr q \<longleftrightarrow> t' \<noteq> t \<and> getPartition b t' j = Inr q" for t' j q
      by (simp add: b' getPartition_Inr)
    have "part_ok f' b' t' j q (L t' j)" if "getPartition b' t' j = Inr q" for t' j q
    proof -
      have q: "t' \<noteq> t" "part_ok f b t' j q (L t' j)"
        using that L(1) by (auto simp: gp broker_inv_def)
      then show ?thesis using F by (simp add: part_ok_def b')
    qed
    then have "broker_inv f' b' L" using F by (simp add: broker_inv_def)
    then have "topics_rel f' b' (spec_delete S t)"
    proof (rule topics_relI)
      show "broker_wf b'" using L(2) by (auto simp: broker_wf_def b' split: if_splits)
      show "0 < SegmentMaxBytes (c_Storage (b_cfg b'))" using L(3) by (simp add: b')
      show "spec_delete S t t' = None \<longleftrightarrow> gm_get (b_partitions b') t' = None" for t'
        using L(4) by (simp add: spec_delete_def b')
      show "log_at (spec_delete S t) t' i = (if has_part b' t' i then Some (L t' i) else None)" for t' i
        using L(5) [of t' i] by (auto simp: log_at_def spec_delete_def has_part_def gp)
    qed
    then show ?thesis using L(4) Some b'(2) by simp
  qed
qed

end
