(* ===== verification/Server_Logs.thy ===== *)
theory Server_Logs
  imports Grpc_Server Broker_Topics
begin

text \<open>
  The server against the abstract view of its topics. \<open>traced_step\<close> runs the requests of
  \<open>Grpc_Server\<close>, and the goroutines of the coordinator and the hub, next to the specification: one
  list of messages per partition. In every reachable state the server implements the lists, and
  what \<open>FetchStream\<close> sends is read off them.
\<close>

section \<open>The specification of requests\<close>

fun server_spec :: "topic_state \<Rightarrow> request \<Rightarrow> topic_state" where
  "server_spec S (RqPublish tm req) =
     spec_publish S (pq_Topic req) (pq_Partition req) (pq_Key req) (pq_Value req) (t_append tm)"
| "server_spec S (RqCreateTopic now name n) = spec_create S name n"
| "server_spec S (RqDeleteTopic now name) = spec_delete S name"
| "server_spec S rq = S"

text \<open>
  What a request must meet: values that fit the record format and offsets below \<open>2 ^ 63\<close>; and a
  topic that is created must not find segment files of an earlier topic in its directories
  (\<open>restart_hides_old_messages\<close> is about that case).
\<close>

definition request_ok :: "'s Server \<Rightarrow> topic_state \<Rightarrow> request \<Rightarrow> bool" where
  "request_ok s S rq \<longleftrightarrow>
     (case rq of
        RqPublish tm req \<Rightarrow> op_ok (OpAppend (pq_Key req) (pq_Value req) (t_append tm)) \<and>
          (\<forall>l. log_at S (pq_Topic req) (pq_Partition req) = Some l \<longrightarrow> int (length l) + 1 < 2 ^ 63)
      | RqCreateTopic now name n \<Rightarrow> S name = None \<longrightarrow>
          (\<forall>j. 0 \<le> j \<and> j < n \<longrightarrow> no_segments (s_fs s) (partDir (DataDir (c_Storage (b_cfg (s_broker s)))) name j))
      | _ \<Rightarrow> True)"

definition server_rel :: "'s Server \<times> topic_state \<Rightarrow> bool" where
  "server_rel x \<longleftrightarrow> topics_rel (s_fs (fst x)) (s_broker (fst x)) (snd x)"

lemma server_rel_cong:
  "s_fs s' = s_fs s \<Longrightarrow> s_broker s' = s_broker s \<Longrightarrow> server_rel (s', S) = server_rel (s, S)"
  by (simp add: server_rel_def)

section \<open>FetchStream\<close>

text \<open>What a call with the log \<open>S\<close> returns; the answer of an unknown partition depends on whether
  the deadline had passed when the loop was entered.\<close>

definition stream_answer :: "topic_state \<Rightarrow> string \<Rightarrow> int \<Rightarrow> int \<Rightarrow> int \<Rightarrow> bool \<Rightarrow>
    go_error option \<times> FetchResponse list \<Rightarrow> bool" where
  "stream_answer S t i fromOffset mx early r \<longleftrightarrow>
     (case log_at S t i of
        None \<Rightarrow> snd r = [] \<and> (fst r \<noteq> None \<longleftrightarrow> early)
      | Some l \<Rightarrow> fst r = None \<and>
          (\<exists>ms. snd r = [\<lparr>fr_Messages = ms, fr_HighWatermark = int (length l)\<rparr>] \<and>
             ms = take (length ms) (drop (nat fromOffset) l) \<and>
             (ms \<noteq> [] \<longleftrightarrow> early \<and> 0 < mx \<and> 0 \<le> fromOffset \<and> fromOffset < int (length l))))"

lemma FetchStream_round_topics:
  assumes "FetchStream_round now deadline sendOk t i off mx s = (x, s')" "server_rel (s, S)"
  shows "server_rel (s', S) \<and>
    (case x of
       None \<Rightarrow> now < deadline \<and> (\<exists>l. log_at S t i = Some l \<and> \<not> (0 < mx \<and> 0 \<le> off \<and> off < int (length l)))
     | Some r \<Rightarrow> sendOk \<longrightarrow> stream_answer S t i off mx (now < deadline) r)"
proof -
  define mx' where "mx' = (if now < deadline then mx else 0)"
  obtain y b f where fe: "Broker_Fetch (s_fs s) (s_broker s) t i off mx' now = (y, b, f)"
    by (metis prod.exhaust)
  have "topics_rel (s_fs s) (s_broker s) S" using assms(2) by (simp add: server_rel_def)
  note F = Fetch_topics [OF this fe]
  have s': "s_broker s' = b" "s_fs s' = f"
    using assms(1) fe by (auto simp: FetchStream_round_def mx'_def Let_def split: sum.splits if_splits)
  have rel: "server_rel (s', S)" using F s' by (simp add: server_rel_def)
  show ?thesis
  proof (cases "now < deadline")
    case False
    then show ?thesis
      using assms(1) fe F rel
      by (cases y) (auto simp: FetchStream_round_def mx'_def stream_answer_def Let_def split: option.splits if_splits)
  next
    case True
    then show ?thesis
      using assms(1) fe F rel
      by (cases y) (auto simp: FetchStream_round_def mx'_def stream_answer_def Let_def split: option.splits if_splits)
  qed
qed

lemma FetchStream_loop_topics:
  assumes "FetchStream_loop clk deadline sendOk t i off mx k s = Some r" "server_rel (s, S)"
  shows "server_rel (snd (snd r), S) \<and>
    (sendOk \<longrightarrow> stream_answer S t i off mx (clk k < deadline) (fst r, fst (snd r)))"
proof (rule FetchStream_loop.raw_induct [where P = "\<lambda>clk deadline sendOk t i off mx k s r.
      server_rel (s, S) \<longrightarrow> server_rel (snd (snd r), S) \<and>
      (sendOk \<longrightarrow> stream_answer S t i off mx (clk k < deadline) (fst r, fst (snd r)))",
      OF _ assms(1), THEN mp, OF _ assms(2)], goal_cases)
  case (1 loop clk deadline sendOk t i off mx k s r)
  obtain x s1 where x: "FetchStream_round (clk k) deadline sendOk t i off mx s = (x, s1)" by fastforce
  show ?case
  proof
    assume rel: "server_rel (s, S)"
    note R = FetchStream_round_topics [OF x rel]
    show "server_rel (snd (snd r), S) \<and>
      (sendOk \<longrightarrow> stream_answer S t i off mx (clk k < deadline) (fst r, fst (snd r)))"
    proof (cases x)
      case None
      then have "loop clk deadline sendOk t i off mx (Suc k) s1 = Some r" using 1(2) x by simp
      from 1(1) [OF this] have IH: "server_rel (snd (snd r), S) \<and>
          (sendOk \<longrightarrow> stream_answer S t i off mx (clk (Suc k) < deadline) (fst r, fst (snd r)))"
        using R by simp
      obtain l where "log_at S t i = Some l" "\<not> (0 < mx \<and> 0 \<le> off \<and> off < int (length l))"
        using R None by auto
      then show ?thesis using IH by (auto simp: stream_answer_def)
    next
      case (Some y)
      then have "r = (fst y, snd y, s1)" using 1(2) x by (auto split: prod.splits)
      then show ?thesis using R Some by simp
    qed
  qed
qed

section \<open>Every request refines the specification\<close>

lemma serve_refines:
  assumes "server_rel (s, S)" "request_ok s S rq" "serve io s rq = Some s'"
  shows "server_rel (s', server_spec S rq)"
proof -
  have topics: "topics_rel (s_fs s) (s_broker s) S" using assms(1) by (simp add: server_rel_def)
  have same: "server_rel (s', S)" if "s_fs s' = s_fs s" "s_broker s' = s_broker s"
    using server_rel_cong [OF that] assms(1) by simp
  show ?thesis
  proof (cases rq)
    case (RqPublish tm req)
    obtain r b where p: "Broker_Publish (s_broker s) (pq_Topic req) (pq_Partition req) (pq_Key req)
        (pq_Value req) (t_append tm) = (r, b)" by fastforce
    have "s_broker s' = b" "s_fs s' = s_fs s"
      using assms(3) p by (auto simp: RqPublish Grpc_Publish_def broadcast_def Let_def split: sum.splits)
    moreover have "topics_rel (s_fs s) b (server_spec S rq)"
      using Publish_topics [OF topics _ _ p] assms(2) by (simp add: RqPublish request_ok_def)
    ultimately show ?thesis by (simp add: server_rel_def)
  next
    case (RqFetch clk now sendOk req)
    then obtain r where "FetchStream clk now sendOk s req = Some r" "s' = snd (snd r)"
      using assms(3) by (auto simp: map_option_eq_Some)
    then show ?thesis
      using FetchStream_loop_topics assms(1) unfolding FetchStream_def RqFetch by fastforce
  next
    case (RqCreateTopic now name n)
    obtain r b f where c: "CreateTopic (s_fs s) (s_broker s) name n now = (r, b, f)" by (metis prod.exhaust)
    have "s_broker s' = b" "s_fs s' = f"
      using assms(3) c by (auto simp: RqCreateTopic Grpc_CreateTopic_def broadcast_def Let_def split: option.splits)
    moreover have "topics_rel f b (server_spec S rq)"
      using CreateTopic_topics [OF topics _ c] assms(2) by (simp add: RqCreateTopic request_ok_def)
    ultimately show ?thesis by (simp add: server_rel_def)
  next
    case (RqDeleteTopic now name)
    obtain r b f where c: "DeleteTopic (s_fs s) (s_broker s) name now = (r, b, f)" by (metis prod.exhaust)
    have "s_broker s' = b" "s_fs s' = f"
      using assms(3) c by (auto simp: RqDeleteTopic Grpc_DeleteTopic_def split: option.splits)
    then show ?thesis
      using DeleteTopic_topics [OF topics c] by (simp add: RqDeleteTopic server_rel_def)
  next
    case (RqJoin now evNow gid mid topics ms)
    have "s_fs s' = s_fs s \<and> s_broker s' = s_broker s"
      using assms(3) RqJoin by (auto simp: JoinGroup_def broadcast_def Let_def split: option.splits prod.splits)
    then show ?thesis using same RqJoin by simp
  next
    case (RqLeave now gid mid)
    have "s_fs s' = s_fs s \<and> s_broker s' = s_broker s"
      using assms(3) RqLeave by (auto simp: LeaveGroup_def broadcast_def split: option.splits)
    then show ?thesis using same RqLeave by simp
  next
    case (RqHeartbeat now gid mid gen)
    have "s_fs s' = s_fs s \<and> s_broker s' = s_broker s"
      using assms(3) RqHeartbeat by (auto simp: Heartbeat_def Let_def split: option.splits prod.splits sum.splits)
    then show ?thesis using same RqHeartbeat by simp
  next
    case (RqCommit gid os)
    have "s_fs s' = s_fs s \<and> s_broker s' = s_broker s"
      using assms(3) RqCommit by (auto simp: CommitOffsets_def split: option.splits)
    then show ?thesis using same RqCommit by simp
  next
    case (RqVote req)
    have "s_fs s' = s_fs s \<and> s_broker s' = s_broker s"
      using assms(3) RqVote by (auto simp: Grpc_RequestVote_def split: option.splits)
    then show ?thesis using same RqVote by simp
  next
    case (RqAppend req)
    have "s_fs s' = s_fs s \<and> s_broker s' = s_broker s"
      using assms(3) RqAppend by (auto simp: Grpc_AppendEntries_def split: option.splits)
    then show ?thesis using same RqAppend by simp
  qed
qed

section \<open>Runs\<close>

text \<open>
  Requests, each followed by the specification; single rounds of subscriptions that are waiting, so
  that messages arrive between them; and the goroutines of the partitions, the coordinator and the
  hub. The specification sees the requests only. A server starts without topics on a file system
  whose calls succeed.
\<close>

inductive traced_step :: "string \<Rightarrow> 's Server \<times> topic_state \<Rightarrow>
    's Server \<times> topic_state \<Rightarrow> bool" for io where
  traced_request: "request_ok s S rq \<Longrightarrow> serve io s rq = Some s' \<Longrightarrow>
    traced_step io (s, S) (s', server_spec S rq)"
| traced_round: "FetchStream_round now deadline sendOk t i off mx s = (x, s') \<Longrightarrow>
    traced_step io (s, S) (s', S)"
| traced_flush: "traced_step io (s, S) (Server_flush s t i w now, S)"
| traced_coord: "coord_step (s_coord s) c \<Longrightarrow> traced_step io (s, S) (s\<lparr>s_coord := c\<rparr>, S)"
| traced_hub: "hub_step (s_hub s) h \<Longrightarrow> traced_step io (s, S) (s\<lparr>s_hub := h\<rparr>, S)"

inductive_cases traced_stepE: "traced_step io x y"

definition traced_init :: "'s Server \<times> topic_state \<Rightarrow> bool" where
  "traced_init x \<longleftrightarrow> healthy (s_fs (fst x)) \<and> b_partitions (s_broker (fst x)) = gm_empty \<and>
     0 < SegmentMaxBytes (c_Storage (b_cfg (s_broker (fst x)))) \<and> snd x = (\<lambda>_. None)"

lemma Server_flush_rel: "server_rel (s, S) \<Longrightarrow> server_rel (Server_flush s t i w now, S)"
  using Flush_topics [of "s_fs s" "s_broker s" S t i]
  by (auto simp: server_rel_def Server_flush_def split: sum.split prod.split)

interpretation traced: invariant_system traced_init "traced_step io" server_rel for io
proof unfold_locales
  fix x :: "'a Server \<times> topic_state" assume i: "traced_init x"
  have "broker_inv (s_fs (fst x)) (s_broker (fst x)) (\<lambda>_ _. [])"
    using i by (simp add: broker_inv_def traced_init_def getPartition_Inr)
  then have "topics_rel (s_fs (fst x)) (s_broker (fst x)) (\<lambda>_. None)"
    by (rule topics_relI) (use i in \<open>simp_all add: traced_init_def broker_wf_def log_at_def has_part_def getPartition_Inr\<close>)
  then show "server_rel x" using i by (simp add: server_rel_def traced_init_def)
next
  fix x y :: "'a Server \<times> topic_state"
  assume rel: "server_rel x" and "traced_step io x y"
  then show "server_rel y"
    by (elim traced_stepE)
      (auto simp: serve_refines FetchStream_round_topics Server_flush_rel, simp_all add: server_rel_def)
qed

text \<open>A call of \<open>FetchStream\<close> in a reachable state: it returns, changes no list and answers from them.\<close>

lemma FetchStream_traced:
  assumes "reachable traced_init (traced_step io) (s, S)" "clock_ok clk"
  shows "\<exists>e rs s'. FetchStream clk now True s req = Some (e, rs, s') \<and> s_coord s' = s_coord s \<and>
    traced_step io (s, S) (s', S) \<and>
    stream_answer S (fq_Topic req) (fq_Partition req) (fq_Offset req) (stream_budget req)
      (clk 0 < now + stream_wait req) (e, rs)"
proof -
  obtain e rs s' where f: "FetchStream clk now True s req = Some (e, rs, s')"
    using FetchStream_loop_returns [OF assms(2)] unfolding FetchStream_def by (metis prod.exhaust)
  have "traced_step io (s, S) (s', server_spec S (RqFetch clk now True req))"
    by (rule traced_request) (simp_all add: request_ok_def f)
  moreover have "stream_answer S (fq_Topic req) (fq_Partition req) (fq_Offset req) (stream_budget req)
      (clk 0 < now + stream_wait req) (e, rs)"
    using FetchStream_loop_topics traced.reachable_inv [OF assms(1)] f unfolding FetchStream_def by fastforce
  moreover have "s_coord s' = s_coord s"
    using FetchStream_loop_moves f unfolding FetchStream_def by fastforce
  ultimately show ?thesis using f by simp
qed

text \<open>The messages of a list carry their positions as offsets.\<close>

definition numbered :: "topic_state \<Rightarrow> bool" where
  "numbered S \<longleftrightarrow> (\<forall>t i l. log_at S t i = Some l \<longrightarrow> map m_Offset l = map int [0..<length l])"

lemma numberedD: "numbered S \<Longrightarrow> log_at S t i = Some l \<Longrightarrow> j < length l \<Longrightarrow> m_Offset (l ! j) = int j"
  unfolding numbered_def by (metis add_0 length_map nth_map nth_upt)

lemma numbered_spec: "numbered S \<Longrightarrow> numbered (server_spec S rq)"
proof (cases rq)
  case (RqPublish tm req)
  assume "numbered S"
  then show ?thesis
    by (auto simp: RqPublish numbered_def log_at_publish log_step_def split: option.splits if_splits)
next
  case (RqCreateTopic now name n)
  assume "numbered S"
  then show ?thesis
    by (auto simp: RqCreateTopic numbered_def log_at_def spec_create_def split: option.splits if_splits)
next
  case (RqDeleteTopic now name)
  assume "numbered S"
  then show ?thesis
    by (auto simp: RqDeleteTopic numbered_def log_at_def spec_delete_def split: option.splits if_splits)
qed simp_all

interpretation traced_numbers: invariant_system traced_init "traced_step io" "\<lambda>x. numbered (snd x)" for io
proof unfold_locales
  fix x :: "'a Server \<times> topic_state" assume "traced_init x"
  then show "numbered (snd x)" by (simp add: traced_init_def numbered_def log_at_def)
next
  fix x y :: "'a Server \<times> topic_state" assume "numbered (snd x)" "traced_step io x y"
  then show "numbered (snd y)" by (elim traced_stepE) (simp_all add: numbered_spec)
qed

section \<open>An example\<close>

text \<open>A server that creates a topic, and a message to be stored there.\<close>

definition ex_publish :: PublishRequest where
  "ex_publish = \<lparr>pq_Topic = ''t'', pq_Partition = 0, pq_Key = [1], pq_Value = [2]\<rparr>"

lemma ex_traced_init: "traced_init (ex_server, \<lambda>_. None)"
  by (simp add: traced_init_def ex_server_def NewGRPCServer_def ex_broker_def New_Broker_def
      DefaultConfig_def ex_fs_def healthy_def)

lemma ex_create_step: "traced_step [] (ex_server, \<lambda>_. None)
  (snd (Grpc_CreateTopic [] 0 ex_server ''t'' 1), spec_create (\<lambda>_. None) ''t'' 1)"
proof -
  have "traced_step [] (ex_server, \<lambda>_. None) (snd (Grpc_CreateTopic [] 0 ex_server ''t'' 1), server_spec (\<lambda>_. None) (RqCreateTopic 0 ''t'' 1))"
    by (rule traced_request) (simp_all add: request_ok_def ex_server_def NewGRPCServer_def ex_no_segments)
  then show ?thesis by simp
qed

lemma ex_created: "reachable traced_init (traced_step [])
  (snd (Grpc_CreateTopic [] 0 ex_server ''t'' 1), spec_create (\<lambda>_. None) ''t'' 1)"
  by (rule reach_step [where step = "traced_step []", OF _ ex_create_step]) (rule reach_init, rule ex_traced_init)

lemma ex_created_log: "log_at (spec_create (\<lambda>_. None) ''t'' 1) t i = (if t = ''t'' \<and> i = 0 then Some [] else None)"
  by (auto simp: log_at_def spec_create_def)

lemma ex_publish_ok: "request_ok s (spec_create (\<lambda>_. None) ''t'' 1) (RqPublish ex_times ex_publish)"
  by (simp add: request_ok_def ex_publish_def ex_times_def ex_created_log op_ok_def in_i64_def)

end
