(* ===== verification/Group_Delivery.thy ===== *)
theory Group_Delivery
  imports Server_Logs "HOL-Library.Monad_Syntax"
begin

text \<open>
  What the parts of the server do together for a consumer group: the coordinator rebalances the
  group, its members ask for their partitions and read them to the end. The clients below are not
  part of the repository; they follow the protocol of its handlers and use nothing else.
\<close>

section \<open>Clients\<close>

text \<open>
  A client reads a partition: it subscribes from an offset, goes on behind the last message it was
  sent, and stops at the first empty response. The request \<open>req\<close> carries the topic, the partition
  and the offset; its limits stay the same for all calls.
\<close>

fun read_partition :: "nat \<Rightarrow> (nat \<Rightarrow> int) \<Rightarrow> int \<Rightarrow> 's Server \<Rightarrow> FetchRequest \<Rightarrow>
    (Message list \<times> 's Server) option" where
  "read_partition 0 clk now s req = None"
| "read_partition (Suc n) clk now s req =
     (case FetchStream clk now True s req of
        Some (None, [r], s1) \<Rightarrow>
          if fr_Messages r = [] then Some ([], s1)
          else do {
            (ms, s2) \<leftarrow> read_partition n clk now s1 (req\<lparr>fq_Offset := m_Offset (last (fr_Messages r)) + 1\<rparr>);
            Some (fr_Messages r @ ms, s2)
          }
      | _ \<Rightarrow> None)"

fun read_partitions :: "nat \<Rightarrow> (nat \<Rightarrow> int) \<Rightarrow> int \<Rightarrow> 's Server \<Rightarrow> FetchRequest \<Rightarrow> int list \<Rightarrow>
    (Message list \<times> 's Server) option" where
  "read_partitions n clk now s req [] = Some ([], s)"
| "read_partitions n clk now s req (p # ps) = do {
     (ms, s1) \<leftarrow> read_partition n clk now s (req\<lparr>fq_Partition := p, fq_Offset := 0\<rparr>);
     (rest, s2) \<leftarrow> read_partitions n clk now s1 req ps;
     Some (ms @ rest, s2)
   }"

text \<open>The members of a group one after the other, each with its own answer of \<open>SyncGroup\<close>.\<close>

fun members_read :: "string \<Rightarrow> nat \<Rightarrow> (nat \<Rightarrow> int) \<Rightarrow> int \<Rightarrow> FetchRequest \<Rightarrow> string \<Rightarrow> int \<Rightarrow>
    's Server \<Rightarrow> string list \<Rightarrow> ((string \<times> Message list) list \<times> 's Server) option" where
  "members_read io n clk now req gid gen s [] = Some ([], s)"
| "members_read io n clk now req gid gen s (mid # mids) =
     (case SyncGroup io s gid mid gen of
        Inl e \<Rightarrow> None
      | Inr resp \<Rightarrow>
          if sr_Error resp \<noteq> [] then None
          else do {
            (ms, s1) \<leftarrow> read_partitions n clk now s req (sr_AssignedPartitions resp);
            (rest, s2) \<leftarrow> members_read io n clk now req gid gen s1 mids;
            Some ((mid, ms) # rest, s2)
          })"

section \<open>Reading partitions\<close>

text \<open>The calls of a client are made in time, and ask for something.\<close>

definition reads_ok :: "(nat \<Rightarrow> int) \<Rightarrow> int \<Rightarrow> FetchRequest \<Rightarrow> bool" where
  "reads_ok clk now req \<longleftrightarrow> clock_ok clk \<and> clk 0 < now + stream_wait req \<and> 0 < stream_budget req"

lemma reads_ok_update [simp]:
  "reads_ok clk now (req\<lparr>fq_Offset := x\<rparr>) = reads_ok clk now req"
  "reads_ok clk now (req\<lparr>fq_Partition := p\<rparr>) = reads_ok clk now req"
  by (simp_all add: reads_ok_def stream_wait_def stream_budget_def)

lemma read_partition_log:
  assumes "reachable traced_init (traced_step io) (s, S)" "reads_ok clk now req"
    "log_at S (fq_Topic req) (fq_Partition req) = Some l"
    "0 \<le> fq_Offset req" "fq_Offset req \<le> int (length l)" "length l < n + nat (fq_Offset req)"
  shows "\<exists>s'. read_partition n clk now s req = Some (drop (nat (fq_Offset req)) l, s') \<and>
    s_coord s' = s_coord s \<and> (traced_step io)\<^sup>*\<^sup>* (s, S) (s', S)"
  using assms
proof (induction n arbitrary: s req)
  case (Suc n)
  let ?off = "nat (fq_Offset req)"
  have "clock_ok clk" using Suc.prems(2) by (simp add: reads_ok_def)
  from FetchStream_traced [OF Suc.prems(1) this, of now req]
  obtain e rs s1 where f: "FetchStream clk now True s req = Some (e, rs, s1)" "s_coord s1 = s_coord s"
    "traced_step io (s, S) (s1, S)"
    "stream_answer S (fq_Topic req) (fq_Partition req) (fq_Offset req) (stream_budget req)
      (clk 0 < now + stream_wait req) (e, rs)"
    by blast
  then obtain ms where ms: "e = None" "rs = [\<lparr>fr_Messages = ms, fr_HighWatermark = int (length l)\<rparr>]"
    "ms = take (length ms) (drop ?off l)" "ms \<noteq> [] \<longleftrightarrow> fq_Offset req < int (length l)"
    using Suc.prems(2-4) by (auto simp: stream_answer_def reads_ok_def)
  show ?case
  proof (cases "ms = []")
    case True
    then have "drop ?off l = []" using ms(4) by simp
    moreover have "read_partition (Suc n) clk now s req = Some ([], s1)"
      by (simp add: f(1) ms(1,2) True)
    ultimately show ?thesis using f(2,3) by auto
  next
    case False
    have len: "?off + length ms \<le> length l"
      using arg_cong [OF ms(3), of length] Suc.prems(4,5) by simp
    have "last ms = l ! (?off + length ms - 1)"
    proof -
      have "last ms = take (length ms) (drop ?off l) ! (length ms - 1)"
        using False ms(3) by (simp add: last_conv_nth)
      also have "\<dots> = l ! (?off + length ms - 1)" using False len by (cases ms) simp_all
      finally show ?thesis .
    qed
    moreover have "numbered S" using traced_numbers.reachable_inv [OF Suc.prems(1)] by simp
    ultimately have off: "m_Offset (last ms) + 1 = int (?off + length ms)"
      using numberedD [OF _ Suc.prems(3)] False len by (cases ms) simp_all
    let ?req = "req\<lparr>fq_Offset := m_Offset (last ms) + 1\<rparr>"
    have "reachable traced_init (traced_step io) (s1, S)" using Suc.prems(1) f(3) by (rule reach_step)
    then have "\<exists>s'. read_partition n clk now s1 ?req = Some (drop (nat (fq_Offset ?req)) l, s') \<and>
        s_coord s' = s_coord s1 \<and> (traced_step io)\<^sup>*\<^sup>* (s1, S) (s', S)"
      proof (rule Suc.IH)
      have next_off: "nat (fq_Offset ?req) = ?off + length ms"
        using Suc.prems(4) by (simp add: off nat_add_distrib)
      show "length l < n + nat (fq_Offset ?req)"
        unfolding next_off using Suc.prems(6) False by (cases ms) simp_all
    qed (use Suc.prems(2-4) len in \<open>simp_all add: off\<close>)
    then obtain s' where IH: "read_partition n clk now s1 ?req = Some (drop (?off + length ms) l, s')"
      "s_coord s' = s_coord s1" "(traced_step io)\<^sup>*\<^sup>* (s1, S) (s', S)"
      by (auto simp: off nat_add_distrib)
    have "ms @ drop (?off + length ms) l = drop ?off l"
      by (subst ms(3)) (metis append_take_drop_id drop_drop add.commute)
    then have "read_partition (Suc n) clk now s req = Some (drop ?off l, s')"
      using False IH(1) by (simp add: f(1) ms(1,2))
    then show ?thesis using IH(2,3) f(2,3) by (auto intro: converse_rtranclp_into_rtranclp)
  qed
qed simp

lemma read_partitions_logs:
  assumes "reachable traced_init (traced_step io) (s, S)" "reads_ok clk now req"
    "\<And>p. p \<in> set ps \<Longrightarrow> \<exists>l. log_at S (fq_Topic req) p = Some l \<and> length l < n"
  shows "\<exists>s'. read_partitions n clk now s req ps =
      Some (concat (map (\<lambda>p. the (log_at S (fq_Topic req) p)) ps), s') \<and>
    s_coord s' = s_coord s \<and> (traced_step io)\<^sup>*\<^sup>* (s, S) (s', S)"
  using assms
proof (induction ps arbitrary: s)
  case (Cons p ps)
  obtain l where l: "log_at S (fq_Topic req) p = Some l" "length l < n" using Cons.prems(3) [of p] by auto
  have "\<exists>s'. read_partition n clk now s (req\<lparr>fq_Partition := p, fq_Offset := 0\<rparr>) = Some (l, s') \<and>
      s_coord s' = s_coord s \<and> (traced_step io)\<^sup>*\<^sup>* (s, S) (s', S)"
    using read_partition_log [OF Cons.prems(1), of clk now "req\<lparr>fq_Partition := p, fq_Offset := 0\<rparr>" l n]
      Cons.prems(2) l by simp
  then obtain s1 where s1: "read_partition n clk now s (req\<lparr>fq_Partition := p, fq_Offset := 0\<rparr>) = Some (l, s1)"
    "s_coord s1 = s_coord s" "(traced_step io)\<^sup>*\<^sup>* (s, S) (s1, S)" by blast
  have "reachable traced_init (traced_step io) (s1, S)" by (rule reachable_steps [OF Cons.prems(1) s1(3)])
  from Cons.IH [OF this Cons.prems(2)] Cons.prems(3) obtain s2 where
    "read_partitions n clk now s1 req ps = Some (concat (map (\<lambda>p. the (log_at S (fq_Topic req) p)) ps), s2)"
    "s_coord s2 = s_coord s1" "(traced_step io)\<^sup>*\<^sup>* (s1, S) (s2, S)" by auto
  with s1 l(1) show ?case by auto
qed simp

lemma members_read_logs:
  assumes "reachable traced_init (traced_step io) (s, S)" "reads_ok clk now req"
    "\<And>mid. mid \<in> set mids \<Longrightarrow> SyncGroup ioText s gid mid gen = Inr \<lparr>sr_AssignedPartitions = asg mid, sr_Error = []\<rparr>"
    "\<And>mid p. mid \<in> set mids \<Longrightarrow> p \<in> set (asg mid) \<Longrightarrow> \<exists>l. log_at S (fq_Topic req) p = Some l \<and> length l < n"
  shows "\<exists>s'. members_read ioText n clk now req gid gen s mids =
      Some (map (\<lambda>mid. (mid, concat (map (\<lambda>p. the (log_at S (fq_Topic req) p)) (asg mid)))) mids, s') \<and>
    (traced_step io)\<^sup>*\<^sup>* (s, S) (s', S)"
  using assms
proof (induction mids arbitrary: s)
  case (Cons mid mids)
  obtain s1 where s1: "read_partitions n clk now s req (asg mid) =
      Some (concat (map (\<lambda>p. the (log_at S (fq_Topic req) p)) (asg mid)), s1)"
    "s_coord s1 = s_coord s" "(traced_step io)\<^sup>*\<^sup>* (s, S) (s1, S)"
    using read_partitions_logs [OF Cons.prems(1,2) Cons.prems(4) [of mid, OF list.set_intros(1)]] by blast
  have same: "SyncGroup ioText s1 gid m gen = SyncGroup ioText s gid m gen" for m
    by (simp add: SyncGroup_def s1(2))
  have "\<exists>s2. members_read ioText n clk now req gid gen s1 mids =
      Some (map (\<lambda>mid. (mid, concat (map (\<lambda>p. the (log_at S (fq_Topic req) p)) (asg mid)))) mids, s2) \<and>
      (traced_step io)\<^sup>*\<^sup>* (s1, S) (s2, S)"
  proof (rule Cons.IH [OF reachable_steps [OF Cons.prems(1) s1(3)] Cons.prems(2)])
    fix m assume m: "m \<in> set mids"
    show "SyncGroup ioText s1 gid m gen = Inr \<lparr>sr_AssignedPartitions = asg m, sr_Error = []\<rparr>"
      unfolding same using m by (intro Cons.prems(3)) simp
    show "\<exists>l. log_at S (fq_Topic req) p = Some l \<and> length l < n" if "p \<in> set (asg m)" for p
      using m that by (intro Cons.prems(4)) simp_all
  qed
  with s1 Cons.prems(3) [of mid] show ?case by auto
qed simp

section \<open>A group receives its topic\<close>

lemma image_sum_list: "mset (concat (map f xs)) = (\<Sum>x\<in>#mset xs. mset (f x))"
  by (induction xs) simp_all

lemma members_cover:
  assumes "(\<Sum>m\<leftarrow>ms. mset (asg m)) = mset ps"
  shows "mset (concat (map (\<lambda>m. concat (map f (asg m))) ms)) = mset (concat (map f ps))"
proof -
  have "mset (concat (map (\<lambda>m. concat (map f (asg m))) ms)) = (\<Sum>p\<in>#(\<Sum>m\<leftarrow>ms. mset (asg m)). mset (f p))"
    by (induction ms) (simp_all add: image_sum_list)
  then show ?thesis by (simp add: assms image_sum_list)
qed

text \<open>A server that has just been started.\<close>

definition server_fresh :: "'s Server \<times> topic_state \<Rightarrow> bool" where
  "server_fresh x \<longleftrightarrow> traced_init x \<and> server_init (fst x)"

lemma traced_server_step: "traced_step io x y \<Longrightarrow> server_step io (fst x) (fst y)"
  by (elim traced_stepE) (auto intro: server_step.intros)

interpretation delivery: invariant_system server_fresh "traced_step io"
  "\<lambda>x. reachable traced_init (traced_step io) x \<and> server_inv (fst x)" for io
proof unfold_locales
  fix x :: "'a Server \<times> topic_state" assume "server_fresh x"
  then show "reachable traced_init (traced_step io) x \<and> server_inv (fst x)"
    by (simp add: server_fresh_def reach_init server_sys.init_inv)
next
  fix x y :: "'a Server \<times> topic_state"
  assume "reachable traced_init (traced_step io) x \<and> server_inv (fst x)" "traced_step io x y"
  then show "reachable traced_init (traced_step io) y \<and> server_inv (fst y)"
    using reach_step [of traced_init "traced_step io" x y] server_sys.step_inv [OF _ traced_server_step, of x io y]
    by simp
qed

lemma traced_coord_steps:
  "coord_step\<^sup>*\<^sup>* (s_coord s) c \<Longrightarrow> (traced_step io)\<^sup>*\<^sup>* (s, S) (s\<lparr>s_coord := c\<rparr>, S)"
proof (induction rule: rtranclp_induct)
  case (step c1 c2)
  have "traced_step io (s\<lparr>s_coord := c1\<rparr>, S) ((s\<lparr>s_coord := c1\<rparr>)\<lparr>s_coord := c2\<rparr>, S)"
    by (rule traced_coord) (simp add: step.hyps(2))
  with step.IH show ?case by (simp add: rtranclp.rtrancl_into_rtrancl)
qed simp

text \<open>What the members are told once the watcher of a group with one topic has rebalanced it.\<close>

lemma single_count:
  assumes "gm_wf tp" "\<And>t'. gm_get tp t' = (if t' = t then Some c else None)"
  shows "tp = [(t, c)]"
proof -
  have "mset tp = mset [(t, c)]"
    by (rule gm_same_mset) (auto simp: assms, simp_all add: gm_wf_def gm_keys_def gm_get_def)
  then show ?thesis by simp
qed

lemma rebalanced_answers:
  assumes "rebalanced fn gs gs'" "g_members (gs_group gs) \<noteq> []" "gs_pc gs \<noteq> WRebalance" "0 < fn t"
    "gm_keys (g_topicPartitions (gs_group gs)) = [t]"
  shows "(\<Sum>m\<leftarrow>memberIDs (gs_group gs). mset (slice_of (g_assignment (gs_group gs')) m)) =
    mset (map int [0..<nat (fn t)])"
proof -
  have "gm_get (g_topicPartitions (gs_group gs)) t' = None \<longleftrightarrow> t' \<noteq> t" for t'
    using assms(5) gm.set_keys [of "g_topicPartitions (gs_group gs)"]
    by (metis (mono_tags, lifting) empty_set list.simps(15) mem_Collect_eq singleton_iff)
  then have "gm_get (g_topicPartitions (gs_group gs')) t' = (if t' = t then Some (fn t) else None)" for t'
    using assms(1,3,4) unfolding rebalanced_def by (cases "t' = t") (auto simp: not_None_eq [symmetric] simp del: not_None_eq)
  then have "g_topicPartitions (gs_group gs') = [(t, fn t)]"
    using assms(1) by (intro single_count) (simp_all add: rebalanced_def)
  moreover have "mset (map pk_part (allParts [(t, fn t)])) = mset (map int [0..<nat (fn t)])"
    unfolding mset_allParts by simp
  ultimately show ?thesis using assms(1,2) unfolding rebalanced_def by metis
qed

text \<open>
  C5: end to end, a group receives its topic. In whatever state a server is that was started and run
  as \<open>Server_Logs\<close> describes, let a group with members and one topic wait for a rebalance (its
  watcher not being in the middle of one), and let the callback know how many partitions the topic
  has. If no request comes between, at most four steps of the watcher rebalance the group, and after
  them its members, each asking for its partitions and reading them from the first offset in time,
  receive every message stored in the topic, each message once and by one member.
\<close>

theorem group_receives_every_message:
  assumes "reachable server_fresh (traced_step io) (s, S)"
    "gm_get (co_groups (s_coord s)) gid = Some gs" "g_state (gs_group gs) = PreRebalance"
    "g_members (gs_group gs) \<noteq> []" "gm_keys (g_topicPartitions (gs_group gs)) = [fq_Topic req]"
    "gs_pc gs \<noteq> WRebalance" "0 < fn (fq_Topic req)"
    "\<forall>p. log_at S (fq_Topic req) p \<noteq> None \<longleftrightarrow> 0 \<le> p \<and> p < fn (fq_Topic req)"
    "\<forall>p l. log_at S (fq_Topic req) p = Some l \<longrightarrow> length l < n" "reads_ok clk now req"
  shows "\<exists>k gs' rs s'. k \<le> 4 \<and>
    gs_run fn (co_hasOnRebalance (s_coord s)) gs (replicate k None) = Some gs' \<and>
    members_read ioText n clk now req gid (g_generation (gs_group gs'))
      (s\<lparr>s_coord := (s_coord s)\<lparr>co_groups := gm_put (co_groups (s_coord s)) gid gs'\<rparr>\<rparr>)
      (memberIDs (gs_group gs)) = Some (rs, s') \<and>
    map fst rs = memberIDs (gs_group gs) \<and>
    mset (concat (map snd rs)) =
      mset (concat (map (\<lambda>p. the (log_at S (fq_Topic req) (int p))) [0..<nat (fn (fq_Topic req))])) \<and>
    reachable server_fresh (traced_step io) (s', S)"
proof -
  let ?c = "s_coord s" and ?t = "fq_Topic req"
  have r: "reachable traced_init (traced_step io) (s, S)" "reachable coord_init coord_step ?c"
    using delivery.reachable_inv [OF assms(1)] by (simp_all add: server_inv_def)
  obtain k gs' where w: "k \<le> 4" "gs_run fn (co_hasOnRebalance ?c) gs (replicate k None) = Some gs'"
    "rebalanced fn gs gs'" using due_rebalance [OF r(2) assms(2,3)] by blast
  let ?c' = "?c\<lparr>co_groups := gm_put (co_groups ?c) gid gs'\<rparr>"
  let ?s1 = "s\<lparr>s_coord := ?c'\<rparr>" and ?mids = "memberIDs (gs_group gs)"
  let ?asg = "slice_of (g_assignment (gs_group gs'))"
  let ?rs = "map (\<lambda>mid. (mid, concat (map (\<lambda>p. the (log_at S ?t p)) (?asg mid)))) ?mids"
  have cs: "coord_step\<^sup>*\<^sup>* ?c ?c'" by (rule coord_run_steps [OF w(2) assms(2)])
  note ts = traced_coord_steps [OF cs, of io S]
  have cover: "(\<Sum>m\<leftarrow>?mids. mset (?asg m)) = mset (map int [0..<nat (fn ?t)])"
    by (rule rebalanced_answers [OF w(3) assms(4,6,7,5)])
  have sync: "SyncGroup ioText ?s1 gid mid (g_generation (gs_group gs')) =
      Inr \<lparr>sr_AssignedPartitions = ?asg mid, sr_Error = []\<rparr>" if "mid \<in> set ?mids" for mid
  proof -
    have g: "GetGroup ?c' gid = Some (gs_group gs')" by (simp add: GetGroup_def)
    have "Group_Sync (gs_group gs') mid (g_generation (gs_group gs')) = Inr (?asg mid)"
      using w(3) that by (intro stable_sync_core [OF reachable_steps [OF r(2) cs] g])
        (simp_all add: rebalanced_def memberIDs_def)
    then show ?thesis by (simp add: SyncGroup_def g)
  qed
  have parts: "\<exists>l. log_at S ?t p = Some l \<and> length l < n" if "mid \<in> set ?mids" "p \<in> set (?asg mid)" for mid p
  proof -
    have "mset (concat (map ?asg ?mids)) = mset (map int [0..<nat (fn ?t)])"
      unfolding mset_concat map_map comp_def by (rule cover)
    then have "set (concat (map ?asg ?mids)) = set (map int [0..<nat (fn ?t)])" by (rule mset_eq_setD)
    then have "p \<in> set (map int [0..<nat (fn ?t)])" using that by auto
    then have "0 \<le> p \<and> p < fn ?t" by auto
    then show ?thesis using assms(8,9) by blast
  qed
  have "\<exists>s'. members_read ioText n clk now req gid (g_generation (gs_group gs')) ?s1 ?mids =
      Some (?rs, s') \<and>
      (traced_step io)\<^sup>*\<^sup>* (?s1, S) (s', S)"
    by (rule members_read_logs [OF reachable_steps [OF r(1) ts] assms(10)], erule sync, rule parts)
  then obtain s' where m: "members_read ioText n clk now req gid (g_generation (gs_group gs')) ?s1 ?mids =
      Some (?rs, s')"
    "(traced_step io)\<^sup>*\<^sup>* (?s1, S) (s', S)" by blast
  have "mset (concat (map (\<lambda>mid. concat (map (\<lambda>p. the (log_at S ?t p)) (?asg mid))) ?mids)) =
      mset (concat (map (\<lambda>p. the (log_at S ?t p)) (map int [0..<nat (fn ?t)])))"
    by (rule members_cover [OF cover])
  moreover have "reachable server_fresh (traced_step io) (s', S)"
    using reachable_steps [OF assms(1)] rtranclp_trans [OF ts m(2)] by blast
  ultimately show ?thesis
    using w(1,2) m(1) by (intro exI [of _ k] exI [of _ gs'] exI [of _ ?rs] exI [of _ s'])
      (simp add: o_def del: mset_concat)
qed

text \<open>A server with one stored message that a member joins a group for.\<close>

definition ex_waiting :: "unit Server" where
  "ex_waiting = snd (JoinGroup 0 0 (snd (Grpc_Publish ex_times (snd (Grpc_CreateTopic [] 0 ex_server ''t'' 1)) ex_publish))
     ''g'' ''a'' [''t''] 1000)"

definition ex_topics :: topic_state where
  "ex_topics = server_spec (spec_create (\<lambda>_. None) ''t'' 1) (RqPublish ex_times ex_publish)"

lemma ex_waiting_reach: "reachable server_fresh (traced_step []) (ex_waiting, ex_topics)"
proof -
  let ?c = "snd (Grpc_CreateTopic [] 0 ex_server ''t'' 1)"
  let ?p = "snd (Grpc_Publish ex_times ?c ex_publish)"
  have "reachable server_fresh (traced_step []) (ex_server, \<lambda>_. None)"
    unfolding server_fresh_def
    by (intro reach_init conjI ex_traced_init) (simp add: server_init_def ex_server_def
        NewGRPCServer_def coord_init_def NewCoordinator_def)
  from reach_step [where step = "traced_step []", OF this ex_create_step]
  have c: "reachable server_fresh (traced_step []) (?c, spec_create (\<lambda>_. None) ''t'' 1)" .
  have "traced_step [] (?c, spec_create (\<lambda>_. None) ''t'' 1) (?p, ex_topics)"
    unfolding ex_topics_def by (rule traced_request [OF ex_publish_ok]) simp
  from reach_step [where step = "traced_step []", OF c this] have p: "reachable server_fresh (traced_step []) (?p, ex_topics)" .
  have "traced_step [] (?p, ex_topics) (ex_waiting, server_spec ex_topics (RqJoin 0 0 ''g'' ''a'' [''t''] 1000))"
    by (rule traced_request) (simp_all add: request_ok_def ex_waiting_def)
  from reach_step [where step = "traced_step []", OF p this] show ?thesis by simp
qed

lemma ex_topics_log: "log_at ex_topics t i =
  (if t = ''t'' \<and> i = 0 then Some [\<lparr>m_Offset = 0, m_Timestamp = 5, m_Key = [1], m_Value = [2]\<rparr>] else None)"
  by (simp add: ex_topics_def log_at_publish ex_created_log log_step_def ex_publish_def ex_times_def)

theorem group_receives_every_message_witness:
  "\<exists>k gs gs' s'. k \<le> 4 \<and> gm_get (co_groups (s_coord ex_waiting)) ''g'' = Some gs \<and>
     gs_run (\<lambda>_. 1) (co_hasOnRebalance (s_coord ex_waiting)) gs (replicate k None) = Some gs' \<and>
     members_read [] 2 (\<lambda>k. int k * 10000000) 0 \<lparr>fq_Topic = ''t'', fq_Partition = 0, fq_Offset = 0, fq_MaxBytes = 100, fq_MaxWaitMs = 0\<rparr>
       ''g'' (g_generation (gs_group gs'))
       (ex_waiting\<lparr>s_coord := (s_coord ex_waiting)\<lparr>co_groups := gm_put (co_groups (s_coord ex_waiting)) ''g'' gs'\<rparr>\<rparr>) [''a''] =
     Some ([(''a'', [\<lparr>m_Offset = 0, m_Timestamp = 5, m_Key = [1], m_Value = [2]\<rparr>])], s')"
proof -
  let ?m = "\<lparr>m_Offset = 0, m_Timestamp = 5, m_Key = [1], m_Value = [2]\<rparr> :: Message"
  let ?req = "\<lparr>fq_Topic = ''t'', fq_Partition = 0, fq_Offset = 0, fq_MaxBytes = 100, fq_MaxWaitMs = 0\<rparr>"
  let ?clk = "\<lambda>k. int k * 10000000"
  have "map_option (\<lambda>gs. (g_state (gs_group gs), memberIDs (gs_group gs), gm_keys (g_topicPartitions (gs_group gs)),
      gs_pc gs = WRebalance)) (gm_get (co_groups (s_coord ex_waiting)) ''g'') =
      Some (PreRebalance, [''a''], [''t''], False)"
    unfolding ex_waiting_def ex_publish_def by code_simp
  then obtain gs where gs: "gm_get (co_groups (s_coord ex_waiting)) ''g'' = Some gs"
    "g_state (gs_group gs) = PreRebalance" "memberIDs (gs_group gs) = [''a'']"
    "gm_keys (g_topicPartitions (gs_group gs)) = [fq_Topic ?req]" "gs_pc gs \<noteq> WRebalance"
    by auto
  have members: "g_members (gs_group gs) \<noteq> []" using gs(3) by (auto simp: memberIDs_def)
  have topics: "\<forall>p. log_at ex_topics (fq_Topic ?req) p \<noteq> None \<longleftrightarrow> 0 \<le> p \<and> p < (1::int)"
    "\<forall>p l. log_at ex_topics (fq_Topic ?req) p = Some l \<longrightarrow> length l < 2"
    by (auto simp: ex_topics_log split: if_splits)
  have "reads_ok ?clk 0 ?req" by (simp add: reads_ok_def clock_ok_def stream_wait_def stream_budget_def i64_id)
  from group_receives_every_message [where ioText = "[]", OF ex_waiting_reach gs(1,2) members gs(4,5) zero_less_one topics this]
  obtain k gs' rs s' where k: "k \<le> 4" "gs_run (\<lambda>_. 1) (co_hasOnRebalance (s_coord ex_waiting)) gs (replicate k None) = Some gs'"
    "members_read [] 2 ?clk 0 ?req ''g'' (g_generation (gs_group gs'))
      (ex_waiting\<lparr>s_coord := (s_coord ex_waiting)\<lparr>co_groups := gm_put (co_groups (s_coord ex_waiting)) ''g'' gs'\<rparr>\<rparr>)
      [''a''] = Some (rs, s')"
    "map fst rs = [''a'']" "mset (concat (map snd rs)) = {#?m#}"
    unfolding gs(3) by (auto simp: ex_topics_log simp del: members_read.simps)
  obtain x where "rs = [(''a'', x)]" using k(4) by (cases rs) auto
  moreover from this k(5) have "x = [?m]" by simp
  ultimately show ?thesis using k(1-3) gs(1) by blast
qed

end
