(* ===== verification/Partition_Races.thy ===== *)
theory Partition_Races
  imports Partition_Log "HOL-Library.Multiset"
begin

text \<open>
  \<open>internal/broker/partition.go\<close> under concurrency. \<open>Append\<close> and \<open>flush\<close> are split at the points
  where another goroutine can run: the atomic counter, the two mutexes, and the message pool,
  whose messages are shared by address. A scheduler picks the next action; \<open>race_run\<close> executes a
  schedule. The disk is the list of the messages whose write succeeded, in the order of the writes
  and across all segments: opening a new segment, or failing to, changes in which file a record
  lies and not this list. Bytes and files are in \<open>Segment_Log\<close> and \<open>Partition_Log\<close>.
\<close>

section \<open>State and steps\<close>

text \<open>
  Where a goroutine stands: in \<open>Append\<close> before it queued its message (\<open>PFilled\<close>) or after, when
  only \<open>return msg.Offset\<close> is left (\<open>PQueued\<close>, with the offset it was allocated); in \<open>flush\<close> with
  a batch taken but \<open>p.mu\<close> not yet held (\<open>FTaken\<close>), or in the write loop (\<open>FLocked\<close>).
\<close>

datatype phase =
    Idle
  | PFilled nat
  | PQueued nat int
  | FTaken "nat list"
  | FLocked "nat list"

record rstate =
  threads :: "phase list"
  msg_heap :: "nat \<Rightarrow> Message"
  next_addr :: nat
  msg_pool :: "nat list"
  r_nextOffset :: int
  r_batch :: "nat list"
  mu_held :: bool
  r_hwm :: int
  disk :: "Message list"
  dropped :: "Message list" \<comment> \<open>messages whose write has failed, an error \<open>flush\<close> ignores\<close>
  sent :: "Message list" \<comment> \<open>every message given an offset, in that order\<close>
  replies :: "(int \<times> int) list" \<comment> \<open>offset allocated and offset returned, per finished Append\<close>

datatype action =
    PubStart nat "nat option" bytes bytes int
  | PubEnqueue nat
  | PubReturn nat
  | FlTake nat
  | FlLock nat
  | FlWrite nat bool
  | FlUnlock nat

definition set_phase :: "rstate \<Rightarrow> nat \<Rightarrow> phase \<Rightarrow> rstate" where
  "set_phase s i ph = s\<lparr>threads := (threads s)[i := ph]\<rparr>"

definition phase_of :: "rstate \<Rightarrow> nat \<Rightarrow> phase option" where
  "phase_of s i = (if i < length (threads s) then Some (threads s ! i) else None)"

text \<open>
  The flag of \<open>FlWrite\<close> says whether \<open>seg.Append\<close> succeeds: \<open>flush\<close> goes on as if it had.
  \<open>pool.Get\<close> may return any pooled message or a new one: the argument of \<open>PubStart\<close> says which.
\<close>

definition pool_get :: "rstate \<Rightarrow> nat option \<Rightarrow> (nat \<times> rstate) option" where
  "pool_get s pick =
     (case pick of
        None \<Rightarrow> Some (next_addr s, s\<lparr>next_addr := Suc (next_addr s)\<rparr>)
      | Some k \<Rightarrow>
          if k < length (msg_pool s)
          then Some (msg_pool s ! k,
                     s\<lparr>msg_pool := take k (msg_pool s) @ drop (Suc k) (msg_pool s)\<rparr>)
          else None)"

fun race_step :: "rstate \<Rightarrow> action \<Rightarrow> rstate option" where
  "race_step s (PubStart i pick key val now) =
     (if phase_of s i \<noteq> Some Idle then None
      else case pool_get s pick of
        None \<Rightarrow> None
      | Some (a, s1) \<Rightarrow>
          let next = i64 (r_nextOffset s1 + 1);
              m = \<lparr>m_Offset = i64 (next - 1), m_Timestamp = now, m_Key = key, m_Value = val\<rparr>
          in Some (set_phase (s1\<lparr>r_nextOffset := next, msg_heap := (msg_heap s1)(a := m),
                                sent := sent s1 @ [m]\<rparr>) i (PFilled a)))"
| "race_step s (PubEnqueue i) =
     (case phase_of s i of
        Some (PFilled a) \<Rightarrow>
          Some (set_phase (s\<lparr>r_batch := r_batch s @ [a]\<rparr>) i (PQueued a (m_Offset (msg_heap s a))))
      | _ \<Rightarrow> None)"
| "race_step s (PubReturn i) =
     (case phase_of s i of
        Some (PQueued a off) \<Rightarrow>
          Some (set_phase (s\<lparr>replies := replies s @ [(off, m_Offset (msg_heap s a))]\<rparr>) i Idle)
      | _ \<Rightarrow> None)"
| "race_step s (FlTake i) =
     (if phase_of s i \<noteq> Some Idle \<or> r_batch s = [] then None
      else Some (set_phase (s\<lparr>r_batch := []\<rparr>) i (FTaken (r_batch s))))"
| "race_step s (FlLock i) =
     (case phase_of s i of
        Some (FTaken as) \<Rightarrow>
          if mu_held s then None else Some (set_phase (s\<lparr>mu_held := True\<rparr>) i (FLocked as))
      | _ \<Rightarrow> None)"
| "race_step s (FlWrite i ok) =
     (case phase_of s i of
        Some (FLocked (a # as)) \<Rightarrow>
          let m = msg_heap s a;
              s1 = (if ok then s\<lparr>disk := disk s @ [m]\<rparr> else s\<lparr>dropped := dropped s @ [m]\<rparr>)
          in Some (set_phase (s1\<lparr>r_hwm := i64 (m_Offset m + 1), msg_pool := msg_pool s @ [a]\<rparr>) i (FLocked as))
      | _ \<Rightarrow> None)"
| "race_step s (FlUnlock i) =
     (case phase_of s i of
        Some (FLocked []) \<Rightarrow> Some (set_phase (s\<lparr>mu_held := False\<rparr>) i Idle)
      | _ \<Rightarrow> None)"

fun race_run :: "rstate \<Rightarrow> action list \<Rightarrow> rstate option" where
  "race_run s [] = Some s"
| "race_run s (x # xs) = (case race_step s x of None \<Rightarrow> None | Some s' \<Rightarrow> race_run s' xs)"

definition race_init :: "nat \<Rightarrow> rstate" where
  "race_init n =
     \<lparr>threads = replicate n Idle, msg_heap = (\<lambda>_. \<lparr>m_Offset = 0, m_Timestamp = 0, m_Key = [], m_Value = []\<rparr>),
      next_addr = 0, msg_pool = [], r_nextOffset = 0, r_batch = [], mu_held = False, r_hwm = 0,
      disk = [], dropped = [], sent = [], replies = []\<rparr>"

section \<open>Ownership of messages\<close>

text \<open>
  The addresses a goroutine, the batch or a taken batch still needs. A publisher that has queued
  its message no longer owns it, although it will read it once more.
\<close>

fun phase_addrs :: "phase \<Rightarrow> nat list" where
  "phase_addrs (PFilled a) = [a]"
| "phase_addrs (FTaken as) = as"
| "phase_addrs (FLocked as) = as"
| "phase_addrs _ = []"

definition thr_addrs :: "phase list \<Rightarrow> nat multiset" where
  "thr_addrs ths = mset (concat (map phase_addrs ths))"

definition busy :: "rstate \<Rightarrow> nat multiset" where
  "busy s = thr_addrs (threads s) + mset (r_batch s)"

definition race_inv :: "rstate \<Rightarrow> bool" where
  "race_inv s \<longleftrightarrow>
     (\<forall>a. count (busy s + mset (msg_pool s)) a \<le> 1) \<and>
     (\<forall>a \<in># busy s + mset (msg_pool s). a < next_addr s) \<and>
     image_mset (msg_heap s) (busy s) + mset (disk s @ dropped s) = mset (sent s) \<and>
     map m_Offset (sent s) = map int [0..<length (sent s)] \<and>
     r_nextOffset s = int (length (sent s))"

lemma thr_addrs_update:
  assumes "i < length ths"
  obtains R where "thr_addrs ths = R + mset (phase_addrs (ths ! i))"
    "\<And>ph. thr_addrs (ths[i := ph]) = R + mset (phase_addrs ph)"
proof -
  let ?R = "mset (concat (map phase_addrs (take i ths))) + mset (concat (map phase_addrs (drop (Suc i) ths)))"
  have upd: "thr_addrs (ths[i := ph]) = ?R + mset (phase_addrs ph)" for ph
    using assms by (simp add: thr_addrs_def upd_conv_take_nth_drop)
  from upd [of "ths ! i"] upd show thesis by (intro that) simp_all
qed

lemma phase_ofD: "phase_of s i = Some ph \<Longrightarrow> i < length (threads s) \<and> threads s ! i = ph"
  by (auto simp: phase_of_def split: if_splits)

lemma busy_set_phase:
  assumes "phase_of s i = Some ph0"
  obtains R where "thr_addrs (threads s) = R + mset (phase_addrs ph0)"
    "\<And>ph. thr_addrs ((threads s)[i := ph]) = R + mset (phase_addrs ph)"
  using thr_addrs_update [of i "threads s"] phase_ofD [OF assms] by metis

lemma mset_remove_nth:
  "k < length xs \<Longrightarrow> mset xs = mset (take k xs @ drop (Suc k) xs) + {#xs ! k#}"
  by (subst id_take_nth_drop [of k xs]) (simp_all add: ac_simps)

section \<open>Every schedule keeps the messages\<close>

lemma image_mset_upd_notin: "a \<notin># M \<Longrightarrow> image_mset (h(a := m)) M = image_mset h M"
  by (intro image_mset_cong) auto

text \<open>The core of a publish: an address nobody owns is filled with a fresh message.\<close>

lemma race_inv_fill:
  assumes inv: "race_inv s" and ph: "phase_of s i = Some Idle"
    and own: "a \<notin># busy s" "a < na" "next_addr s \<le> na"
      "\<And>b. count (busy s + mset pl + {#a#}) b \<le> 1" "set pl \<subseteq> set (msg_pool s)"
    and off: "r_nextOffset s + 1 < 2 ^ 63"
    and m: "m = \<lparr>m_Offset = i64 (i64 (r_nextOffset s + 1) - 1), m_Timestamp = now, m_Key = key, m_Value = val\<rparr>"
  shows "race_inv (set_phase (s\<lparr>next_addr := na, msg_pool := pl, r_nextOffset := i64 (r_nextOffset s + 1),
      msg_heap := (msg_heap s)(a := m), sent := sent s @ [m]\<rparr>) i (PFilled a))"
proof -
  obtain R where R: "thr_addrs (threads s) = R"
    "\<And>ph. thr_addrs ((threads s)[i := ph]) = R + mset (phase_addrs ph)"
    using busy_set_phase [OF ph] by (metis add.right_neutral mset.simps(1) phase_addrs.simps(4))
  have o: "r_nextOffset s = int (length (sent s))" "map m_Offset (sent s) = map int [0..<length (sent s)]"
    "image_mset (msg_heap s) (busy s) + mset (disk s @ dropped s) = mset (sent s)"
    "\<And>b. b \<in># busy s \<or> b \<in> set (msg_pool s) \<Longrightarrow> b < next_addr s"
    using inv by (auto simp: race_inv_def)
  have "m_Offset m = int (length (sent s))" "i64 (r_nextOffset s + 1) = int (length (sent s)) + 1"
    using m o(1) off by (simp_all add: i64_id)
  moreover have "image_mset ((msg_heap s)(a := m)) (busy s) = image_mset (msg_heap s) (busy s)"
    using own(1) by (rule image_mset_upd_notin)
  ultimately show ?thesis
    using o own R
    by (auto simp: race_inv_def set_phase_def busy_def ac_simps intro: order.strict_trans2)
qed

text \<open>The other steps move addresses between the batch and the phase of one goroutine.\<close>

lemma race_inv_move:
  assumes inv: "race_inv s" and ph: "phase_of s i = Some ph0"
    and s': "threads s' = (threads s)[i := ph]"
      "mset (phase_addrs ph) + mset (r_batch s') = mset (phase_addrs ph0) + mset (r_batch s)"
      "msg_pool s' = msg_pool s" "next_addr s' = next_addr s" "msg_heap s' = msg_heap s"
      "disk s' = disk s" "dropped s' = dropped s" "sent s' = sent s" "r_nextOffset s' = r_nextOffset s"
  shows "race_inv s'"
proof -
  obtain R where "thr_addrs (threads s) = R + mset (phase_addrs ph0)"
    "thr_addrs (threads s') = R + mset (phase_addrs ph)"
    using busy_set_phase [OF ph] s'(1) by metis
  then have "busy s' = busy s" using s'(2) by (simp add: busy_def)
  with inv s' show ?thesis by (simp add: race_inv_def)
qed

lemma race_step_inv:
  assumes inv: "race_inv s" and step: "race_step s x = Some s'" and off: "r_nextOffset s + 1 < 2 ^ 63"
  shows "race_inv s'"
proof (cases x)
  case (PubStart i pick key val now)
  have ph: "phase_of s i = Some Idle" using step PubStart by (auto split: if_splits)
  have c: "\<And>b. count (busy s + mset (msg_pool s)) b \<le> 1"
    "\<And>b. b \<in># busy s \<or> b \<in> set (msg_pool s) \<Longrightarrow> b < next_addr s"
    using inv by (auto simp: race_inv_def)
  show ?thesis
  proof (cases pick)
    case None
    have fresh: "next_addr s \<notin># busy s + mset (msg_pool s)" using c(2) by fastforce
    then have "count (busy s + mset (msg_pool s) + {#next_addr s#}) b \<le> 1" for b
      using c(1) [of b] by (cases "b = next_addr s") (simp_all add: not_in_iff)
    from race_inv_fill [OF inv ph _ _ _ this _ off refl, of "Suc (next_addr s)" now key val] fresh
    show ?thesis
      using step PubStart None ph by (auto simp: pool_get_def Let_def set_phase_def)
  next
    case (Some k)
    let ?a = "msg_pool s ! k" and ?pl = "take k (msg_pool s) @ drop (Suc k) (msg_pool s)"
    have k: "k < length (msg_pool s)"
      using step PubStart Some ph by (auto simp: pool_get_def split: if_splits)
    note m = mset_remove_nth [OF k]
    have "count (busy s + mset ?pl + {#?a#}) b \<le> 1" for b
      using c(1) [of b] m by (simp add: ac_simps)
    moreover have "?a \<notin># busy s"
      using c(1) [of ?a] m by (auto simp: not_in_iff)
    moreover have "set ?pl \<subseteq> set (msg_pool s)"
      by (auto dest: in_set_takeD in_set_dropD)
    moreover have "?a < next_addr s" using c(2) k by simp
    ultimately have "race_inv (set_phase (s\<lparr>next_addr := next_addr s, msg_pool := ?pl,
        r_nextOffset := i64 (r_nextOffset s + 1),
        msg_heap := (msg_heap s)(?a := \<lparr>m_Offset = i64 (i64 (r_nextOffset s + 1) - 1),
          m_Timestamp = now, m_Key = key, m_Value = val\<rparr>),
        sent := sent s @ [\<lparr>m_Offset = i64 (i64 (r_nextOffset s + 1) - 1),
          m_Timestamp = now, m_Key = key, m_Value = val\<rparr>]\<rparr>) i (PFilled ?a))"
      by (intro race_inv_fill [OF inv ph _ _ _ _ _ off refl]) simp_all
    then show ?thesis
      using step PubStart Some ph k by (auto simp: pool_get_def Let_def set_phase_def)
  qed
next
  case (PubEnqueue i)
  then obtain a where ph: "phase_of s i = Some (PFilled a)"
    and s': "s' = set_phase (s\<lparr>r_batch := r_batch s @ [a]\<rparr>) i (PQueued a (m_Offset (msg_heap s a)))"
    using step by (auto split: option.splits phase.splits)
  show ?thesis
    by (rule race_inv_move [OF inv ph, where ph = "PQueued a (m_Offset (msg_heap s a))"])
      (simp_all add: s' set_phase_def)
next
  case (PubReturn i)
  then obtain a off where ph: "phase_of s i = Some (PQueued a off)"
    and s': "s' = set_phase (s\<lparr>replies := replies s @ [(off, m_Offset (msg_heap s a))]\<rparr>) i Idle"
    using step by (auto split: option.splits phase.splits)
  show ?thesis
    by (rule race_inv_move [OF inv ph, where ph = "Idle"]) (simp_all add: s' set_phase_def)
next
  case (FlTake i)
  then have ph: "phase_of s i = Some Idle"
    and s': "s' = set_phase (s\<lparr>r_batch := []\<rparr>) i (FTaken (r_batch s))"
    using step by (auto split: if_splits)
  show ?thesis
    by (rule race_inv_move [OF inv ph, where ph = "FTaken (r_batch s)"]) (simp_all add: s' set_phase_def)
next
  case (FlLock i)
  then obtain as where ph: "phase_of s i = Some (FTaken as)"
    and s': "s' = set_phase (s\<lparr>mu_held := True\<rparr>) i (FLocked as)"
    using step by (auto split: option.splits phase.splits if_splits)
  show ?thesis
    by (rule race_inv_move [OF inv ph, where ph = "FLocked as"]) (simp_all add: s' set_phase_def)
next
  case (FlWrite i ok)
  then obtain a as where ph: "phase_of s i = Some (FLocked (a # as))"
    and s': "s' = set_phase ((if ok then s\<lparr>disk := disk s @ [msg_heap s a]\<rparr> else s\<lparr>dropped := dropped s @ [msg_heap s a]\<rparr>)
      \<lparr>r_hwm := i64 (m_Offset (msg_heap s a) + 1), msg_pool := msg_pool s @ [a]\<rparr>) i (FLocked as)"
    using step by (auto simp: Let_def split: option.splits phase.splits list.splits)
  obtain R where R: "thr_addrs (threads s) = R + mset (phase_addrs (FLocked (a # as)))"
    "thr_addrs ((threads s)[i := FLocked as]) = R + mset (phase_addrs (FLocked as))"
    using busy_set_phase [OF ph] by metis
  have "busy s = busy s' + {#a#}" by (simp add: s' busy_def set_phase_def R)
  moreover have "mset (disk s' @ dropped s') = mset (disk s @ dropped s) + {#msg_heap s a#}"
    "msg_heap s' = msg_heap s" "msg_pool s' = msg_pool s @ [a]" "next_addr s' = next_addr s" "sent s' = sent s"
    "r_nextOffset s' = r_nextOffset s"
    by (simp_all add: s' set_phase_def)
  ultimately show ?thesis using inv unfolding race_inv_def by (simp add: ac_simps)
next
  case (FlUnlock i)
  then have ph: "phase_of s i = Some (FLocked [])"
    and s': "s' = set_phase (s\<lparr>mu_held := False\<rparr>) i Idle"
    using step by (auto split: option.splits phase.splits list.splits)
  show ?thesis
    by (rule race_inv_move [OF inv ph, where ph = "Idle"]) (simp_all add: s' set_phase_def)
qed

lemma race_step_next:
  assumes "race_step s x = Some s'" "race_inv s" "r_nextOffset s + 1 < 2 ^ 63"
  shows "r_nextOffset s' \<le> r_nextOffset s + 1"
proof -
  have "0 \<le> r_nextOffset s" using assms(2) by (simp add: race_inv_def)
  then have "i64 (r_nextOffset s + 1) = r_nextOffset s + 1" using assms(3) by (simp add: i64_id)
  then show ?thesis
    using assms(1)
    by (cases x) (auto simp: set_phase_def pool_get_def Let_def
        split: option.splits phase.splits list.splits if_splits)
qed

lemma race_run_inv:
  "race_run s xs = Some s' \<Longrightarrow> race_inv s \<Longrightarrow> r_nextOffset s + int (length xs) < 2 ^ 63 \<Longrightarrow> race_inv s'"
proof (induction xs arbitrary: s)
  case (Cons x xs)
  from Cons.prems(1) obtain s1 where s1: "race_step s x = Some s1" "race_run s1 xs = Some s'"
    by (auto split: option.splits)
  have b: "r_nextOffset s + 1 < 2 ^ 63" using Cons.prems(3) by simp
  show ?case
    using Cons.IH [OF s1(2) race_step_inv [OF Cons.prems(2) s1(1) b]]
      race_step_next [OF s1(1) Cons.prems(2) b] Cons.prems(3) by simp
qed simp

lemma race_init_inv: "race_inv (race_init n)"
  by (simp add: race_inv_def race_init_def busy_def thr_addrs_def)

lemma distinct_submset:
  assumes "mset xs \<subseteq># mset ys" "distinct ys"
  shows "distinct xs"
proof -
  obtain zs where zs: "mset ys = mset (xs @ zs)"
  proof -
    obtain M where "mset ys = mset xs + M"
      using assms(1) by (auto simp: mset_subset_eq_exists_conv)
    moreover obtain zs where "mset zs = M" using ex_mset by blast
    ultimately show thesis by (intro that [of zs]) simp
  qed
  have "distinct (xs @ zs)" using mset_eq_imp_distinct_iff [OF zs] assms(2) by blast
  then show ?thesis by simp
qed

definition quiescent :: "rstate \<Rightarrow> bool" where
  "quiescent s \<longleftrightarrow> r_batch s = [] \<and> list_all (\<lambda>ph. phase_addrs ph = []) (threads s)"

lemma quiescent_busy: "quiescent s \<Longrightarrow> busy s = {#}"
  by (auto simp: quiescent_def busy_def thr_addrs_def list_all_iff)

section \<open>Failed writes\<close>

definition failed_write :: "action \<Rightarrow> bool" where
  "failed_write x \<longleftrightarrow> (\<exists>i. x = FlWrite i False)"

lemma race_step_dropped:
  "race_step s x = Some s' \<Longrightarrow> length (dropped s') = length (dropped s) + (if failed_write x then 1 else 0)"
  by (cases x) (auto simp: failed_write_def set_phase_def pool_get_def Let_def
      split: option.splits phase.splits list.splits if_splits)

lemma race_run_dropped:
  "race_run s xs = Some s' \<Longrightarrow> length (dropped s') = length (dropped s) + length (filter failed_write xs)"
  by (induction xs arbitrary: s) (auto split: option.splits dest!: race_step_dropped)

section \<open>Properties\<close>

text \<open>
  C13: under every interleaving of publishers and flushers, and whichever writes fail, offsets are
  allocated without gaps or repetition, and a message is written at most once, with its own key
  and value, or dropped by a write that failed, but not both. Once no batch and no goroutine holds
  a message, these are all published messages: what is missing on disk was dropped, one message for
  each write that failed, and without such a failure nothing is missing.
\<close>

theorem messages_written_once_or_dropped:
  assumes "race_run (race_init n) xs = Some s" "int (length xs) < 2 ^ 63"
  shows "mset (disk s @ dropped s) \<subseteq># mset (sent s) \<and> distinct (map m_Offset (disk s @ dropped s)) \<and>
    map m_Offset (sent s) = map int [0..<length (sent s)] \<and>
    length (dropped s) = length (filter failed_write xs) \<and>
    (quiescent s \<longrightarrow> mset (disk s @ dropped s) = mset (sent s))"
proof -
  have inv: "race_inv s"
    by (rule race_run_inv [OF assms(1) race_init_inv]) (use assms(2) in \<open>simp add: race_init_def\<close>)
  then have m: "image_mset (msg_heap s) (busy s) + mset (disk s @ dropped s) = mset (sent s)"
    and o: "map m_Offset (sent s) = map int [0..<length (sent s)]"
    by (auto simp: race_inv_def)
  have sub: "mset (disk s @ dropped s) \<subseteq># mset (sent s)" using m by (metis mset_subset_eq_add_right)
  then have "mset (map m_Offset (disk s @ dropped s)) \<subseteq># mset (map m_Offset (sent s))"
    unfolding mset_map by (rule image_mset_subseteq_mono)
  moreover have "distinct (map m_Offset (sent s))" by (simp add: o distinct_map)
  ultimately have "distinct (map m_Offset (disk s @ dropped s))" by (rule distinct_submset)
  moreover have "mset (disk s @ dropped s) = mset (sent s)" if "quiescent s"
    using m quiescent_busy [OF that] by simp
  ultimately show ?thesis using sub o race_run_dropped [OF assms(1)] by (simp add: race_init_def)
qed

definition ex_schedule :: "action list" where
  "ex_schedule =
     [PubStart 0 None [1] [10] 0, PubStart 1 None [2] [20] 0, PubEnqueue 1, PubEnqueue 0,
      FlTake 2, FlLock 2, FlWrite 2 True, FlWrite 2 True, FlUnlock 2, PubReturn 0, PubReturn 1]"

lemma map_option_SomeE:
  assumes "map_option f x = Some y"
  obtains s where "x = Some s" "f s = y"
  using assms by (cases x) simp_all

definition observe :: "rstate \<Rightarrow> bool \<times> int list \<times> int \<times> int \<times> nat \<times> (int \<times> int) list" where
  "observe s = (quiescent s, map m_Offset (disk s), r_hwm s, r_nextOffset s, length (sent s), replies s)"

lemma ex_schedule_eval:
  "map_option observe (race_run (race_init 3) ex_schedule) =
     Some (True, [1, 0], 1, 2, 2, [(0, 0), (1, 1)])"
  by code_simp

lemma ex_schedule_run:
  obtains s where "race_run (race_init 3) ex_schedule = Some s" "quiescent s"
    "map m_Offset (disk s) = [1, 0]" "r_hwm s = 1" "r_nextOffset s = 2" "length (sent s) = 2"
    "replies s = [(0, 0), (1, 1)]"
  by (rule map_option_SomeE [OF ex_schedule_eval]) (simp add: observe_def)

text \<open>The same schedule with a failure of the first write.\<close>

definition ex_failing :: "action list" where
  "ex_failing =
     [PubStart 0 None [1] [10] 0, PubStart 1 None [2] [20] 0, PubEnqueue 1, PubEnqueue 0,
      FlTake 2, FlLock 2, FlWrite 2 False, FlWrite 2 True, FlUnlock 2, PubReturn 0, PubReturn 1]"

theorem messages_written_once_or_dropped_witness:
  "\<exists>s. race_run (race_init 3) ex_failing = Some s \<and> mset (disk s @ dropped s) = mset (sent s) \<and>
     length (sent s) = 2 \<and> length (dropped s) = 1"
proof -
  have "map_option (\<lambda>s. (quiescent s, length (sent s))) (race_run (race_init 3) ex_failing) = Some (True, 2)"
    by code_simp
  then obtain s where s: "race_run (race_init 3) ex_failing = Some s" "quiescent s" "length (sent s) = 2"
    by (rule map_option_SomeE) simp
  have "int (length ex_failing) < 2 ^ 63" "length (filter failed_write ex_failing) = 1"
    by (simp_all add: ex_failing_def failed_write_def)
  with messages_written_once_or_dropped [OF s(1)] s show ?thesis by (intro exI [of _ s]) simp
qed

text \<open>
  C20: the offset is taken before the batch lock, so two publishers can be queued in the opposite
  order. Although no write fails, the segment then holds offset 1 before offset 0, and the high
  watermark, set to the last written offset plus one, ends at 1: a fetch from offset 1, on a
  partition with that watermark and nothing in its batch, returns no message, whatever the files
  hold, although the message with offset 1 has been acknowledged under it and is stored.
\<close>

theorem publish_race_reorders_disk:
  "\<exists>xs s. race_run (race_init 3) xs = Some s \<and> quiescent s \<and> map m_Offset (disk s) = [1, 0] \<and>
     r_nextOffset s = 2 \<and> r_hwm s = 1 \<and> replies s = [(0, 0), (1, 1)] \<and>
     (\<forall>f p maxBytes now. fst (Partition_Fetch f (p\<lparr>batch := [], hwm := r_hwm s\<rparr>) 1 maxBytes now) = ([], 1))"
proof -
  obtain s where s: "race_run (race_init 3) ex_schedule = Some s" "quiescent s"
    "map m_Offset (disk s) = [1, 0]" "r_hwm s = 1" "r_nextOffset s = 2" "replies s = [(0, 0), (1, 1)]"
    by (rule ex_schedule_run)
  moreover have "fst (Partition_Fetch f (p\<lparr>batch := [], hwm := r_hwm s\<rparr>) 1 maxBytes now) = ([], 1)"
    for f maxBytes now and p :: Partition
    by (simp add: Partition_Fetch_def Partition_flush_def s(4))
  ultimately show ?thesis by (intro exI [of _ ex_schedule] exI [of _ s]) simp
qed

definition pool_schedule :: "action list" where
  "pool_schedule =
     [PubStart 0 None [1] [10] 0, PubEnqueue 0, FlTake 2, FlLock 2, FlWrite 2 True, FlUnlock 2,
      PubStart 1 (Some 0) [2] [20] 0, PubEnqueue 1, PubReturn 1, PubReturn 0]"

text \<open>
  C21: \<open>Append\<close> reads the offset it returns from a message that a flush may already have put
  back into the pool and another publisher refilled: two publishers are given the same offset,
  and the message of the first is stored under a different one.
\<close>

theorem pooled_message_returns_foreign_offset:
  "\<exists>xs s. race_run (race_init 3) xs = Some s \<and> replies s = [(1, 1), (0, 1)]"
proof -
  have "map_option replies (race_run (race_init 3) pool_schedule) = Some [(1, 1), (0, 1)]"
    by code_simp
  then show ?thesis by (rule map_option_SomeE) blast
qed

end
