(* ===== verification/Raft_Cluster.thy ===== *)
theory Raft_Cluster
  imports Raft_Node Step_Systems
begin

text \<open>
  Elections in a cluster of nodes (\<open>internal/raft/node.go\<close>, \<open>startElection\<close> with its goroutines
  and the two handlers). A call of \<open>RequestVote\<close> is a goroutine \<open>(i, j)\<close> of node \<open>i\<close>: it sends its
  request, the network delivers it to \<open>j\<close> or not, the answer comes back or not, and the goroutine
  ends with an answer or with an error. Requests and answers in flight are lists that the schedule
  picks from, so delay, loss and reordering are covered. \<open>AppendEntries\<close> requests and their answers
  are arbitrary messages at arbitrary times.

  The flag \<open>timely\<close> restricts the schedule: an answer to an election is processed only while the
  node is still in the term it started the election in. The code does not check this;
  \<open>election_safety\<close> holds with it and \<open>stale_reply_elects_two_leaders\<close> shows what happens without.
  A handler is one step; \<open>Raft_Node.concurrent_vote_requests_both_granted\<close> is about two that overlap.
  \<open>c_grants\<close> and \<open>c_leaders\<close> record votes given and elections won; no step reads them.
\<close>

record 's Cluster =
  c_nodes :: "(int, 's Node) gomap"
  c_elections :: "(int, Election) gomap"
  c_tosend :: "(int \<times> int) list"
  c_waiting :: "(int \<times> int) list"
  c_requests :: "(int \<times> int \<times> RequestVoteRequest) list"
  c_replies :: "(int \<times> int \<times> int \<times> RequestVoteResponse) list"
  c_grants :: "(int \<times> int \<times> int) list"
  c_leaders :: "(int \<times> int) list"

datatype cluster_action =
    ElectionTimeout int
  | SendVote int int
  | DeliverVote nat
  | ReplyVote nat
  | FailVote int int
  | DeliverAppend int AppendEntriesRequest
  | AppendReply int int nat "AppendEntriesResponse option"
  | ClientPropose int EntryType bytes
  | TakeProposal int

definition drop_nth :: "nat \<Rightarrow> 'a list \<Rightarrow> 'a list" where
  "drop_nth k xs = take k xs @ drop (Suc k) xs"

definition election_running :: "'s Cluster \<Rightarrow> int \<Rightarrow> bool" where
  "election_running c i \<longleftrightarrow> i \<in> set (map fst (c_tosend c @ c_waiting c))"

definition put_node :: "'s Cluster \<Rightarrow> int \<Rightarrow> 's Node \<Rightarrow> 's Cluster" where
  "put_node c i n = c\<lparr>c_nodes := gm_put (c_nodes c) i n\<rparr>"

text \<open>\<open>electionLoop\<close> runs one election at a time; terms stay below the \<open>int64\<close> limit.\<close>

definition exec_timeout :: "'s Cluster \<Rightarrow> int \<Rightarrow> 's Cluster option" where
  "exec_timeout c i =
     (case gm_get (c_nodes c) i of
        None \<Rightarrow> None
      | Some n \<Rightarrow>
          if n_state n = Leader \<or> election_running c i \<or> \<not> in_i64 (n_currentTerm n + 1) then None
          else let (n', el) = startElection_begin n in
            Some ((put_node c i n')\<lparr>c_elections := gm_put (c_elections c) i el,
                    c_tosend := c_tosend c @ map (\<lambda>j. (i, j)) (gm_keys (n_peers n)),
                    c_grants := c_grants c @ [(i, el_term el, i)]\<rparr>))"

definition exec_send :: "'s Cluster \<Rightarrow> int \<Rightarrow> int \<Rightarrow> 's Cluster option" where
  "exec_send c i j =
     (case (gm_get (c_nodes c) i, gm_get (c_elections c) i) of
        (Some n, Some el) \<Rightarrow>
          if (i, j) \<notin> set (c_tosend c) then None
          else (case vote_request n el of
              None \<Rightarrow> None
            | Some req \<Rightarrow>
                Some (c\<lparr>c_tosend := remove1 (i, j) (c_tosend c), c_waiting := c_waiting c @ [(i, j)],
                        c_requests := c_requests c @ [(i, j, req)]\<rparr>))
      | _ \<Rightarrow> None)"

definition exec_deliver :: "'s Cluster \<Rightarrow> nat \<Rightarrow> 's Cluster option" where
  "exec_deliver c k =
     (if k < length (c_requests c) then
        (case c_requests c ! k of (i, j, req) \<Rightarrow>
          (case gm_get (c_nodes c) j of
             None \<Rightarrow> None
           | Some n \<Rightarrow>
               (case RequestVote n req of
                  None \<Rightarrow> None
                | Some (resp, n') \<Rightarrow>
                    Some ((put_node c j n')\<lparr>c_requests := drop_nth k (c_requests c),
                            c_replies := c_replies c @ [(i, j, rq_Term req, resp)],
                            c_grants := (if rv_VoteGranted resp
                              then c_grants c @ [(j, rq_Term req, rq_CandidateId req)]
                              else c_grants c)\<rparr>))))
      else None)"

definition exec_reply :: "bool \<Rightarrow> 's Cluster \<Rightarrow> nat \<Rightarrow> 's Cluster option" where
  "exec_reply timely c k =
     (if k < length (c_replies c) then
        (case c_replies c ! k of (i, j, t, resp) \<Rightarrow>
          (case (gm_get (c_nodes c) i, gm_get (c_elections c) i) of
             (Some n, Some el) \<Rightarrow>
               let c1 = c\<lparr>c_replies := drop_nth k (c_replies c)\<rparr> in
               if (i, j) \<notin> set (c_waiting c) \<or> el_term el \<noteq> t then Some c1
               else if timely \<and> n_currentTerm n \<noteq> el_term el then None
               else let (n', el') = vote_reply n el (Some resp) in
                 Some ((put_node c1 i n')\<lparr>c_elections := gm_put (c_elections c) i el',
                         c_waiting := remove1 (i, j) (c_waiting c),
                         c_leaders := (if el_won el' \<and> \<not> el_won el
                           then c_leaders c @ [(el_term el, i)] else c_leaders c)\<rparr>)
           | _ \<Rightarrow> None))
      else None)"

definition on_node :: "'s Cluster \<Rightarrow> int \<Rightarrow> ('s Node \<Rightarrow> 's Node option) \<Rightarrow> 's Cluster option" where
  "on_node c i f =
     (case gm_get (c_nodes c) i of
        None \<Rightarrow> None
      | Some n \<Rightarrow> map_option (put_node c i) (f n))"

fun cl_exec :: "bool \<Rightarrow> 's Cluster \<Rightarrow> cluster_action \<Rightarrow> 's Cluster option" where
  "cl_exec timely c (ElectionTimeout i) = exec_timeout c i"
| "cl_exec timely c (SendVote i j) = exec_send c i j"
| "cl_exec timely c (DeliverVote k) = exec_deliver c k"
| "cl_exec timely c (ReplyVote k) = exec_reply timely c k"
| "cl_exec timely c (FailVote i j) =
     Some (c\<lparr>c_tosend := remove1 (i, j) (c_tosend c), c_waiting := remove1 (i, j) (c_waiting c)\<rparr>)"
| "cl_exec timely c (DeliverAppend j req) = on_node c j (\<lambda>n. map_option snd (AppendEntries n req))"
| "cl_exec timely c (AppendReply i p sent resp) = on_node c i (\<lambda>n. Some (replicate_reply n p sent resp))"
| "cl_exec timely c (ClientPropose i ty dat) = on_node c i (\<lambda>n. map_option snd (Propose False n ty dat))"
| "cl_exec timely c (TakeProposal i) = on_node c i electionLoop_propose"

fun cl_run :: "bool \<Rightarrow> 's Cluster \<Rightarrow> cluster_action list \<Rightarrow> 's Cluster option" where
  "cl_run timely c [] = Some c"
| "cl_run timely c (a # as) = (case cl_exec timely c a of None \<Rightarrow> None | Some c' \<Rightarrow> cl_run timely c' as)"

inductive cl_step :: "bool \<Rightarrow> 's Cluster \<Rightarrow> 's Cluster \<Rightarrow> bool" for timely where
  cl_action: "cl_exec timely c a = Some c' \<Longrightarrow> cl_step timely c c'"

text \<open>A fresh cluster: every node created by \<open>NewNode\<close> with all the others as peers.\<close>

definition new_node :: "int list \<Rightarrow> int \<Rightarrow> 's \<Rightarrow> 's Node option" where
  "new_node ids i machine =
     (case NewNode (\<lambda>_. True) i (map (\<lambda>j. (j, [])) (remove1 i ids)) machine of
        Inl _ \<Rightarrow> None | Inr n \<Rightarrow> Some n)"

definition new_cluster :: "int list \<Rightarrow> 's \<Rightarrow> 's Cluster" where
  "new_cluster ids machine =
     \<lparr>c_nodes = concat (map (\<lambda>i. case new_node ids i machine of None \<Rightarrow> [] | Some n \<Rightarrow> [(i, n)]) ids),
      c_elections = gm_empty, c_tosend = [], c_waiting = [], c_requests = [], c_replies = [],
      c_grants = [], c_leaders = []\<rparr>"

definition cl_init :: "'s Cluster \<Rightarrow> bool" where
  "cl_init c \<longleftrightarrow> (\<exists>ids machine. c = new_cluster ids machine \<and> distinct ids \<and> -1 \<notin> set ids \<and>
     length ids < 2 ^ 31 - 1)"

section \<open>What the handlers do to the vote of a node\<close>

text \<open>A step that raises the term or leaves term and vote alone.\<close>

definition vote_step :: "'s Node \<Rightarrow> 's Node \<Rightarrow> bool" where
  "vote_step n n' \<longleftrightarrow> n_id n' = n_id n \<and> n_peers n' = n_peers n \<and>
     (n_currentTerm n < n_currentTerm n' \<or>
      n_currentTerm n' = n_currentTerm n \<and> n_votedFor n' = n_votedFor n)"

lemma vote_step_refl [simp]: "vote_step n n"
  by (simp add: vote_step_def)

lemma vote_step_becomeFollower: "n_currentTerm n < t \<Longrightarrow> vote_step n (becomeFollower n t)"
  by (simp add: vote_step_def becomeFollower_def)

lemma vote_step_becomeLeader: "vote_step n (becomeLeader n)"
  by (simp add: vote_step_def becomeLeader_def Let_def)

lemma vote_step_AppendEntries: "AppendEntries n req = Some (resp, n') \<Longrightarrow> vote_step n n'"
  by (auto simp: AppendEntries_def Let_def vote_step_def becomeFollower_def
      split: if_splits option.splits prod.splits)

lemma vote_step_maybeCommit: "vote_step n (maybeCommit n)"
  using maybeCommit_loop_spec [of n "LastIndex (n_log n)"]
  by (auto simp: maybeCommit_def vote_step_def)

lemma vote_step_replicate_reply: "vote_step n (replicate_reply n p sent resp)"
proof -
  have "vote_step n (maybeCommit (n\<lparr>n_nextIndex := a, n_matchIndex := b\<rparr>))" for a b
    using vote_step_maybeCommit [of "n\<lparr>n_nextIndex := a, n_matchIndex := b\<rparr>"] by (simp add: vote_step_def)
  moreover have "vote_step n (n\<lparr>n_nextIndex := a\<rparr>)" for a by (simp add: vote_step_def)
  ultimately show ?thesis
    by (simp add: replicate_reply_def vote_step_becomeFollower split: option.split)
qed

lemma vote_step_Propose: "Propose ps n ty dat = Some (r, n') \<Longrightarrow> vote_step n n'"
  by (auto simp: Propose_def Let_def vote_step_def split: if_splits)

lemma vote_step_electionLoop_propose: "electionLoop_propose n = Some n' \<Longrightarrow> vote_step n n'"
  by (auto simp: electionLoop_propose_def Let_def vote_step_def IsLeader_def split: list.splits if_splits)

lemma vote_step_vote_reply:
  assumes "vote_reply n el (Some r) = (n', el')" "n_currentTerm n = el_term el"
  shows "vote_step n n'"
  using assms vote_step_becomeFollower [of n] vote_step_becomeLeader [of n]
  by (auto simp: vote_reply_def Let_def split: if_splits)

lemma RequestVote_refused:
  "RequestVote n req = Some (resp, n') \<Longrightarrow> \<not> rv_VoteGranted resp \<Longrightarrow> vote_step n n'"
  by (auto simp: RequestVote_def RequestVote_decide_def RequestVote_store_def Let_def vote_step_def
      becomeFollower_def split: option.splits if_splits)

lemma RequestVote_granted:
  assumes "RequestVote n req = Some (resp, n')" "rv_VoteGranted resp"
  shows "n_id n' = n_id n \<and> n_peers n' = n_peers n \<and> n_currentTerm n' = rq_Term req \<and>
    n_votedFor n' = rq_CandidateId req \<and>
    (n_currentTerm n < rq_Term req \<or>
     n_currentTerm n = rq_Term req \<and> n_votedFor n \<in> {-1, rq_CandidateId req})"
  using assms
  by (auto simp: RequestVote_def RequestVote_decide_def RequestVote_store_def Let_def
      becomeFollower_def split: option.splits if_splits)

section \<open>The invariant of the cluster\<close>

definition ids_of :: "(int, 's Node) gomap \<Rightarrow> int set" where
  "ids_of nds = set (gm_keys nds)"

definition nodes_ok :: "(int, 's Node) gomap \<Rightarrow> bool" where
  "nodes_ok nds \<longleftrightarrow> gm_wf nds \<and> -1 \<notin> ids_of nds \<and> card (ids_of nds) < 2 ^ 31 - 1 \<and>
     (\<forall>i n. gm_get nds i = Some n \<longrightarrow>
        n_id n = i \<and> gm_wf (n_peers n) \<and> set (gm_keys (n_peers n)) = ids_of nds - {i})"

text \<open>Every vote is for a node of the cluster, is remembered as long as the term lasts, and is unique.\<close>

definition grants_ok :: "(int, 's Node) gomap \<Rightarrow> (int \<times> int \<times> int) set \<Rightarrow> bool" where
  "grants_ok nds G \<longleftrightarrow>
     (\<forall>j t x. (j, t, x) \<in> G \<longrightarrow> x \<in> ids_of nds \<and>
        (\<exists>n. gm_get nds j = Some n \<and> t \<le> n_currentTerm n \<and> (t = n_currentTerm n \<longrightarrow> x = n_votedFor n))) \<and>
     (\<forall>j t x y. (j, t, x) \<in> G \<longrightarrow> (j, t, y) \<in> G \<longrightarrow> x = y)"

definition msgs_ok :: "int set \<Rightarrow> (int \<times> int \<times> int) set \<Rightarrow> (int \<times> int \<times> RequestVoteRequest) set \<Rightarrow>
    (int \<times> int \<times> int \<times> RequestVoteResponse) set \<Rightarrow> bool" where
  "msgs_ok N G reqs reps \<longleftrightarrow>
     (\<forall>i j req. (i, j, req) \<in> reqs \<longrightarrow> rq_CandidateId req = i \<and> i \<in> N) \<and>
     (\<forall>i j t resp. (i, j, t, resp) \<in> reps \<longrightarrow> rv_VoteGranted resp \<longrightarrow> (j, t, i) \<in> G)"

definition pend_ok :: "int set \<Rightarrow> (int \<times> int) list \<Rightarrow> bool" where
  "pend_ok N pend \<longleftrightarrow> distinct pend \<and> (\<forall>(i, j) \<in> set pend. j \<in> N - {i})"

text \<open>The votes of an election come from different nodes, none of which is still to answer.\<close>

definition voters :: "int set \<Rightarrow> (int \<times> int \<times> int) set \<Rightarrow> (int \<times> int) set \<Rightarrow> int \<Rightarrow> Election \<Rightarrow>
    int set \<Rightarrow> bool" where
  "voters N G pend i el V \<longleftrightarrow> V \<subseteq> N \<and> (\<forall>v \<in> V. (v, el_term el, i) \<in> G) \<and>
     1 \<le> el_votes el \<and> el_votes el \<le> int (card V) \<and> V \<inter> {j. (i, j) \<in> pend} = {}"

definition elections_ok :: "int set \<Rightarrow> (int \<times> int \<times> int) set \<Rightarrow> (int \<times> int) set \<Rightarrow>
    (int, Election) gomap \<Rightarrow> bool" where
  "elections_ok N G pend els \<longleftrightarrow> (\<forall>i el. gm_get els i = Some el \<longrightarrow> (\<exists>V. voters N G pend i el V))"

definition quorum :: "int set \<Rightarrow> (int \<times> int \<times> int) set \<Rightarrow> int \<Rightarrow> int \<Rightarrow> int set \<Rightarrow> bool" where
  "quorum N G t i V \<longleftrightarrow> V \<subseteq> N \<and> (\<forall>v \<in> V. (v, t, i) \<in> G) \<and> (card N - 1) div 2 + 1 \<le> card V"

definition leaders_ok :: "int set \<Rightarrow> (int \<times> int \<times> int) set \<Rightarrow> (int \<times> int) set \<Rightarrow> bool" where
  "leaders_ok N G ls \<longleftrightarrow> (\<forall>t i. (t, i) \<in> ls \<longrightarrow> (\<exists>V. quorum N G t i V))"

definition cl_inv :: "'s Cluster \<Rightarrow> bool" where
  "cl_inv c \<longleftrightarrow>
     nodes_ok (c_nodes c) \<and> grants_ok (c_nodes c) (set (c_grants c)) \<and>
     msgs_ok (ids_of (c_nodes c)) (set (c_grants c)) (set (c_requests c)) (set (c_replies c)) \<and>
     pend_ok (ids_of (c_nodes c)) (c_tosend c @ c_waiting c) \<and>
     elections_ok (ids_of (c_nodes c)) (set (c_grants c)) (set (c_tosend c @ c_waiting c)) (c_elections c) \<and>
     leaders_ok (ids_of (c_nodes c)) (set (c_grants c)) (set (c_leaders c))"

lemma ids_of_put: "gm_get nds i = Some n \<Longrightarrow> ids_of (gm_put nds i n') = ids_of nds"
  by (auto simp: ids_of_def gm.set_keys)

lemma nodes_ok_put:
  assumes "nodes_ok nds" "gm_get nds i = Some n" "n_id n' = n_id n" "n_peers n' = n_peers n"
  shows "nodes_ok (gm_put nds i n')"
  using assms by (auto simp: nodes_ok_def ids_of_put)

lemma grants_ok_put:
  assumes "grants_ok nds G" "gm_get nds i = Some n" "vote_step n n'"
  shows "grants_ok (gm_put nds i n') G"
proof -
  have uniq: "\<forall>j t x y. (j, t, x) \<in> G \<longrightarrow> (j, t, y) \<in> G \<longrightarrow> x = y"
    using assms(1) unfolding grants_ok_def by blast
  have "x \<in> ids_of nds \<and> (\<exists>m. gm_get (gm_put nds i n') j = Some m \<and> t \<le> n_currentTerm m \<and>
      (t = n_currentTerm m \<longrightarrow> x = n_votedFor m))" if g: "(j, t, x) \<in> G" for j t x
  proof -
    obtain m where m: "x \<in> ids_of nds" "gm_get nds j = Some m" "t \<le> n_currentTerm m"
      "t = n_currentTerm m \<longrightarrow> x = n_votedFor m"
      using assms(1) g unfolding grants_ok_def by blast
    show ?thesis
    proof (cases "j = i")
      case True
      then have "m = n" using m(2) assms(2) by simp
      then show ?thesis using m assms(3) True by (auto simp: vote_step_def)
    next
      case False
      then show ?thesis using m by simp
    qed
  qed
  then show ?thesis using uniq unfolding grants_ok_def ids_of_put [OF assms(2)] by blast
qed

lemma msgs_ok_mono:
  "msgs_ok N G reqs reps \<Longrightarrow> G \<subseteq> G' \<Longrightarrow> reqs' \<subseteq> reqs \<Longrightarrow> reps' \<subseteq> reps \<Longrightarrow> msgs_ok N G' reqs' reps'"
  unfolding msgs_ok_def by blast

lemma voters_mono: "voters N G pend i el V \<Longrightarrow> G \<subseteq> G' \<Longrightarrow> pend' \<subseteq> pend \<Longrightarrow> voters N G' pend' i el V"
  unfolding voters_def by auto

lemma quorum_mono: "quorum N G t i V \<Longrightarrow> G \<subseteq> G' \<Longrightarrow> quorum N G' t i V"
  unfolding quorum_def by auto

lemma elections_okD: "elections_ok N G pend els \<Longrightarrow> gm_get els i = Some el \<Longrightarrow> \<exists>V. voters N G pend i el V"
  by (simp add: elections_ok_def)

lemma elections_ok_mono:
  assumes "elections_ok N G pend els" "G \<subseteq> G'" "pend' \<subseteq> pend"
  shows "elections_ok N G' pend' els"
  using voters_mono [OF _ assms(2,3)] elections_okD [OF assms(1)] unfolding elections_ok_def by metis

lemma leaders_ok_mono:
  assumes "leaders_ok N G ls" "G \<subseteq> G'"
  shows "leaders_ok N G' ls"
  using quorum_mono [OF _ assms(2)] assms(1) unfolding leaders_ok_def by metis

lemma set_drop_nth: "set (drop_nth k xs) \<subseteq> set xs"
  by (auto simp: drop_nth_def dest: in_set_takeD in_set_dropD)

lemma cl_inv_on_node:
  assumes "cl_inv c" "on_node c i f = Some c'" "\<And>n n'. f n = Some n' \<Longrightarrow> vote_step n n'"
  shows "cl_inv c'"
proof -
  obtain n n' where n: "gm_get (c_nodes c) i = Some n" "f n = Some n'" "c' = put_node c i n'"
    using assms(2) by (auto simp: on_node_def split: option.splits)
  have v: "vote_step n n'" by (rule assms(3) [OF n(2)])
  then have "n_id n' = n_id n" "n_peers n' = n_peers n" by (simp_all add: vote_step_def)
  with assms(1) v n show ?thesis
    by (simp add: cl_inv_def put_node_def ids_of_put nodes_ok_put grants_ok_put)
qed

lemma cl_inv_fail:
  assumes "cl_inv c"
  shows "cl_inv (c\<lparr>c_tosend := remove1 p (c_tosend c), c_waiting := remove1 p (c_waiting c)\<rparr>)"
proof -
  have sub: "set (remove1 p (c_tosend c) @ remove1 p (c_waiting c)) \<subseteq> set (c_tosend c @ c_waiting c)"
    using set_remove1_subset [of p "c_tosend c"] set_remove1_subset [of p "c_waiting c"] by auto
  have "pend_ok (ids_of (c_nodes c)) (remove1 p (c_tosend c) @ remove1 p (c_waiting c))"
    using assms sub by (auto simp: cl_inv_def pend_ok_def distinct_remove1 dest: notin_set_remove1)
  then show ?thesis
    using assms elections_ok_mono [OF _ order_refl sub] by (simp add: cl_inv_def)
qed

lemma cl_inv_send:
  assumes "cl_inv c" "exec_send c i j = Some c'"
  shows "cl_inv c'"
proof -
  obtain n el req where n: "gm_get (c_nodes c) i = Some n" "gm_get (c_elections c) i = Some el"
    "(i, j) \<in> set (c_tosend c)" "vote_request n el = Some req"
    and c': "c' = c\<lparr>c_tosend := remove1 (i, j) (c_tosend c), c_waiting := c_waiting c @ [(i, j)],
                     c_requests := c_requests c @ [(i, j, req)]\<rparr>"
    using assms(2) by (auto simp: exec_send_def split: option.splits if_splits)
  have i: "n_id n = i" "i \<in> ids_of (c_nodes c)"
    using assms(1) n(1) by (auto simp: cl_inv_def nodes_ok_def ids_of_def gm.set_keys)
  then have "rq_CandidateId req = i" using n(4) by (auto simp: vote_request_def split: option.splits)
  moreover have d: "distinct (c_tosend c @ c_waiting c)"
    using assms(1) by (simp add: cl_inv_def pend_ok_def)
  then have "(i, j) \<notin> set (c_waiting c)" using n(3) by auto
  moreover have "set (remove1 (i, j) (c_tosend c)) = set (c_tosend c) - {(i, j)}"
    using d by (simp add: set_remove1_eq)
  moreover have "insert (i, j) (set (c_tosend c) - {(i, j)} \<union> set (c_waiting c)) =
      set (c_tosend c) \<union> set (c_waiting c)"
    using n(3) by auto
  ultimately show ?thesis
    using assms(1) i d n(3)
    by (auto simp: cl_inv_def c' msgs_ok_def pend_ok_def distinct_remove1)
qed

lemma grants_ok_grant:
  assumes G: "grants_ok nds G" "gm_get nds j = Some n" "x \<in> ids_of nds" "-1 \<notin> ids_of nds"
    and n': "n_currentTerm n' = t" "n_votedFor n' = x"
    and old: "n_currentTerm n < t \<or> n_currentTerm n = t \<and> n_votedFor n \<in> {-1, x}"
  shows "grants_ok (gm_put nds j n') (insert (j, t, x) G)"
proof -
  have same: "u \<le> t \<and> (u = t \<longrightarrow> y = x)" if g: "(j, u, y) \<in> G" for u y
  proof -
    have "y \<in> ids_of nds" "u \<le> n_currentTerm n" "u = n_currentTerm n \<longrightarrow> y = n_votedFor n"
      using G(1,2) g unfolding grants_ok_def by fastforce+
    with old G(4) show ?thesis by auto
  qed
  have uniq: "\<And>k u y z. (k, u, y) \<in> G \<Longrightarrow> (k, u, z) \<in> G \<Longrightarrow> y = z"
    using G(1) unfolding grants_ok_def by blast
  have ex: "y \<in> ids_of nds \<and> (\<exists>m. gm_get (gm_put nds j n') k = Some m \<and> u \<le> n_currentTerm m \<and>
      (u = n_currentTerm m \<longrightarrow> y = n_votedFor m))" if g: "(k, u, y) \<in> insert (j, t, x) G" for k u y
  proof (cases "k = j")
    case True
    then have "u \<le> t \<and> (u = t \<longrightarrow> y = x) \<and> y \<in> ids_of nds"
      using g same G(1,3) unfolding grants_ok_def by blast
    then show ?thesis using True n' by simp
  next
    case False
    then have "(k, u, y) \<in> G" using g by simp
    then show ?thesis using G(1) False unfolding grants_ok_def by simp
  qed
  have "y = z" if "(k, u, y) \<in> insert (j, t, x) G" "(k, u, z) \<in> insert (j, t, x) G" for k u y z
    using that same uniq by blast
  with ex show ?thesis unfolding grants_ok_def ids_of_put [OF G(2)] by blast
qed

lemma nodes_okD:
  assumes "nodes_ok nds" "gm_get nds i = Some n"
  shows "n_id n = i" "i \<in> ids_of nds" "gm_wf (n_peers n)" "set (gm_keys (n_peers n)) = ids_of nds - {i}"
    "length (n_peers n) = card (ids_of nds) - 1" "i \<noteq> -1"
proof -
  show i: "n_id n = i" "gm_wf (n_peers n)" "set (gm_keys (n_peers n)) = ids_of nds - {i}"
    using assms by (simp_all add: nodes_ok_def)
  show m: "i \<in> ids_of nds" using assms(2) by (simp add: ids_of_def gm.set_keys)
  then show "i \<noteq> -1" using assms(1) by (auto simp: nodes_ok_def)
  have "length (n_peers n) = length (gm_keys (n_peers n))" by (simp add: gm_keys_def)
  also have "\<dots> = card (set (gm_keys (n_peers n)))"
    using i(2) by (simp add: distinct_card gm.wf_keys)
  also have "\<dots> = card (ids_of nds) - 1" using m by (simp add: i(3) ids_of_def)
  finally show "length (n_peers n) = card (ids_of nds) - 1" .
qed

lemma cl_inv_deliver:
  assumes inv: "cl_inv c" and ex: "exec_deliver c k = Some c'"
  shows "cl_inv c'"
proof -
  obtain i j req where r: "c_requests c ! k = (i, j, req)" "k < length (c_requests c)"
    using ex by (cases "c_requests c ! k") (auto simp: exec_deliver_def split: if_splits)
  obtain n resp n' where n: "gm_get (c_nodes c) j = Some n" "RequestVote n req = Some (resp, n')"
    and c': "c' = (put_node c j n')\<lparr>c_requests := drop_nth k (c_requests c),
        c_replies := c_replies c @ [(i, j, rq_Term req, resp)],
        c_grants := (if rv_VoteGranted resp
          then c_grants c @ [(j, rq_Term req, rq_CandidateId req)] else c_grants c)\<rparr>"
    using ex r by (auto simp: exec_deliver_def split: option.splits)
  have "(i, j, req) \<in> set (c_requests c)" using r nth_mem by metis
  then have cand: "rq_CandidateId req = i" "i \<in> ids_of (c_nodes c)"
    using inv unfolding cl_inv_def msgs_ok_def by blast+
  define G' where "G' = set (c_grants c')"
  have G: "set (c_grants c) \<subseteq> G'" by (auto simp: G'_def c')
  have peers: "n_id n' = n_id n" "n_peers n' = n_peers n"
    using RequestVote_granted [OF n(2)] RequestVote_refused [OF n(2)] by (auto simp: vote_step_def)
  have grants: "grants_ok (gm_put (c_nodes c) j n') G'"
  proof (cases "rv_VoteGranted resp")
    case True
    then have "G' = insert (j, rq_Term req, i) (set (c_grants c))" by (auto simp: G'_def c' cand)
    then show ?thesis
      using RequestVote_granted [OF n(2) True] inv n(1) cand
      by (auto simp: cl_inv_def nodes_ok_def intro!: grants_ok_grant)
  next
    case False
    then have "G' = set (c_grants c)" by (simp add: G'_def c')
    then show ?thesis
      using RequestVote_refused [OF n(2) False] inv n(1) by (simp add: cl_inv_def grants_ok_put)
  qed
  have "msgs_ok (ids_of (c_nodes c)) G' (set (c_requests c')) (set (c_replies c))"
    using inv G set_drop_nth [of k "c_requests c"] by (auto simp: cl_inv_def c' intro: msgs_ok_mono)
  then have msgs: "msgs_ok (ids_of (c_nodes c)) G' (set (c_requests c')) (set (c_replies c'))"
    by (auto simp: msgs_ok_def G'_def c' cand)
  show ?thesis
    using inv grants msgs elections_ok_mono [OF _ G order_refl] leaders_ok_mono [OF _ G]
      nodes_ok_put [OF _ n(1) peers]
    by (simp add: cl_inv_def G'_def [symmetric]) (simp add: c' put_node_def ids_of_put [OF n(1)])
qed

lemma cl_inv_timeout:
  assumes inv: "cl_inv c" and ex: "exec_timeout c i = Some c'"
  shows "cl_inv c'"
proof -
  obtain n where n: "gm_get (c_nodes c) i = Some n"
    using ex by (auto simp: exec_timeout_def split: option.splits)
  have g: "\<not> election_running c i" "in_i64 (n_currentTerm n + 1)"
    using ex n by (auto simp: exec_timeout_def split: if_splits)
  define t where "t = i64 (n_currentTerm n + 1)"
  define n' where "n' = n\<lparr>n_currentTerm := t, n_state := Candidate, n_votedFor := n_id n\<rparr>"
  define el where "el = \<lparr>el_term = t, el_votes = 1, el_won = False\<rparr>"
  let ?calls = "map (\<lambda>j. (i, j)) (gm_keys (n_peers n))"
  have c': "c' = (put_node c i n')\<lparr>c_elections := gm_put (c_elections c) i el,
      c_tosend := c_tosend c @ ?calls, c_grants := c_grants c @ [(i, t, i)]\<rparr>"
    using ex n by (simp add: exec_timeout_def startElection_begin_def Let_def t_def n'_def el_def
        split: if_splits)
  have nok: "nodes_ok (c_nodes c)" using inv by (simp add: cl_inv_def)
  note nd = nodes_okD [OF nok n]
  have t: "t = n_currentTerm n + 1" using g(2) by (simp add: t_def)
  have idle: "(i, j) \<notin> set (c_tosend c @ c_waiting c)" for j
    using g(1) by (force simp: election_running_def)
  have grants: "grants_ok (gm_put (c_nodes c) i n') (insert (i, t, i) (set (c_grants c)))"
    using inv n t nd nok
    by (intro grants_ok_grant [where n = n]) (simp_all add: cl_inv_def n'_def nodes_ok_def)
  have nodes: "nodes_ok (gm_put (c_nodes c) i n')"
    by (rule nodes_ok_put [OF nok n]) (simp_all add: n'_def)
  have d: "distinct ?calls" using nd(3) by (simp add: distinct_map gm.wf_keys inj_on_def)
  have "pend_ok (ids_of (c_nodes c)) (c_tosend c @ c_waiting c)" using inv by (simp add: cl_inv_def)
  then have pend: "pend_ok (ids_of (c_nodes c)) ((c_tosend c @ ?calls) @ c_waiting c)"
    using d idle nd(4) unfolding pend_ok_def by fastforce
  have els: "elections_ok (ids_of (c_nodes c)) (insert (i, t, i) (set (c_grants c)))
      (set ((c_tosend c @ ?calls) @ c_waiting c)) (gm_put (c_elections c) i el)"
  proof (unfold elections_ok_def, intro allI impI)
    fix i' el' assume e: "gm_get (gm_put (c_elections c) i el) i' = Some el'"
    show "\<exists>V. voters (ids_of (c_nodes c)) (insert (i, t, i) (set (c_grants c)))
        (set ((c_tosend c @ ?calls) @ c_waiting c)) i' el' V"
    proof (cases "i' = i")
      case True
      then have el': "el' = el" using e by simp
      have "voters (ids_of (c_nodes c)) (insert (i, t, i) (set (c_grants c)))
        (set ((c_tosend c @ ?calls) @ c_waiting c)) i' el' {i}"
        using True nd(2,4) idle [of i] unfolding el' by (simp add: voters_def el_def image_iff)
      then show ?thesis by blast
    next
      case False
      have "elections_ok (ids_of (c_nodes c)) (set (c_grants c)) (set (c_tosend c @ c_waiting c)) (c_elections c)"
        using inv by (simp add: cl_inv_def)
      moreover have "gm_get (c_elections c) i' = Some el'" using e False by simp
      ultimately obtain V where "voters (ids_of (c_nodes c)) (set (c_grants c))
          (set (c_tosend c @ c_waiting c)) i' el' V"
        using elections_okD by metis
      then have "voters (ids_of (c_nodes c)) (insert (i, t, i) (set (c_grants c)))
          (set ((c_tosend c @ ?calls) @ c_waiting c)) i' el' V"
        using False by (simp add: voters_def image_iff)
      then show ?thesis by blast
    qed
  qed
  have sub: "set (c_grants c) \<subseteq> insert (i, t, i) (set (c_grants c))" by blast
  show ?thesis
    using inv grants nodes pend els msgs_ok_mono [OF _ sub order_refl order_refl] leaders_ok_mono [OF _ sub]
    by (simp add: cl_inv_def c' put_node_def ids_of_put [OF n])
qed

lemma vote_reply_election:
  assumes "vote_reply n el (Some r) = (n', el')"
  shows "el' = el \<or>
    rv_VoteGranted r \<and> el_term el' = el_term el \<and> el_votes el' = i32 (el_votes el + 1) \<and>
    (el_won el' \<longrightarrow> el_won el \<or> vote_majority n \<le> el_votes el')"
  using assms by (auto simp: vote_reply_def Let_def split: if_splits)

text \<open>One more vote: the voter was still to answer, so it has not been counted.\<close>

lemma voters_add:
  assumes V: "voters N G pend i el V" and j: "(j, el_term el, i) \<in> G" "(i, j) \<in> pend" "j \<in> N"
    and N: "finite N" "card N < 2 ^ 31 - 1"
    and el': "el_term el' = el_term el" "el_votes el' = i32 (el_votes el + 1)"
  shows "voters N G (pend - {(i, j)}) i el' (insert j V)" "el_votes el' = el_votes el + 1"
proof -
  have fin: "finite V" "card V \<le> card N" "j \<notin> V"
    using V j(2) N(1) by (auto simp: voters_def finite_subset card_mono)
  then show votes: "el_votes el' = el_votes el + 1"
    using V N(2) el'(2) by (simp add: voters_def i32_id)
  show "voters N G (pend - {(i, j)}) i el' (insert j V)"
    using V j fin votes el'(1) by (auto simp: voters_def)
qed

lemma ids_bound: "nodes_ok nds \<Longrightarrow> finite (ids_of nds) \<and> card (ids_of nds) < 2 ^ 31 - 1"
  by (simp add: nodes_ok_def ids_of_def)

lemma vote_majority_eq:
  assumes "nodes_ok nds" "gm_get nds i = Some n"
  shows "vote_majority n = int ((card (ids_of nds) - 1) div 2 + 1)"
proof -
  let ?k = "card (ids_of nds) - 1"
  have "?k div 2 + 1 < 2 ^ 31" using ids_bound [OF assms(1)] div_le_dividend [of ?k 2] by linarith
  then have "i32 (int (?k div 2 + 1)) = int (?k div 2 + 1)" by (intro i32_id) simp_all
  then show ?thesis by (simp add: vote_majority_def nodes_okD(5) [OF assms] zdiv_int add.commute)
qed

lemma cl_inv_reply:
  assumes inv: "cl_inv c" and ex: "exec_reply True c k = Some c'"
  shows "cl_inv c'"
proof -
  let ?N = "ids_of (c_nodes c)" and ?G = "set (c_grants c)" and ?pend = "c_tosend c @ c_waiting c"
  obtain i j t resp where r: "c_replies c ! k = (i, j, t, resp)" "k < length (c_replies c)"
    using ex by (cases "c_replies c ! k") (auto simp: exec_reply_def split: if_splits)
  obtain n el where n: "gm_get (c_nodes c) i = Some n" "gm_get (c_elections c) i = Some el"
    using ex r by (auto simp: exec_reply_def split: option.splits)
  have msgs: "msgs_ok ?N ?G (set (c_requests c)) (set (drop_nth k (c_replies c)))"
    using inv set_drop_nth [of k "c_replies c"] by (auto simp: cl_inv_def intro: msgs_ok_mono)
  show ?thesis
  proof (cases "(i, j) \<notin> set (c_waiting c) \<or> el_term el \<noteq> t")
    case True
    then have "c' = c\<lparr>c_replies := drop_nth k (c_replies c)\<rparr>"
      using ex r n by (simp add: exec_reply_def)
    then show ?thesis using inv msgs by (simp add: cl_inv_def)
  next
    case False
    then have w: "(i, j) \<in> set (c_waiting c)" "el_term el = t" by simp_all
    obtain n' el' where v: "vote_reply n el (Some resp) = (n', el')" by fastforce
    have timely: "n_currentTerm n = el_term el"
      using ex r n w by (simp add: exec_reply_def split: if_splits)
    have c': "c' = (put_node (c\<lparr>c_replies := drop_nth k (c_replies c)\<rparr>) i n')
        \<lparr>c_elections := gm_put (c_elections c) i el', c_waiting := remove1 (i, j) (c_waiting c),
          c_leaders := (if el_won el' \<and> \<not> el_won el then c_leaders c @ [(el_term el, i)]
            else c_leaders c)\<rparr>"
      using ex r n w timely v by (simp add: exec_reply_def Let_def)
    have nok: "nodes_ok (c_nodes c)" using inv by (simp add: cl_inv_def)
    have step: "vote_step n n'" by (rule vote_step_vote_reply [OF v timely])
    then have nodes: "nodes_ok (gm_put (c_nodes c) i n')"
      by (intro nodes_ok_put [OF nok n(1)]) (simp_all add: vote_step_def)
    have grants: "grants_ok (gm_put (c_nodes c) i n') ?G"
      using inv step n(1) by (simp add: cl_inv_def grants_ok_put)
    have pok: "distinct ?pend" "j \<in> ?N"
      using inv w(1) unfolding cl_inv_def pend_ok_def by fastforce+
    have pset: "set (c_tosend c @ remove1 (i, j) (c_waiting c)) = set ?pend - {(i, j)}"
      using pok(1) w(1) by (auto simp: set_remove1_eq)
    have pend: "pend_ok ?N (c_tosend c @ remove1 (i, j) (c_waiting c))"
      using inv pok(1) pset unfolding cl_inv_def pend_ok_def
      by (auto simp: distinct_remove1 dest: notin_set_remove1)
    have eok: "elections_ok ?N ?G (set ?pend) (c_elections c)" using inv by (simp add: cl_inv_def)
    obtain V where V: "voters ?N ?G (set ?pend) i el V" using elections_okD [OF eok n(2)] by blast
    have cases: "el' = el \<or> (el_term el' = el_term el \<and>
        voters ?N ?G (set ?pend - {(i, j)}) i el' (insert j V) \<and>
        (el_won el' \<longrightarrow> el_won el \<or> vote_majority n \<le> el_votes el'))"
    proof (cases "el' = el")
      case ch: False
      then have g: "rv_VoteGranted resp" "el_term el' = el_term el" "el_votes el' = i32 (el_votes el + 1)"
        "el_won el' \<longrightarrow> el_won el \<or> vote_majority n \<le> el_votes el'"
        using vote_reply_election [OF v] by blast+
      have "(i, j, t, resp) \<in> set (c_replies c)" using r nth_mem by metis
      then have "(j, el_term el, i) \<in> ?G" using inv g(1) w(2) unfolding cl_inv_def msgs_ok_def by blast
      moreover have "(i, j) \<in> set ?pend" using w(1) by simp
      ultimately have "voters ?N ?G (set ?pend - {(i, j)}) i el' (insert j V)"
        using ids_bound [OF nok] g(2,3) pok(2) by (intro voters_add(1) [OF V]) simp_all
      then show ?thesis using g by blast
    qed simp
    have els: "elections_ok ?N ?G (set ?pend - {(i, j)}) (gm_put (c_elections c) i el')"
    proof (unfold elections_ok_def, intro allI impI)
      fix i' e assume e: "gm_get (gm_put (c_elections c) i el') i' = Some e"
      show "\<exists>V. voters ?N ?G (set ?pend - {(i, j)}) i' e V"
      proof (cases "i' = i")
        case True
        then have "e = el'" using e by simp
        moreover have "voters ?N ?G (set ?pend - {(i, j)}) i el V"
          by (rule voters_mono [OF V]) auto
        ultimately show ?thesis using cases True by metis
      next
        case False
        then have "gm_get (c_elections c) i' = Some e" using e by simp
        then obtain W where "voters ?N ?G (set ?pend) i' e W" using elections_okD [OF eok] by blast
        then have "voters ?N ?G (set ?pend - {(i, j)}) i' e W" by (rule voters_mono) auto
        then show ?thesis by blast
      qed
    qed
    have lok: "leaders_ok ?N ?G (set (c_leaders c))" using inv by (simp add: cl_inv_def)
    have ldrs: "leaders_ok ?N ?G (set (c_leaders c'))"
    proof (cases "el_won el' \<and> \<not> el_won el")
      case True
      then have V': "voters ?N ?G (set ?pend - {(i, j)}) i el' (insert j V)"
        "vote_majority n \<le> el_votes el'" "el_term el' = el_term el"
        using cases by auto
      then have "int ((card ?N - 1) div 2 + 1) \<le> int (card (insert j V))"
        unfolding vote_majority_eq [OF nok n(1)] voters_def by linarith
      then have "quorum ?N ?G (el_term el) i (insert j V)"
        using V'(1,3) by (simp add: quorum_def voters_def)
      moreover have "c_leaders c' = c_leaders c @ [(el_term el, i)]" using True by (simp add: c')
      ultimately show ?thesis using lok by (auto simp: leaders_ok_def)
    next
      case False
      then have "c_leaders c' = c_leaders c" by (auto simp: c')
      then show ?thesis using lok by simp
    qed
    show ?thesis
      using nodes grants msgs pend els ldrs
      by (simp add: cl_inv_def pset [simplified]) (simp add: c' put_node_def ids_of_put [OF n(1)] pset [simplified])
  qed
qed

lemma cl_exec_inv:
  assumes inv: "cl_inv c" and ex: "cl_exec True c a = Some c'"
  shows "cl_inv c'"
proof (cases a)
  case (ElectionTimeout i)
  then show ?thesis using cl_inv_timeout [OF inv] ex by simp
next
  case (SendVote i j)
  then show ?thesis using cl_inv_send [OF inv] ex by simp
next
  case (DeliverVote k)
  then show ?thesis using cl_inv_deliver [OF inv] ex by simp
next
  case (ReplyVote k)
  then show ?thesis using cl_inv_reply [OF inv] ex by simp
next
  case (FailVote i j)
  then show ?thesis using cl_inv_fail [OF inv] ex by auto
next
  case (DeliverAppend j req)
  then have "on_node c j (\<lambda>n. map_option snd (AppendEntries n req)) = Some c'" using ex by simp
  then show ?thesis by (rule cl_inv_on_node [OF inv]) (auto dest: vote_step_AppendEntries)
next
  case (AppendReply i p sent resp)
  then have "on_node c i (\<lambda>n. Some (replicate_reply n p sent resp)) = Some c'" using ex by simp
  then show ?thesis by (rule cl_inv_on_node [OF inv]) (auto intro: vote_step_replicate_reply)
next
  case (ClientPropose i ty dat)
  then have "on_node c i (\<lambda>n. map_option snd (Propose False n ty dat)) = Some c'" using ex by simp
  then show ?thesis by (rule cl_inv_on_node [OF inv]) (auto dest: vote_step_Propose)
next
  case (TakeProposal i)
  then have "on_node c i electionLoop_propose = Some c'" using ex by simp
  then show ?thesis by (rule cl_inv_on_node [OF inv]) (rule vote_step_electionLoop_propose)
qed

section \<open>A fresh cluster\<close>

lemma connect_peers_all:
  "\<exists>m. connect_peers (\<lambda>_. True) ps acc = Some m \<and> (gm_wf acc \<longrightarrow> gm_wf m) \<and>
     set (gm_keys m) = set (gm_keys acc) \<union> fst ` set ps"
proof (induction ps arbitrary: acc)
  case (Cons p ps)
  obtain m where "connect_peers (\<lambda>_. True) ps (gm_put acc (fst p) (snd p)) = Some m \<and>
      (gm_wf (gm_put acc (fst p) (snd p)) \<longrightarrow> gm_wf m) \<and>
      set (gm_keys m) = set (gm_keys (gm_put acc (fst p) (snd p))) \<union> fst ` set ps"
    using Cons.IH by blast
  then show ?case by (cases p) (auto simp: gm.set_keys_put)
qed simp

lemma new_node_exists:
  assumes "distinct ids"
  shows "\<exists>n. new_node ids i machine = Some n \<and> n_id n = i \<and> gm_wf (n_peers n) \<and>
    set (gm_keys (n_peers n)) = set ids - {i}"
proof -
  obtain m where m: "connect_peers (\<lambda>_. True) (map (\<lambda>j. (j, [])) (remove1 i ids)) gm_empty = Some m"
    "gm_wf m" "set (gm_keys m) = set (remove1 i ids)"
    using connect_peers_all [of "map (\<lambda>j. (j, [])) (remove1 i ids)" gm_empty]
    by (auto simp: gm_empty_def gm_keys_def image_image gm_wf_def)
  then show ?thesis using assms by (simp add: new_node_def NewNode_def set_remove1_eq)
qed

lemma new_node_the:
  assumes "distinct ids"
  shows "n_id (the (new_node ids i machine)) = i" "gm_wf (n_peers (the (new_node ids i machine)))"
    "set (gm_keys (n_peers (the (new_node ids i machine)))) = set ids - {i}"
proof -
  obtain n where "new_node ids i machine = Some n" "n_id n = i" "gm_wf (n_peers n)"
    "set (gm_keys (n_peers n)) = set ids - {i}"
    using new_node_exists [OF assms, of i machine] by metis
  then show "n_id (the (new_node ids i machine)) = i" "gm_wf (n_peers (the (new_node ids i machine)))"
    "set (gm_keys (n_peers (the (new_node ids i machine)))) = set ids - {i}"
    by simp_all
qed

lemma new_cluster_nodes:
  assumes "distinct ids"
  shows "c_nodes (new_cluster ids machine) = map (\<lambda>i. (i, the (new_node ids i machine))) ids"
proof -
  have "concat (map (\<lambda>i. case new_node ids i machine of None \<Rightarrow> [] | Some n \<Rightarrow> [(i, n)]) xs) =
      map (\<lambda>i. (i, the (new_node ids i machine))) xs" for xs
  proof (induction xs)
    case (Cons x xs)
    obtain n where "new_node ids x machine = Some n" using new_node_exists [OF assms, of x machine] by metis
    then show ?case using Cons.IH by simp
  qed simp
  then show ?thesis by (simp add: new_cluster_def)
qed

lemma map_of_map_pair: "map_of (map (\<lambda>i. (i, f i)) ids) i = (if i \<in> set ids then Some (f i) else None)"
  by (induction ids) auto

lemma new_cluster_inv:
  assumes "distinct ids" "-1 \<notin> set ids" "length ids < 2 ^ 31 - 1"
  shows "cl_inv (new_cluster ids machine)"
proof -
  let ?nds = "c_nodes (new_cluster ids machine)"
  have ids: "ids_of ?nds = set ids" "gm_wf ?nds"
    using assms(1) by (auto simp: ids_of_def gm_keys_def gm_wf_def new_cluster_nodes o_def)
  have "nodes_ok ?nds"
    unfolding nodes_ok_def ids
    using assms ids(2)
    by (auto simp: distinct_card new_cluster_nodes gm_get_def map_of_map_pair new_node_the split: if_splits)
  then show ?thesis
    by (simp add: cl_inv_def)
      (simp add: new_cluster_def grants_ok_def msgs_ok_def pend_ok_def elections_ok_def leaders_ok_def)
qed

interpretation cluster_sys: invariant_system cl_init "cl_step True" cl_inv
  by unfold_locales (auto simp: cl_init_def new_cluster_inv elim!: cl_step.cases intro: cl_exec_inv)

section \<open>Properties\<close>

text \<open>Two quorums of a cluster with an odd number of nodes share a node.\<close>

lemma quorums_meet:
  assumes "quorum N G t i V" "quorum N G t i' V'" "finite N" "odd (card N)"
  obtains v where "(v, t, i) \<in> G" "(v, t, i') \<in> G"
proof -
  obtain k where k: "card N = 2 * k + 1" using assms(4) by (rule oddE)
  have sub: "V \<subseteq> N" "V' \<subseteq> N" "k + 1 \<le> card V" "k + 1 \<le> card V'"
    using assms(1,2) k by (simp_all add: quorum_def)
  have "V \<inter> V' \<noteq> {}"
  proof
    assume "V \<inter> V' = {}"
    then have "card (V \<union> V') = card V + card V'"
      using sub(1,2) assms(3) by (intro card_Un_disjoint) (auto intro: finite_subset)
    moreover have "card (V \<union> V') \<le> card N" using sub(1,2) assms(3) by (intro card_mono) auto
    ultimately show False using sub(3,4) k by simp
  qed
  then show thesis using assms(1,2) that unfolding quorum_def by blast
qed

lemma one_leader:
  assumes "cl_inv c" "odd (card (ids_of (c_nodes c)))" "(t, i) \<in> set (c_leaders c)" "(t, i') \<in> set (c_leaders c)"
  shows "i = i'"
proof -
  let ?N = "ids_of (c_nodes c)" and ?G = "set (c_grants c)"
  obtain V V' where "quorum ?N ?G t i V" "quorum ?N ?G t i' V'"
    using assms(1,3,4) unfolding cl_inv_def leaders_ok_def by blast
  then obtain v where "(v, t, i) \<in> ?G" "(v, t, i') \<in> ?G"
    by (rule quorums_meet [OF _ _ _ assms(2)]) (simp add: ids_of_def)
  then show ?thesis using assms(1) unfolding cl_inv_def grants_ok_def by blast
qed

text \<open>
  C1 (election safety): in a cluster with an odd number of nodes, whatever is lost, delayed or
  reordered and whatever \<open>AppendEntries\<close> messages arrive, at most one node wins the election of a
  term, provided answers are processed in the term of their election and a node handles one vote
  request at a time.
\<close>

theorem election_safety:
  assumes "reachable cl_init (cl_step True) c" "odd (card (ids_of (c_nodes c)))"
    "(t, i) \<in> set (c_leaders c)" "(t, i') \<in> set (c_leaders c)"
  shows "i = i'"
  using one_leader [OF cluster_sys.reachable_inv [OF assms(1)] assms(2-4)] .

lemma cl_run_reach:
  "cl_run timely c as = Some c' \<Longrightarrow> reachable init (cl_step timely) c \<Longrightarrow>
    reachable init (cl_step timely) c'"
proof (induction as arbitrary: c)
  case (Cons a as)
  then obtain c1 where "cl_exec timely c a = Some c1" "cl_run timely c1 as = Some c'"
    by (auto split: option.splits)
  then show ?case using Cons reach_step [OF Cons.prems(2) cl_action] by blast
qed simp

definition vote_round :: "int \<Rightarrow> int \<Rightarrow> cluster_action list" where
  "vote_round i j = [SendVote i j, DeliverVote 0, ReplyVote 0]"

theorem election_safety_witness:
  "\<exists>c. cl_run True (new_cluster [1, 2, 3] ()) (ElectionTimeout 1 # vote_round 1 2) = Some c \<and>
     (1, 1) \<in> set (c_leaders c) \<and> (\<forall>i'. (1, i') \<in> set (c_leaders c) \<longrightarrow> 1 = i')"
proof -
  have "map_option (\<lambda>c. (c_leaders c, gm_keys (c_nodes c)))
      (cl_run True (new_cluster [1, 2, 3] ()) (ElectionTimeout 1 # vote_round 1 2)) =
    Some ([(1, 1)], [1, 2, 3])"
    by code_simp
  then obtain c where c: "cl_run True (new_cluster [1, 2, 3] ()) (ElectionTimeout 1 # vote_round 1 2) = Some c"
    "c_leaders c = [(1, 1)]" "gm_keys (c_nodes c) = [1, 2, 3]"
    by (auto simp: map_option_eq_Some)
  have "cl_init (new_cluster [1, 2, 3] ())"
    unfolding cl_init_def by (intro exI [of _ "[1, 2, 3]"] exI [of _ "()"]) simp
  then have r: "reachable cl_init (cl_step True) c" by (intro cl_run_reach [OF c(1)] reach_init)
  have o: "odd (card (ids_of (c_nodes c)))" by (simp add: ids_of_def c(3))
  have w: "(1, 1) \<in> set (c_leaders c)" by (simp add: c(2))
  then show ?thesis using c(1) election_safety [OF r o w] by blast
qed

text \<open>
  \<open>len(peers)/2 + 1\<close> is not a majority when the number of nodes is even: in a cluster of four,
  two disjoint pairs elect two leaders of the same term, with every answer in time.
\<close>

lemma even_cluster_elects_two_leaders:
  "\<exists>c n1 n3. cl_run True (new_cluster [1, 2, 3, 4] ())
       (ElectionTimeout 1 # ElectionTimeout 3 # vote_round 1 2 @ vote_round 3 4) = Some c \<and>
     c_leaders c = [(1, 1), (1, 3)] \<and>
     gm_get (c_nodes c) 1 = Some n1 \<and> IsLeader n1 \<and> n_currentTerm n1 = 1 \<and>
     gm_get (c_nodes c) 3 = Some n3 \<and> IsLeader n3 \<and> n_currentTerm n3 = 1"
proof -
  let ?view = "\<lambda>c i. map_option (\<lambda>n. (n_state n, n_currentTerm n)) (gm_get (c_nodes c) i)"
  have "map_option (\<lambda>c. (c_leaders c, ?view c 1, ?view c 3))
      (cl_run True (new_cluster [1, 2, 3, 4] ())
        (ElectionTimeout 1 # ElectionTimeout 3 # vote_round 1 2 @ vote_round 3 4)) =
    Some ([(1, 1), (1, 3)], Some (Leader, 1), Some (Leader, 1))"
    by code_simp
  then show ?thesis by (auto simp: map_option_eq_Some IsLeader_def)
qed

definition stale_schedule :: "cluster_action list" where
  "stale_schedule =
     [ElectionTimeout 1, FailVote 1 2, FailVote 1 3, ElectionTimeout 1, FailVote 1 2, FailVote 1 3,
      ElectionTimeout 3, SendVote 3 1, DeliverVote 0,
      ElectionTimeout 2, FailVote 2 1, FailVote 2 3, ElectionTimeout 2, FailVote 2 1, FailVote 2 3,
      ElectionTimeout 2, SendVote 2 3, DeliverVote 0, ReplyVote 1,
      ReplyVote 0,
      ElectionTimeout 1, SendVote 1 3, DeliverVote 0, ReplyVote 0]"

text \<open>
  C37: without the restriction to timely answers the code elects two leaders of one term even in a
  cluster of three. Node 3 hears, too late, that node 1 is in term 2; by then it has voted for
  node 2 in term 3. \<open>becomeFollower\<close> takes it back to term 2 and forgets the vote, and it votes
  for node 1 in term 3.
\<close>

theorem stale_reply_elects_two_leaders:
  "\<exists>c. cl_run False (new_cluster [1, 2, 3] ()) stale_schedule = Some c \<and>
     c_leaders c = [(3, 2), (3, 1)] \<and> (3, 3, 2) \<in> set (c_grants c) \<and> (3, 3, 1) \<in> set (c_grants c)"
proof -
  have "map_option (\<lambda>c. (c_leaders c, (3, 3, 2) \<in> set (c_grants c), (3, 3, 1) \<in> set (c_grants c)))
      (cl_run False (new_cluster [1, 2, 3] ()) stale_schedule) = Some ([(3, 2), (3, 1)], True, True)"
    by code_simp
  then show ?thesis by (auto simp: map_option_eq_Some)
qed

section \<open>A cluster of one node\<close>

definition single_inv :: "int \<Rightarrow> 's Cluster \<Rightarrow> bool" where
  "single_inv i c \<longleftrightarrow> c_tosend c = [] \<and> c_waiting c = [] \<and>
     (\<exists>n. c_nodes c = [(i, n)] \<and> n_peers n = [] \<and> n_state n \<noteq> Leader)"

lemma gm_single:
  "gm_get [(i, n)] j = (if j = i then Some n else None)" "gm_put [(i, n)] i n' = [(i, n')]"
  by (simp_all add: gm_get_def gm_put_def)

definition quiet_step :: "'s Node \<Rightarrow> 's Node \<Rightarrow> bool" where
  "quiet_step n n' \<longleftrightarrow> n_peers n' = n_peers n \<and> (n_state n \<noteq> Leader \<longrightarrow> n_state n' \<noteq> Leader)"

lemma quiet_handlers:
  "AppendEntries n req = Some (resp, n') \<Longrightarrow> quiet_step n n'"
  "RequestVote n rq = Some (rv, n') \<Longrightarrow> quiet_step n n'"
  "Propose ps n ty dat = Some (r, n') \<Longrightarrow> quiet_step n n'"
  "electionLoop_propose n = Some n' \<Longrightarrow> quiet_step n n'"
  by (auto simp: AppendEntries_def RequestVote_def RequestVote_decide_def RequestVote_store_def
      Propose_def electionLoop_propose_def Let_def quiet_step_def becomeFollower_def IsLeader_def
      split: if_splits option.splits prod.splits list.splits)

lemma quiet_maybeCommit: "quiet_step n (maybeCommit n)"
  using maybeCommit_loop_spec [of n "LastIndex (n_log n)"]
  by (auto simp: maybeCommit_def quiet_step_def)

lemma quiet_replicate_reply: "quiet_step n (replicate_reply n p sent resp)"
proof -
  have "quiet_step n (maybeCommit (n\<lparr>n_nextIndex := a, n_matchIndex := b\<rparr>))" for a b
    using quiet_maybeCommit [of "n\<lparr>n_nextIndex := a, n_matchIndex := b\<rparr>"] by (simp add: quiet_step_def)
  moreover have "quiet_step n (n\<lparr>n_nextIndex := a\<rparr>)" for a by (simp add: quiet_step_def)
  moreover have "quiet_step n (becomeFollower n a)" for a by (simp add: quiet_step_def becomeFollower_def)
  moreover have "quiet_step n n" by (simp add: quiet_step_def)
  ultimately show ?thesis by (simp add: replicate_reply_def split: option.split)
qed

lemma single_inv_nodes:
  assumes "single_inv i c" "quiet_step n n'" "gm_get (c_nodes c) j = Some n"
  shows "single_inv i (put_node c j n')"
  using assms by (auto simp: single_inv_def gm_single quiet_step_def put_node_def split: if_splits)

lemma single_inv_on_node:
  assumes "single_inv i c" "on_node c j f = Some c'" "\<And>n n'. f n = Some n' \<Longrightarrow> quiet_step n n'"
  shows "single_inv i c'"
  using assms by (auto simp: on_node_def split: option.splits intro: single_inv_nodes)

lemma single_inv_step:
  assumes inv: "single_inv i c" and ex: "cl_exec timely c a = Some c'"
  shows "single_inv i c'"
proof (cases a)
  case (ElectionTimeout j)
  then show ?thesis
    using inv ex by (auto simp: single_inv_def exec_timeout_def startElection_begin_def Let_def
        gm_single put_node_def gm_keys_def split: option.splits if_splits)
next
  case (SendVote j k)
  then show ?thesis using inv ex by (auto simp: single_inv_def exec_send_def split: option.splits)
next
  case (DeliverVote k)
  then obtain l where "exec_deliver c l = Some c'" using ex by simp
  then obtain j n x n' r where "gm_get (c_nodes c) j = Some n" "RequestVote n r = Some (x, n')"
    and c': "c_tosend c' = c_tosend c" "c_waiting c' = c_waiting c" "c_nodes c' = c_nodes (put_node c j n')"
    by (auto simp: exec_deliver_def put_node_def split: if_splits option.splits prod.splits)
  then have "single_inv i (put_node c j n')" by (intro single_inv_nodes [OF inv quiet_handlers(2)])
  then show ?thesis using c' by (simp add: single_inv_def put_node_def)
next
  case (ReplyVote k)
  then show ?thesis using inv ex
    by (auto simp: single_inv_def exec_reply_def Let_def split: option.splits if_splits prod.splits)
next
  case (FailVote j k)
  then show ?thesis using inv ex by (auto simp: single_inv_def)
next
  case (DeliverAppend j req)
  then have "on_node c j (\<lambda>n. map_option snd (AppendEntries n req)) = Some c'" using ex by simp
  then show ?thesis by (rule single_inv_on_node [OF inv]) (auto dest: quiet_handlers)
next
  case (AppendReply j p sent resp)
  then have "on_node c j (\<lambda>n. Some (replicate_reply n p sent resp)) = Some c'" using ex by simp
  then show ?thesis by (rule single_inv_on_node [OF inv]) (auto intro: quiet_replicate_reply)
next
  case (ClientPropose j ty dat)
  then have "on_node c j (\<lambda>n. map_option snd (Propose False n ty dat)) = Some c'" using ex by simp
  then show ?thesis by (rule single_inv_on_node [OF inv]) (auto dest: quiet_handlers)
next
  case (TakeProposal j)
  then have "on_node c j electionLoop_propose = Some c'" using ex by simp
  then show ?thesis by (rule single_inv_on_node [OF inv]) (rule quiet_handlers)
qed

lemma single_inv_init: "single_inv i (new_cluster [i] machine)"
  by (simp add: single_inv_def new_cluster_def new_node_def NewNode_def gm_empty_def)

interpretation single_sys: invariant_system "\<lambda>c. \<exists>machine. c = new_cluster [i] machine"
    "cl_step timely" "single_inv i" for i timely
  by unfold_locales (auto simp: single_inv_init elim!: cl_step.cases intro: single_inv_step)

text \<open>
  C40: a node without peers never becomes leader, whatever happens to it: \<open>becomeLeader\<close> is only
  called from the goroutine of a peer that granted its vote. Its proposals are accepted into the
  queue and never reach the log.
\<close>

theorem single_node_never_leads:
  assumes "reachable (\<lambda>c. \<exists>machine. c = new_cluster [i] machine) (cl_step timely) c"
    "gm_get (c_nodes c) i = Some n"
  shows "\<not> IsLeader n"
  using single_sys.reachable_inv [OF assms(1)] assms(2)
  by (auto simp: single_inv_def gm_single IsLeader_def)

theorem single_node_never_leads_witness:
  "\<exists>c n. cl_run False (new_cluster [1] ()) [ElectionTimeout 1, ElectionTimeout 1] = Some c \<and>
     gm_get (c_nodes c) 1 = Some n \<and> n_currentTerm n = 2 \<and> \<not> IsLeader n"
proof -
  have "map_option (\<lambda>c. map_option n_currentTerm (gm_get (c_nodes c) 1))
      (cl_run False (new_cluster [1] ()) [ElectionTimeout 1, ElectionTimeout 1]) = Some (Some 2)"
    by code_simp
  then obtain c n where c: "cl_run False (new_cluster [1] ()) [ElectionTimeout 1, ElectionTimeout 1] = Some c"
    "gm_get (c_nodes c) 1 = Some n" "n_currentTerm n = 2"
    by (auto simp: map_option_eq_Some)
  have "reachable (\<lambda>c. \<exists>machine. c = new_cluster [1] machine) (cl_step False) c"
    by (intro cl_run_reach [OF c(1)] reach_init) blast
  then show ?thesis using c single_node_never_leads [OF _ c(2)] by blast
qed

end
