(* ===== verification/Raft_Replication.thy ===== *)
theory Raft_Replication
  imports Raft_Node
begin

text \<open>
  Replication in \<open>internal/raft/node.go\<close> end to end: \<open>replicateToPeer\<close> on the leader, the handler
  \<open>AppendEntries\<close> on the follower, the answer, the next heartbeat that carries the commit index,
  and \<open>applyLoop\<close> on both. First what a round does when requests arrive in order, then what
  happens when two of them are swapped.
\<close>

section \<open>What the handlers keep\<close>

lemma maybeCommit_cases:
  obtains "maybeCommit n = n" | c where "maybeCommit n = n\<lparr>n_commitIndex := c\<rparr>" "n_commitIndex n < c"
    "c \<le> LastIndex (n_log n)" "committable n c"
  using maybeCommit_loop_spec [of n "LastIndex (n_log n)"] unfolding maybeCommit_def by metis

lemma maybeCommit_keeps [simp]:
  "n_log (maybeCommit n) = n_log n" "n_currentTerm (maybeCommit n) = n_currentTerm n"
  "n_id (maybeCommit n) = n_id n" "n_nextIndex (maybeCommit n) = n_nextIndex n"
  "n_fsm (maybeCommit n) = n_fsm n" "n_lastApplied (maybeCommit n) = n_lastApplied n"
  "n_stopped (maybeCommit n) = n_stopped n" "n_state (maybeCommit n) = n_state n"
  "n_peers (maybeCommit n) = n_peers n"
  by (cases n rule: maybeCommit_cases; simp)+

lemma maybeCommit_bounds:
  "n_commitIndex n \<le> n_commitIndex (maybeCommit n)"
  "n_commitIndex n \<le> LastIndex (n_log n) \<Longrightarrow> n_commitIndex (maybeCommit n) \<le> LastIndex (n_log n)"
  by (cases n rule: maybeCommit_cases; simp)+

lemma maybeCommit_all: 
  assumes "committable n (LastIndex (n_log n))" "n_commitIndex n \<le> LastIndex (n_log n)"
  shows "n_commitIndex (maybeCommit n) = LastIndex (n_log n)"
proof (cases "n_commitIndex n = LastIndex (n_log n)")
  case True
  then show ?thesis using maybeCommit_bounds [of n] assms(2) by simp
next
  case False
  then show ?thesis using assms by (simp add: maybeCommit_def maybeCommit_loop_step)
qed

section \<open>One round of replication\<close>

text \<open>
  \<open>in_sync L F p\<close>: the leader's \<open>nextIndex\<close> for the follower is right, that is, their logs agree
  below it, and the follower has committed nothing else.
\<close>

definition in_sync :: "'s Node \<Rightarrow> 's Node \<Rightarrow> int \<Rightarrow> bool" where
  "in_sync L F p \<longleftrightarrow> log_wf (n_log L) \<and>
     1 \<le> peer_index (n_nextIndex L) p \<and> peer_index (n_nextIndex L) p \<le> LastIndex (n_log L) + 1 \<and>
     take (nat (peer_index (n_nextIndex L) p)) (rl_entries (n_log F)) =
       take (nat (peer_index (n_nextIndex L) p)) (rl_entries (n_log L)) \<and>
     n_currentTerm F \<le> n_currentTerm L \<and> n_commitIndex F < peer_index (n_nextIndex L) p \<and>
     n_commitIndex F \<le> n_commitIndex L \<and> n_commitIndex L \<le> LastIndex (n_log L)"

lemma append_round:
  assumes "in_sync L F p" "replicate_request L p = Some req"
  shows "\<exists>resp F1. AppendEntries F req = Some (resp, F1) \<and> ae_Success resp \<and> ae_Term resp \<le> n_currentTerm L \<and>
    n_log F1 = n_log L \<and> n_commitIndex F1 = n_commitIndex L \<and> n_currentTerm F1 = n_currentTerm L \<and>
    n_fsm F1 = n_fsm F \<and> n_lastApplied F1 = n_lastApplied F \<and> n_stopped F1 = n_stopped F"
proof -
  let ?i = "peer_index (n_nextIndex L) p"
  have s: "log_wf (n_log L)" "1 \<le> ?i" "?i \<le> LastIndex (n_log L) + 1"
    "take (nat ?i) (rl_entries (n_log F)) = take (nat ?i) (rl_entries (n_log L))"
    "n_currentTerm F \<le> n_currentTerm L" "n_commitIndex F \<le> n_commitIndex L"
    "n_commitIndex L \<le> LastIndex (n_log L)"
    using assms(1) by (simp_all add: in_sync_def)
  obtain es where es: "EntriesFrom (n_log L) ?i = Some es"
    "Log_AppendEntries (n_log F) (?i - 1) es = Some (True, n_log L)"
    using shipping_core [OF s(1-4)] by blast
  then have req: "aq_Term req = n_currentTerm L" "aq_PrevLogIndex req = ?i - 1" "aq_Entries req = es"
    "aq_LeaderCommit req = n_commitIndex L"
    using assms(2) by (auto simp: replicate_request_def Let_def)
  let ?F1 = "if n_currentTerm L > n_currentTerm F then becomeFollower F (n_currentTerm L) else F"
  have l: "n_log ?F1 = n_log F" "n_commitIndex ?F1 = n_commitIndex F" "n_fsm ?F1 = n_fsm F"
    "n_lastApplied ?F1 = n_lastApplied F" "n_stopped ?F1 = n_stopped F" "n_currentTerm ?F1 = n_currentTerm L"
    using s(5) by (simp_all add: becomeFollower_def)
  show ?thesis
    using s(5-7) req es(2)
    by (auto simp: AppendEntries_def Let_def becomeFollower_def)
qed

lemma in_sync_request: "in_sync L F p \<Longrightarrow> \<exists>req. replicate_request L p = Some req"
  by (cases "peer_index (n_nextIndex L) p \<ge> int (length (rl_entries (n_log L)))")
    (simp_all add: in_sync_def replicate_request_def EntriesFrom_def Let_def)

lemma reply_round:
  assumes "in_sync L F p" "replicate_request L p = Some req" "AppendEntries F req = Some (resp, F1)"
    "L1 = replicate_reply L p (length (aq_Entries req)) (Some resp)"
  shows "in_sync L1 F1 p \<and> n_log F1 = n_log L \<and> n_log L1 = n_log L \<and> n_currentTerm L1 = n_currentTerm L \<and>
    n_commitIndex L \<le> n_commitIndex L1 \<and> n_commitIndex F1 = n_commitIndex L \<and>
    n_fsm L1 = n_fsm L \<and> n_lastApplied L1 = n_lastApplied L \<and> n_stopped L1 = n_stopped L \<and>
    n_fsm F1 = n_fsm F \<and> n_lastApplied F1 = n_lastApplied F \<and> n_stopped F1 = n_stopped F"
proof -
  note s = assms(1) [unfolded in_sync_def]
  have F1: "ae_Success resp" "ae_Term resp \<le> n_currentTerm L" "n_log F1 = n_log L"
    "n_commitIndex F1 = n_commitIndex L" "n_currentTerm F1 = n_currentTerm L" "n_fsm F1 = n_fsm F"
    "n_lastApplied F1 = n_lastApplied F" "n_stopped F1 = n_stopped F"
    using append_round [OF assms(1,2)] assms(3) by auto
  show ?thesis
  proof (cases "aq_Entries req = []")
    case True
    then have "L1 = L" using F1(1,2) assms(4) by (simp add: replicate_reply_def)
    moreover have "peer_index (n_nextIndex L) p = LastIndex (n_log L) + 1"
      using True s assms(2)
      by (auto simp: replicate_request_def EntriesFrom_def LastIndex_def Let_def split: if_splits)
    ultimately show ?thesis using F1 s by (simp add: in_sync_def)
  next
    case False
    let ?N = "L\<lparr>n_nextIndex := gm_put (n_nextIndex L) p (LastIndex (n_log L) + 1),
      n_matchIndex := gm_put (n_matchIndex L) p (LastIndex (n_log L))\<rparr>"
    have L1: "L1 = maybeCommit ?N" using False F1(1,2) assms(4) by (simp add: replicate_reply_def)
    have "n_commitIndex L \<le> n_commitIndex L1" "n_commitIndex L1 \<le> LastIndex (n_log L)"
      using maybeCommit_bounds [of ?N] s by (simp_all add: L1)
    moreover have "0 \<le> LastIndex (n_log L)" using s by simp
    ultimately show ?thesis
      using F1 s by (simp add: in_sync_def L1 peer_index_def)
  qed
qed

lemma committed_by_two:
  assumes "in_sync L F p" "replicate_request L p = Some req" "ae_Success resp" "ae_Term resp \<le> n_currentTerm L"
    "commit_majority L \<le> 2" "aq_Entries req \<noteq> []"
    "le_Term (fst (Log_Entry (n_log L) (LastIndex (n_log L)))) = n_currentTerm L"
  shows "n_commitIndex (replicate_reply L p (length (aq_Entries req)) (Some resp)) = LastIndex (n_log L)"
proof -
  let ?N = "L\<lparr>n_nextIndex := gm_put (n_nextIndex L) p (LastIndex (n_log L) + 1),
      n_matchIndex := gm_put (n_matchIndex L) p (LastIndex (n_log L))\<rparr>"
  note s = assms(1) [unfolded in_sync_def]
  have "gm_get (gm_put (n_matchIndex L) p (LastIndex (n_log L))) p = Some (LastIndex (n_log L))" by simp
  then have "(p, LastIndex (n_log L)) \<in> set (gm_put (n_matchIndex L) p (LastIndex (n_log L)))"
    unfolding gm_get_def by (rule map_of_SomeD)
  then have "filter (\<lambda>(q, m). m \<ge> LastIndex (n_log L)) (gm_put (n_matchIndex L) p (LastIndex (n_log L))) \<noteq> []"
    by (auto simp: filter_empty_conv)
  then have "1 \<le> length (filter (\<lambda>(q, m). m \<ge> LastIndex (n_log L)) (gm_put (n_matchIndex L) p (LastIndex (n_log L))))"
    by (simp add: Suc_leI)
  then have "committable ?N (LastIndex (n_log ?N))"
    using assms(5,7) s by (auto simp: committable_def commit_majority_def Log_Entry_def LastIndex_def)
  moreover have "n_commitIndex ?N \<le> LastIndex (n_log ?N)" using s by simp
  ultimately have "n_commitIndex (maybeCommit ?N) = LastIndex (n_log ?N)" by (rule maybeCommit_all)
  then show ?thesis using assms(3,4,6) by (simp add: replicate_reply_def)
qed

section \<open>Applying\<close>

text \<open>The state machine of a node is its log up to \<open>lastApplied\<close>, applied to the first state.\<close>

definition fsm_built :: "(LogEntry \<Rightarrow> 's \<Rightarrow> 's) \<Rightarrow> 's \<Rightarrow> 's Node \<Rightarrow> bool" where
  "fsm_built app s0 n \<longleftrightarrow> \<not> n_stopped n \<and> 0 \<le> n_lastApplied n \<and> n_lastApplied n \<le> n_commitIndex n \<and>
     n_commitIndex n \<le> LastIndex (n_log n) \<and>
     n_fsm n = fold app (entries_between (n_log n) 0 (n_lastApplied n)) s0"

lemma entries_between_split:
  "a \<le> b \<Longrightarrow> b \<le> c \<Longrightarrow> entries_between l a c = entries_between l a b @ entries_between l b c"
  using upto_split2 [of "a + 1" b c] by (cases "a = b") (simp_all add: entries_between_def flip: map_append)

lemma entries_between_cong:
  assumes "take (nat i) (rl_entries l) = take (nat i) (rl_entries l')" "b < i" "i \<le> LastIndex l + 1"
    "i \<le> LastIndex l' + 1" "0 \<le> a"
  shows "entries_between l a b = entries_between l' a b"
proof -
  have "Log_Entry l j = Log_Entry l' j" if "j \<in> set [a + 1..b]" for j
  proof -
    have j: "0 \<le> j" "j < i" using that assms(2,5) by auto
    have "take (nat i) (rl_entries l) ! nat j = take (nat i) (rl_entries l') ! nat j" using assms(1) by simp
    then show ?thesis using j assms(3,4) by (simp add: Log_Entry_def LastIndex_def)
  qed
  then show ?thesis by (simp add: entries_between_def)
qed

lemma applyLoop_to_commit:
  assumes "fsm_built app s0 n" "n_commitIndex n \<le> int k"
  shows "n_fsm (applyLoop app k n) = fold app (entries_between (n_log n) 0 (n_commitIndex n)) s0"
proof -
  have a: "\<not> n_stopped n" "0 \<le> n_lastApplied n" "n_lastApplied n \<le> n_commitIndex n"
    "n_commitIndex n \<le> LastIndex (n_log n)"
    using assms(1) by (simp_all add: fsm_built_def)
  have "min (n_lastApplied n + int k) (n_commitIndex n) = n_commitIndex n" using a assms(2) by simp
  then have "n_fsm (applyLoop app k n) = fold app (entries_between (n_log n) (n_lastApplied n) (n_commitIndex n)) (n_fsm n)"
    using applyLoop_spec [OF a, of app k] by simp
  then show ?thesis
    using assms(1) entries_between_split [OF a(2,3), of "n_log n"] by (simp add: fsm_built_def)
qed

section \<open>Properties\<close>

text \<open>
  C23: a round of replication to a follower whose log agrees with the leader's below \<open>nextIndex\<close>:
  after the request, the answer and the next heartbeat the follower has the leader's log and its
  commit index, which has not decreased and is the end of the log if the last entry is new, of the
  current term, and two copies are a majority; and once both have applied what is committed their
  state machines are equal, built from the committed entries in order.
\<close>

theorem replication_round_agrees:
  assumes "in_sync L F p" "replicate_request L p = Some req" "AppendEntries F req = Some (resp, F1)"
    "L1 = replicate_reply L p (length (aq_Entries req)) (Some resp)"
    "replicate_request L1 p = Some hb" "AppendEntries F1 hb = Some (resp', F2)"
    "fsm_built app s0 L" "fsm_built app s0 F"
  shows "n_log F2 = n_log L \<and> n_log L1 = n_log L \<and>
    n_commitIndex F2 = n_commitIndex L1 \<and> n_commitIndex L \<le> n_commitIndex L1 \<and>
    (aq_Entries req \<noteq> [] \<longrightarrow> commit_majority L \<le> 2 \<longrightarrow>
       le_Term (fst (Log_Entry (n_log L) (LastIndex (n_log L)))) = n_currentTerm L \<longrightarrow>
       n_commitIndex L1 = LastIndex (n_log L)) \<and>
    (n_commitIndex L1 \<le> int k \<longrightarrow>
       n_fsm (applyLoop app k F2) = n_fsm (applyLoop app k L1) \<and>
       n_fsm (applyLoop app k L1) = fold app (entries_between (n_log L) 0 (n_commitIndex L1)) s0)"
proof -
  have R: "in_sync L1 F1 p" "n_log F1 = n_log L" "n_log L1 = n_log L" "n_commitIndex L \<le> n_commitIndex L1"
    "n_commitIndex F1 = n_commitIndex L" "n_fsm L1 = n_fsm L" "n_lastApplied L1 = n_lastApplied L"
    "n_stopped L1 = n_stopped L" "n_fsm F1 = n_fsm F" "n_lastApplied F1 = n_lastApplied F"
    "n_stopped F1 = n_stopped F"
    using reply_round [OF assms(1-4)] by simp_all
  have F2: "n_log F2 = n_log L" "n_commitIndex F2 = n_commitIndex L1" "n_fsm F2 = n_fsm F"
    "n_lastApplied F2 = n_lastApplied F" "n_stopped F2 = n_stopped F"
    using append_round [OF R(1) assms(5)] assms(6) R by auto
  note s = assms(1) [unfolded in_sync_def]
  have "take (nat (peer_index (n_nextIndex L) p)) (rl_entries (n_log F)) =
      take (nat (peer_index (n_nextIndex L) p)) (rl_entries (n_log L))" using s by blast
  from arg_cong [OF this, of length]
  have "min (length (rl_entries (n_log F))) (nat (peer_index (n_nextIndex L) p)) =
      min (length (rl_entries (n_log L))) (nat (peer_index (n_nextIndex L) p))" by (simp only: length_take)
  moreover have "nat (peer_index (n_nextIndex L) p) \<le> length (rl_entries (n_log L))"
    using s by (simp add: LastIndex_def nat_le_iff)
  ultimately have "nat (peer_index (n_nextIndex L) p) \<le> length (rl_entries (n_log F))" by simp
  then have len: "peer_index (n_nextIndex L) p \<le> LastIndex (n_log F) + 1" by (simp add: LastIndex_def)
  have resp: "ae_Success resp" "ae_Term resp \<le> n_currentTerm L"
    using append_round [OF assms(1,2)] assms(3) by auto
  have bound: "n_commitIndex L1 \<le> LastIndex (n_log L)" using R(1,3) by (simp add: in_sync_def)
  have built: "fsm_built app s0 L1" using assms(7) R(3,4,6-8) bound by (simp add: fsm_built_def)
  have "entries_between (n_log F) 0 (n_lastApplied F) = entries_between (n_log L) 0 (n_lastApplied F)"
    using s len assms(8) by (intro entries_between_cong [where i = "peer_index (n_nextIndex L) p"]) (auto simp: fsm_built_def)
  then have "fsm_built app s0 F2"
    using assms(8) F2 s bound R(4) by (simp add: fsm_built_def)
  then have "n_fsm (applyLoop app k F2) = fold app (entries_between (n_log L) 0 (n_commitIndex L1)) s0"
    if "n_commitIndex L1 \<le> int k"
    using applyLoop_to_commit [of app s0 F2 k] that F2(1,2) by simp
  moreover have "n_fsm (applyLoop app k L1) = fold app (entries_between (n_log L) 0 (n_commitIndex L1)) s0"
    if "n_commitIndex L1 \<le> int k"
    using applyLoop_to_commit [OF built] that R(3) by simp
  moreover have "n_commitIndex L1 = LastIndex (n_log L)"
    if "aq_Entries req \<noteq> []" "commit_majority L \<le> 2"
      "le_Term (fst (Log_Entry (n_log L) (LastIndex (n_log L)))) = n_currentTerm L"
    using committed_by_two [OF assms(1,2) resp that(2,1,3)] assms(4) by simp
  ultimately show ?thesis using F2(1,2) R(3,4) by simp
qed

definition ex_follower :: "LogEntry list Node" where
  "ex_follower = (ex_node [])\<lparr>n_id := 2, n_state := Follower, n_currentTerm := 0, n_votedFor := -1\<rparr>"

text \<open>A follower that receives requests and runs some rounds of \<open>applyLoop\<close> after each.\<close>

fun receive_all :: "(LogEntry \<Rightarrow> 's \<Rightarrow> 's) \<Rightarrow> 's Node \<Rightarrow> (AppendEntriesRequest option \<times> nat) list \<Rightarrow> 's Node option" where
  "receive_all app F [] = Some F"
| "receive_all app F ((None, k) # xs) = None"
| "receive_all app F ((Some req, k) # xs) =
     (case AppendEntries F req of None \<Rightarrow> None | Some (resp, F1) \<Rightarrow> receive_all app (applyLoop app k F1) xs)"

text \<open>
  The requests of a leader of term 1 in a cluster of three: with one entry in its log, with two,
  the heartbeat after the answer to the second, and what it sends after an answer that failed.
\<close>

definition ex_reqs :: "AppendEntriesRequest option list" where
  "ex_reqs =
     (let l1 = ex_node [ex_entry 1]; l2 = ex_node [ex_entry 1, ex_entry 2];
          l3 = replicate_reply l2 2 2 (Some \<lparr>ae_Term = 0, ae_Success = True\<rparr>);
          l4 = replicate_reply l3 2 0 (Some \<lparr>ae_Term = 1, ae_Success = False\<rparr>)
      in [replicate_request l1 2, replicate_request l2 2, replicate_request l3 2, replicate_request l4 2])"

text \<open>
  C38: \<open>AppendEntries\<close> cuts the log at \<open>PrevLogIndex\<close> whether or not the entries there conflict, and
  \<open>applyLoop\<close> counts an entry as applied before it looks whether it is there. Received in the
  order they were sent, the requests of a leader make a follower apply both entries; with the first
  one delayed, which the goroutines of \<open>replicateToPeer\<close> allow, the follower ends with the same log
  and the same commit index but never applies the second entry.
\<close>

theorem reordered_append_skips_committed_entry:
  "\<exists>F G. receive_all (\<lambda>e s. s @ [e]) ex_follower
       [(ex_reqs ! 0, 0), (ex_reqs ! 1, 0), (ex_reqs ! 2, 2), (ex_reqs ! 3, 2)] = Some F \<and>
     receive_all (\<lambda>e s. s @ [e]) ex_follower
       [(ex_reqs ! 1, 0), (ex_reqs ! 2, 0), (ex_reqs ! 0, 2), (ex_reqs ! 3, 2)] = Some G \<and>
     LastIndex (n_log F) = 2 \<and> LastIndex (n_log G) = 2 \<and> n_commitIndex F = 2 \<and> n_commitIndex G = 2 \<and>
     n_lastApplied F = 2 \<and> n_lastApplied G = 2 \<and>
     map le_Index (n_fsm F) = [1, 2] \<and> map le_Index (n_fsm G) = [1]"
proof -
  let ?view = "map_option (\<lambda>n. (LastIndex (n_log n), n_commitIndex n, n_lastApplied n, map le_Index (n_fsm n)))"
  have "?view (receive_all (\<lambda>e s. s @ [e]) ex_follower
       [(ex_reqs ! 0, 0), (ex_reqs ! 1, 0), (ex_reqs ! 2, 2), (ex_reqs ! 3, 2)]) = Some (2, 2, 2, [1, 2])"
    by code_simp
  moreover have "?view (receive_all (\<lambda>e s. s @ [e]) ex_follower
       [(ex_reqs ! 1, 0), (ex_reqs ! 2, 0), (ex_reqs ! 0, 2), (ex_reqs ! 3, 2)]) = Some (2, 2, 2, [1])"
    by code_simp
  ultimately show ?thesis by (auto simp: map_option_eq_Some)
qed

theorem replication_round_agrees_witness:
  "\<exists>req resp F1 L1 hb resp' F2.
     replicate_request (ex_node [ex_entry 1, ex_entry 2]) 2 = Some req \<and>
     AppendEntries ex_follower req = Some (resp, F1) \<and>
     L1 = replicate_reply (ex_node [ex_entry 1, ex_entry 2]) 2 (length (aq_Entries req)) (Some resp) \<and>
     replicate_request L1 2 = Some hb \<and> AppendEntries F1 hb = Some (resp', F2) \<and>
     n_commitIndex F2 = 2 \<and>
     n_fsm (applyLoop (\<lambda>e s. s @ [e]) 5 F2) = n_fsm (applyLoop (\<lambda>e s. s @ [e]) 5 L1)"
proof -
  let ?L = "ex_node [ex_entry 1, ex_entry 2]"
  have "log_wf (n_log ?L)" by (simp add: ex_node_def newRaftLog_def log_wf_def ex_entry_def)
  then have sync: "in_sync ?L ex_follower 2"
    by (simp add: in_sync_def ex_follower_def ex_node_def newRaftLog_def LastIndex_def peer_index_def gm_get_def)
  have built: "fsm_built app [] ?L" "fsm_built app [] ex_follower" for app
    by (simp_all add: fsm_built_def ex_follower_def ex_node_def newRaftLog_def LastIndex_def entries_between_def)
  have "peer_index (n_nextIndex ?L) 2 = 1" by (simp add: ex_node_def peer_index_def gm_get_def)
  then obtain req where req: "replicate_request ?L 2 = Some req" "aq_Entries req \<noteq> []"
    by (auto simp: replicate_request_def EntriesFrom_def ex_node_def newRaftLog_def Let_def)
  obtain resp F1 where F1: "AppendEntries ex_follower req = Some (resp, F1)"
    using append_round [OF sync req(1)] by blast
  define L1 where "L1 = replicate_reply ?L 2 (length (aq_Entries req)) (Some resp)"
  have s1: "in_sync L1 F1 2" using reply_round [OF sync req(1) F1 L1_def] by blast
  then obtain hb where hb: "replicate_request L1 2 = Some hb" using in_sync_request by blast
  obtain resp' F2 where F2: "AppendEntries F1 hb = Some (resp', F2)"
    using append_round [OF s1 hb] by blast
  have "commit_majority ?L \<le> 2" "LastIndex (n_log ?L) = 2"
    "le_Term (fst (Log_Entry (n_log ?L) (LastIndex (n_log ?L)))) = n_currentTerm ?L"
    by (simp_all add: commit_majority_def ex_node_def newRaftLog_def LastIndex_def Log_Entry_def ex_entry_def)
  then show ?thesis
    using replication_round_agrees [OF sync req(1) F1 L1_def hb F2 built, of 5] req F1 L1_def hb F2 by fastforce
qed

end
