(* ===== verification/Raft_Wellformed.thy ===== *)
theory Raft_Wellformed
  imports Raft_Cluster Raft_Replication
begin

text \<open>
  What keeps the handlers of a cluster from panicking: every log holds its sentinel and numbers
  its entries consecutively, and a leader's \<open>nextIndex\<close> is at least 1 for every peer. The requests
  that \<open>replicateToPeer\<close> sends name a \<open>PrevLogIndex\<close> of at least 0; \<open>sane\<close> asks the same of the
  requests the cluster receives.
\<close>

definition node_wf :: "'s Node \<Rightarrow> bool" where
  "node_wf n \<longleftrightarrow> log_wf (n_log n) \<and>
     (\<forall>p i. gm_get (n_nextIndex n) p = Some i \<longrightarrow> 1 \<le> i) \<and>
     (IsLeader n \<longrightarrow> (\<forall>p \<in> set (gm_keys (n_peers n)). gm_get (n_nextIndex n) p \<noteq> None))"

lemma set_peers_get:
  "gm_get (set_peers ps v m) p = (if p \<in> set ps then Some v else gm_get m p)"
  by (induction ps v m rule: set_peers.induct) auto

lemma LastIndex_wf: "log_wf l \<Longrightarrow> 0 \<le> LastIndex l"
  by (cases "rl_entries l") (simp_all add: log_wf_def LastIndex_def)

lemma LastTerm_wf: "log_wf l \<Longrightarrow> \<exists>t. LastTerm l = Some t"
  by (simp add: log_wf_def LastTerm_def)

lemma node_wf_becomeFollower: "node_wf n \<Longrightarrow> node_wf (becomeFollower n t)"
  by (simp add: node_wf_def becomeFollower_def IsLeader_def)

lemma node_wf_becomeLeader: "node_wf n \<Longrightarrow> node_wf (becomeLeader n)"
  using LastIndex_wf [of "n_log n"]
  by (auto simp: node_wf_def becomeLeader_def Let_def set_peers_get split: if_splits)

lemma node_wf_maybeCommit: "node_wf (maybeCommit n) = node_wf n"
  by (simp add: node_wf_def IsLeader_def)

lemma node_wf_replicate_reply: "node_wf n \<Longrightarrow> node_wf (replicate_reply n p sent resp)"
proof -
  assume wf: "node_wf n"
  have 1: "node_wf (n\<lparr>n_nextIndex := gm_put (n_nextIndex n) p i\<rparr>)" if "1 \<le> i" for i
    using wf that by (auto simp: node_wf_def IsLeader_def)
  have 2: "node_wf (n\<lparr>n_nextIndex := gm_put (n_nextIndex n) p i, n_matchIndex := m\<rparr>)" if "1 \<le> i" for i m
    using wf that by (auto simp: node_wf_def IsLeader_def)
  have "0 \<le> LastIndex (n_log n)" using wf by (intro LastIndex_wf) (simp add: node_wf_def)
  then show ?thesis
    using wf 1 2 node_wf_becomeFollower [OF wf]
    by (simp add: replicate_reply_def node_wf_maybeCommit split: option.split)
qed

lemma node_wf_handlers:
  assumes "node_wf n"
  shows "Propose ps n ty dat = Some (r, n') \<Longrightarrow> node_wf n'"
    "electionLoop_propose n = Some n' \<Longrightarrow> node_wf n'"
    "RequestVote n req = Some (rv, n') \<Longrightarrow> node_wf n'"
    "vote_reply n el resp = (n', el') \<Longrightarrow> node_wf n'"
    "startElection_begin n = (n', el') \<Longrightarrow> node_wf n'"
  using assms node_wf_becomeLeader [OF assms] node_wf_becomeFollower [OF assms]
  by (auto simp: node_wf_def Propose_def electionLoop_propose_def RequestVote_def RequestVote_decide_def
      RequestVote_store_def vote_reply_def startElection_begin_def Let_def IsLeader_def becomeFollower_def
      Log_Append_wf split: if_splits option.splits list.splits)

lemma node_wf_AppendEntries:
  assumes "node_wf n" "0 \<le> aq_PrevLogIndex req" "AppendEntries n req = Some (resp, n')"
  shows "node_wf n'"
  using assms Log_AppendEntries_wf [of "n_log n" "aq_PrevLogIndex req"]
  by (auto simp: AppendEntries_def Let_def node_wf_def IsLeader_def becomeFollower_def
      split: if_splits option.splits prod.splits)

text \<open>On well-formed nodes no handler panics.\<close>

lemma node_wf_no_panic:
  assumes "node_wf n"
  shows "RequestVote n req \<noteq> None" "vote_request n el \<noteq> None"
    "0 \<le> aq_PrevLogIndex areq \<Longrightarrow> AppendEntries n areq \<noteq> None"
    "IsLeader n \<Longrightarrow> p \<in> set (gm_keys (n_peers n)) \<Longrightarrow>
       \<exists>r. replicate_request n p = Some r \<and> 0 \<le> aq_PrevLogIndex r"
proof -
  obtain t where t: "LastTerm (n_log n) = Some t" using assms LastTerm_wf unfolding node_wf_def by blast
  show "RequestVote n req \<noteq> None" "vote_request n el \<noteq> None"
    using t by (simp_all add: RequestVote_def RequestVote_decide_def vote_request_def Let_def becomeFollower_def)
  show "AppendEntries n areq \<noteq> None" if "0 \<le> aq_PrevLogIndex areq"
    using that by (simp add: AppendEntries_def Log_AppendEntries_def Let_def becomeFollower_def)
  show "\<exists>r. replicate_request n p = Some r \<and> 0 \<le> aq_PrevLogIndex r"
    if "IsLeader n" "p \<in> set (gm_keys (n_peers n))"
  proof -
    have "gm_get (n_nextIndex n) p \<noteq> None" using assms that by (simp add: node_wf_def)
    then obtain i where i: "gm_get (n_nextIndex n) p = Some i" by blast
    then have "1 \<le> i" using assms unfolding node_wf_def by blast
    then show ?thesis using i by (simp add: replicate_request_def EntriesFrom_def peer_index_def Let_def)
  qed
qed

section \<open>All reachable clusters\<close>

definition sane :: "cluster_action \<Rightarrow> bool" where
  "sane a \<longleftrightarrow> (case a of DeliverAppend j req \<Rightarrow> 0 \<le> aq_PrevLogIndex req | _ \<Rightarrow> True)"

inductive sane_step :: "'s Cluster \<Rightarrow> 's Cluster \<Rightarrow> bool" where
  sane_action: "sane a \<Longrightarrow> cl_exec timely c a = Some c' \<Longrightarrow> sane_step c c'"

definition cluster_wf :: "'s Cluster \<Rightarrow> bool" where
  "cluster_wf c \<longleftrightarrow> (\<forall>i n. gm_get (c_nodes c) i = Some n \<longrightarrow> node_wf n)"

lemma cluster_wfD: "cluster_wf c \<Longrightarrow> gm_get (c_nodes c) i = Some n \<Longrightarrow> node_wf n"
  by (simp add: cluster_wf_def)

lemma cluster_wf_put: "cluster_wf c \<Longrightarrow> node_wf n \<Longrightarrow> c_nodes c' = gm_put (c_nodes c) i n \<Longrightarrow> cluster_wf c'"
  by (simp add: cluster_wf_def)

lemma cluster_wf_on_node:
  assumes "cluster_wf c" "on_node c i f = Some c'" "\<And>n n'. node_wf n \<Longrightarrow> f n = Some n' \<Longrightarrow> node_wf n'"
  shows "cluster_wf c'"
proof -
  obtain n n' where n: "gm_get (c_nodes c) i = Some n" "f n = Some n'" "c' = put_node c i n'"
    using assms(2) by (auto simp: on_node_def split: option.splits)
  then have "node_wf n'" using assms(3) cluster_wfD [OF assms(1)] by blast
  then show ?thesis using cluster_wf_put [OF assms(1)] n(3) by (simp add: put_node_def)
qed

lemma cluster_wf_step:
  assumes wf: "cluster_wf c" and "sane a" and ex: "cl_exec timely c a = Some c'"
  shows "cluster_wf c'"
proof (cases a)
  case (ElectionTimeout i)
  then obtain n n' el where n: "gm_get (c_nodes c) i = Some n" "startElection_begin n = (n', el)"
    "c_nodes c' = gm_put (c_nodes c) i n'"
    using ex by (auto simp: exec_timeout_def put_node_def Let_def split: option.splits if_splits prod.splits)
  then show ?thesis using cluster_wf_put [OF wf node_wf_handlers(5) [OF cluster_wfD [OF wf n(1)] n(2)]] by simp
next
  case (SendVote i j)
  then have "c_nodes c' = c_nodes c" using ex by (auto simp: exec_send_def split: option.splits if_splits)
  then show ?thesis using wf by (simp add: cluster_wf_def)
next
  case (DeliverVote k)
  then obtain j n n' req resp where n: "gm_get (c_nodes c) j = Some n" "RequestVote n req = Some (resp, n')"
    "c_nodes c' = gm_put (c_nodes c) j n'"
    using ex by (auto simp: exec_deliver_def put_node_def split: if_splits option.splits prod.splits)
  then show ?thesis using cluster_wf_put [OF wf node_wf_handlers(3) [OF cluster_wfD [OF wf n(1)] n(2)]] by simp
next
  case (ReplyVote k)
  obtain i j t resp where r: "c_replies c ! k = (i, j, t, resp)" by (metis prod.exhaust)
  obtain n el where n: "gm_get (c_nodes c) i = Some n" "gm_get (c_elections c) i = Some el"
    using ex ReplyVote r by (auto simp: exec_reply_def split: if_splits option.splits)
  obtain n' el' where v: "vote_reply n el (Some resp) = (n', el')" by fastforce
  have "c_nodes c' = c_nodes c \<or> c_nodes c' = gm_put (c_nodes c) i n'"
    using ex ReplyVote r n v by (auto simp: exec_reply_def put_node_def Let_def split: if_splits)
  then show ?thesis
  proof
    assume "c_nodes c' = c_nodes c"
    then show ?thesis using wf by (simp add: cluster_wf_def)
  next
    assume "c_nodes c' = gm_put (c_nodes c) i n'"
    then show ?thesis by (rule cluster_wf_put [OF wf node_wf_handlers(4) [OF cluster_wfD [OF wf n(1)] v]])
  qed
next
  case (FailVote i j)
  then show ?thesis using wf ex by (auto simp: cluster_wf_def)
next
  case (DeliverAppend j req)
  then have "on_node c j (\<lambda>n. map_option snd (AppendEntries n req)) = Some c'" "0 \<le> aq_PrevLogIndex req"
    using ex assms(2) by (simp_all add: sane_def)
  then show ?thesis by (intro cluster_wf_on_node [OF wf]) (auto intro: node_wf_AppendEntries)
next
  case (AppendReply i p sent resp)
  then have "on_node c i (\<lambda>n. Some (replicate_reply n p sent resp)) = Some c'" using ex by simp
  then show ?thesis by (rule cluster_wf_on_node [OF wf]) (auto intro: node_wf_replicate_reply)
next
  case (ClientPropose i ty dat)
  then have "on_node c i (\<lambda>n. map_option snd (Propose False n ty dat)) = Some c'" using ex by simp
  then show ?thesis by (rule cluster_wf_on_node [OF wf]) (auto intro: node_wf_handlers(1))
next
  case (TakeProposal i)
  then have "on_node c i electionLoop_propose = Some c'" using ex by simp
  then show ?thesis by (rule cluster_wf_on_node [OF wf]) (rule node_wf_handlers(2))
qed

lemma cluster_wf_init: "cluster_wf (new_cluster ids machine)"
proof -
  have "node_wf n" if "(i, n) \<in> set (c_nodes (new_cluster ids machine))" for i n
    using that
    by (auto simp: new_cluster_def new_node_def NewNode_def node_wf_def IsLeader_def
        split: option.splits sum.splits)
  then show ?thesis by (auto simp: cluster_wf_def gm_get_def dest: map_of_SomeD)
qed

interpretation wf_sys: invariant_system "cl_init" sane_step cluster_wf
  by unfold_locales (auto simp: cl_init_def cluster_wf_init elim!: sane_step.cases intro: cluster_wf_step)

text \<open>
  C25: in every reachable state of a cluster whose nodes receive requests with a \<open>PrevLogIndex\<close> of at
  least 0, every log has its sentinel and consecutive indices, no handler panics on any request of
  that kind, and every request a leader sends is of that kind.
\<close>

theorem raft_nodes_well_formed:
  assumes "reachable cl_init sane_step c" "gm_get (c_nodes c) i = Some n"
  shows "log_wf (n_log n) \<and> RequestVote n req \<noteq> None \<and> vote_request n el \<noteq> None \<and>
    (0 \<le> aq_PrevLogIndex areq \<longrightarrow> AppendEntries n areq \<noteq> None) \<and>
    (IsLeader n \<longrightarrow> p \<in> set (gm_keys (n_peers n)) \<longrightarrow>
       (\<exists>r. replicate_request n p = Some r \<and> 0 \<le> aq_PrevLogIndex r))"
proof -
  have wf: "node_wf n" using cluster_wfD [OF wf_sys.reachable_inv [OF assms(1)] assms(2)] .
  then have "log_wf (n_log n)" by (simp add: node_wf_def)
  then show ?thesis using node_wf_no_panic [OF wf] by blast
qed

lemma sane_run_reach:
  "cl_run timely c as = Some c' \<Longrightarrow> list_all sane as \<Longrightarrow> reachable init sane_step c \<Longrightarrow>
    reachable init sane_step c'"
proof (induction as arbitrary: c)
  case (Cons a as)
  then obtain c1 where "cl_exec timely c a = Some c1" "cl_run timely c1 as = Some c'" "sane a"
    by (auto split: option.splits)
  then show ?case using Cons.IH Cons.prems reach_step [OF Cons.prems(3) sane_action] by simp
qed simp

theorem raft_nodes_well_formed_witness:
  "\<exists>c n r. cl_run True (new_cluster [1, 2, 3] ()) (ElectionTimeout 1 # vote_round 1 2) = Some c \<and>
     gm_get (c_nodes c) 1 = Some n \<and> IsLeader n \<and> log_wf (n_log n) \<and>
     replicate_request n 2 = Some r \<and> 0 \<le> aq_PrevLogIndex r"
proof -
  let ?as = "ElectionTimeout 1 # vote_round 1 2"
  have "map_option (\<lambda>c. map_option (\<lambda>n. (n_state n, gm_keys (n_peers n))) (gm_get (c_nodes c) 1))
      (cl_run True (new_cluster [1, 2, 3] ()) ?as) = Some (Some (Leader, [2, 3]))"
    by code_simp
  then obtain c n where c: "cl_run True (new_cluster [1, 2, 3] ()) ?as = Some c"
    "gm_get (c_nodes c) 1 = Some n" "n_state n = Leader" "gm_keys (n_peers n) = [2, 3]"
    by (auto simp: map_option_eq_Some)
  have "cl_init (new_cluster [1, 2, 3] ())"
    unfolding cl_init_def by (intro exI [of _ "[1, 2, 3]"] exI [of _ "()"]) simp
  moreover have "list_all sane ?as" by (simp add: vote_round_def sane_def)
  ultimately have r: "reachable cl_init sane_step c" by (intro sane_run_reach [OF c(1)] reach_init)
  have "IsLeader n" "2 \<in> set (gm_keys (n_peers n))" using c by (simp_all add: IsLeader_def)
  then show ?thesis using raft_nodes_well_formed [OF r c(2)] c(1,2) by blast
qed

end
