(* ===== verification/Raft_Network.thy ===== *)
theory Raft_Network
  imports Raft_Cluster "HOL-Library.Sublist"
begin

text \<open>
  Replication over a network (\<open>internal/raft/node.go\<close>, \<open>heartbeatLoop\<close>, \<open>replicateToAll\<close>,
  \<open>replicateToPeer\<close>): the \<open>AppendEntries\<close> requests that reach the nodes of \<open>Raft_Cluster\<close> are now
  the ones that nodes have sent, kept on a wire that may deliver them late, more than once, in any
  order or never. A leader's tick starts one goroutine \<open>(i, p)\<close> per peer; the goroutine builds its
  request from the node's state at the time it runs.

  The flag \<open>prompt\<close> lets such a goroutine run only while the node is a leader. The code does not
  look again: \<open>leader_append_only\<close> holds with it, \<open>deposed_leader_erases_committed_entry\<close> shows
  what happens without.
\<close>

record 's Net =
  net_cluster :: "'s Cluster"
  net_spawned :: "(int \<times> int) list"
  net_wire :: "(int \<times> AppendEntriesRequest) list"

datatype net_action =
    NetCluster cluster_action
  | Heartbeat_tick int
  | SendAppend int int
  | ReceiveAppend nat

definition exec_heartbeat :: "'s Net \<Rightarrow> int \<Rightarrow> 's Net option" where
  "exec_heartbeat s i =
     (case gm_get (c_nodes (net_cluster s)) i of
        None \<Rightarrow> None
      | Some n \<Rightarrow>
          if IsLeader n
          then Some (s\<lparr>net_spawned := net_spawned s @ map (\<lambda>p. (i, p)) (gm_keys (n_peers n))\<rparr>)
          else None)"

definition exec_append_send :: "bool \<Rightarrow> 's Net \<Rightarrow> int \<Rightarrow> int \<Rightarrow> 's Net option" where
  "exec_append_send prompt s i p =
     (case gm_get (c_nodes (net_cluster s)) i of
        None \<Rightarrow> None
      | Some n \<Rightarrow>
          if (i, p) \<notin> set (net_spawned s) \<or> prompt \<and> \<not> IsLeader n then None
          else (case replicate_request n p of
              None \<Rightarrow> None
            | Some req \<Rightarrow> Some (s\<lparr>net_spawned := remove1 (i, p) (net_spawned s),
                                 net_wire := net_wire s @ [(p, req)]\<rparr>)))"

definition on_cluster :: "'s Net \<Rightarrow> 's Cluster option \<Rightarrow> 's Net option" where
  "on_cluster s r = map_option (\<lambda>c. s\<lparr>net_cluster := c\<rparr>) r"

fun net_exec :: "bool \<Rightarrow> bool \<Rightarrow> 's Net \<Rightarrow> net_action \<Rightarrow> 's Net option" where
  "net_exec timely prompt s (NetCluster a) =
     (case a of
        DeliverAppend j req \<Rightarrow> None
      | _ \<Rightarrow> on_cluster s (cl_exec timely (net_cluster s) a))"
| "net_exec timely prompt s (Heartbeat_tick i) = exec_heartbeat s i"
| "net_exec timely prompt s (SendAppend i p) = exec_append_send prompt s i p"
| "net_exec timely prompt s (ReceiveAppend k) =
     (if k < length (net_wire s)
      then (case net_wire s ! k of (j, req) \<Rightarrow>
        on_cluster s (cl_exec timely (net_cluster s) (DeliverAppend j req)))
      else None)"

fun net_run :: "bool \<Rightarrow> bool \<Rightarrow> 's Net \<Rightarrow> net_action list \<Rightarrow> 's Net option" where
  "net_run timely prompt s [] = Some s"
| "net_run timely prompt s (a # as) =
     (case net_exec timely prompt s a of None \<Rightarrow> None | Some s' \<Rightarrow> net_run timely prompt s' as)"

inductive net_step :: "bool \<Rightarrow> bool \<Rightarrow> 's Net \<Rightarrow> 's Net \<Rightarrow> bool" for timely prompt where
  net_action: "net_exec timely prompt s a = Some s' \<Longrightarrow> net_step timely prompt s s'"

definition new_net :: "int list \<Rightarrow> 's \<Rightarrow> 's Net" where
  "new_net ids m = \<lparr>net_cluster = new_cluster ids m, net_spawned = [], net_wire = []\<rparr>"

text \<open>A cluster with an odd number of nodes.\<close>

definition net_init :: "'s Net \<Rightarrow> bool" where
  "net_init s \<longleftrightarrow> (\<exists>ids m. s = new_net ids m \<and> distinct ids \<and> -1 \<notin> set ids \<and>
     length ids < 2 ^ 31 - 1 \<and> odd (length ids))"

section \<open>What a step does to a leader\<close>

definition log_entries :: "'s Node \<Rightarrow> LogEntry list" where
  "log_entries n = rl_entries (n_log n)"

text \<open>
  Terms grow, and a node that leads a term leads it until it leaves the term, with a log that only
  grows.
\<close>

definition leads :: "'s Node \<Rightarrow> 's Node \<Rightarrow> bool" where
  "leads n n' \<longleftrightarrow> n_currentTerm n \<le> n_currentTerm n' \<and>
     (IsLeader n \<and> n_currentTerm n' = n_currentTerm n \<longrightarrow>
        IsLeader n' \<and> prefix (log_entries n) (log_entries n'))"

text \<open>No handler but the last vote makes a leader.\<close>

definition steady :: "'s Node \<Rightarrow> 's Node \<Rightarrow> bool" where
  "steady n n' \<longleftrightarrow> leads n n' \<and> (IsLeader n' \<longrightarrow> IsLeader n \<and> n_currentTerm n' = n_currentTerm n)"

lemma leads_refl [simp]: "leads n n"
  by (simp add: leads_def)

lemma leads_trans: "leads a b \<Longrightarrow> leads b c \<Longrightarrow> leads a c"
  by (auto simp: leads_def)

lemma steady_refl [simp]: "steady n n"
  by (simp add: steady_def)

lemma steady_higher: "n_currentTerm n < n_currentTerm n' \<Longrightarrow> \<not> IsLeader n' \<Longrightarrow> steady n n'"
  by (simp add: steady_def leads_def)

lemma steady_same:
  "n_currentTerm n' = n_currentTerm n \<Longrightarrow> n_state n' = n_state n \<Longrightarrow> prefix (log_entries n) (log_entries n') \<Longrightarrow>
     steady n n'"
  by (simp add: steady_def leads_def IsLeader_def)

lemma steady_becomeFollower: "n_currentTerm n < t \<Longrightarrow> steady n (becomeFollower n t)"
  by (rule steady_higher) (simp_all add: becomeFollower_def IsLeader_def)

lemma steady_RequestVote:
  assumes "RequestVote n req = Some (resp, n')"
  shows "steady n n'"
proof (cases "n_currentTerm n < rq_Term req")
  case True
  with assms have "n_currentTerm n' = rq_Term req" "\<not> IsLeader n'"
    by (auto simp: RequestVote_def RequestVote_decide_def RequestVote_store_def Let_def becomeFollower_def
        IsLeader_def split: option.splits if_splits)
  with True show ?thesis by (intro steady_higher) simp_all
next
  case False
  with assms have "n_currentTerm n' = n_currentTerm n" "n_state n' = n_state n" "n_log n' = n_log n"
    by (auto simp: RequestVote_def RequestVote_decide_def RequestVote_store_def Let_def
        split: option.splits if_splits)
  then show ?thesis by (intro steady_same) (simp_all add: log_entries_def)
qed

lemma steady_AppendEntries:
  assumes "AppendEntries n req = Some (resp, n')" "IsLeader n \<longrightarrow> aq_Term req \<noteq> n_currentTerm n"
  shows "steady n n'"
proof (cases "n_currentTerm n < aq_Term req")
  case True
  with assms(1) have "n_currentTerm n' = aq_Term req" "\<not> IsLeader n'"
    by (auto simp: AppendEntries_def Let_def becomeFollower_def IsLeader_def
        split: option.splits if_splits prod.splits)
  with True show ?thesis by (intro steady_higher) simp_all
next
  case False
  with assms(1) have s: "n_currentTerm n' = n_currentTerm n" "n_state n' = n_state n"
    by (auto simp: AppendEntries_def Let_def split: option.splits if_splits prod.splits)
  moreover have "n' = n" if "aq_Term req < n_currentTerm n" using assms(1) that by (simp add: AppendEntries_def Let_def)
  ultimately show ?thesis using assms(2) False by (cases "IsLeader n") (auto simp: steady_def leads_def IsLeader_def)
qed

lemma steady_maybeCommit: "steady n (maybeCommit n)"
proof -
  have "maybeCommit n = n \<or> (\<exists>c. maybeCommit n = n\<lparr>n_commitIndex := c\<rparr>)"
    using maybeCommit_loop_spec [of n "LastIndex (n_log n)"] unfolding maybeCommit_def by blast
  then show ?thesis by (elim disjE exE) (simp_all add: steady_same log_entries_def)
qed

lemma steady_indexes: "steady (n\<lparr>n_nextIndex := a, n_matchIndex := b\<rparr>) n' = steady n n'"
  by (simp add: steady_def leads_def log_entries_def IsLeader_def)

lemma steady_replicate_reply: "steady n (replicate_reply n p sent resp)"
proof -
  have "steady n (maybeCommit (n\<lparr>n_nextIndex := a, n_matchIndex := b\<rparr>))" for a b
    using steady_maybeCommit unfolding steady_indexes [where n = n and a = a and b = b, symmetric] by blast
  moreover have "steady n (n\<lparr>n_nextIndex := a\<rparr>)" for a by (intro steady_same) (simp_all add: log_entries_def)
  ultimately show ?thesis by (simp add: replicate_reply_def steady_becomeFollower split: option.split)
qed

lemma steady_Propose: "Propose ps n ty dat = Some (r, n') \<Longrightarrow> steady n n'"
  by (intro steady_same) (auto simp: Propose_def Let_def log_entries_def split: if_splits)

lemma steady_electionLoop_propose: "electionLoop_propose n = Some n' \<Longrightarrow> steady n n'"
  by (intro steady_same)
    (auto simp: electionLoop_propose_def Let_def log_entries_def Log_Append_def split: list.splits)

lemma vote_reply_leads:
  assumes "vote_reply n el (Some r) = (n', el')" "n_currentTerm n = el_term el"
  shows "steady n n' \<or> leads n n' \<and> n_currentTerm n' = el_term el \<and> el_won el' \<and> \<not> el_won el"
proof -
  have "leads n (becomeLeader n)" by (simp add: leads_def becomeLeader_def Let_def IsLeader_def log_entries_def)
  moreover have "n_currentTerm (becomeLeader n) = el_term el" using assms(2) by (simp add: becomeLeader_def Let_def)
  ultimately show ?thesis
    using assms by (auto simp: vote_reply_def Let_def steady_becomeFollower split: if_splits)
qed

section \<open>What a step does to the cluster\<close>

text \<open>Every node moves on as a leader must, and new leaders are the ones recorded.\<close>

definition advance :: "'s Cluster \<Rightarrow> 's Cluster \<Rightarrow> bool" where
  "advance c c' \<longleftrightarrow> set (c_leaders c) \<subseteq> set (c_leaders c') \<and> ids_of (c_nodes c') = ids_of (c_nodes c) \<and>
     (\<forall>i n n'. gm_get (c_nodes c) i = Some n \<longrightarrow> gm_get (c_nodes c') i = Some n' \<longrightarrow>
        steady n n' \<or> leads n n' \<and> (n_currentTerm n', i) \<in> set (c_leaders c'))"

lemma advance_keep: "c_nodes c' = c_nodes c \<Longrightarrow> c_leaders c' = c_leaders c \<Longrightarrow> advance c c'"
  by (simp add: advance_def)

lemma advance_put:
  assumes "gm_get (c_nodes c) i = Some n" "c_nodes c' = gm_put (c_nodes c) i n'"
    "set (c_leaders c) \<subseteq> set (c_leaders c')"
    "steady n n' \<or> leads n n' \<and> (n_currentTerm n', i) \<in> set (c_leaders c')"
  shows "advance c c'"
  using assms by (auto simp: advance_def ids_of_put)

lemma advance_steady:
  "gm_get (c_nodes c) i = Some n \<Longrightarrow> c_nodes c' = gm_put (c_nodes c) i n' \<Longrightarrow> c_leaders c' = c_leaders c \<Longrightarrow>
     steady n n' \<Longrightarrow> advance c c'"
  by (rule advance_put) auto

lemma advance_on_node:
  assumes "on_node c i f = Some c'" "\<And>n n'. gm_get (c_nodes c) i = Some n \<Longrightarrow> f n = Some n' \<Longrightarrow> steady n n'"
  shows "advance c c'"
proof -
  obtain n n' where n: "gm_get (c_nodes c) i = Some n" "f n = Some n'" "c' = put_node c i n'"
    using assms(1) by (auto simp: on_node_def split: option.splits)
  from n(1,2) have "steady n n'" by (rule assms(2))
  with n(1,3) show ?thesis by (intro advance_steady) (simp_all add: put_node_def)
qed

lemma advance_timeout: "exec_timeout c i = Some c' \<Longrightarrow> advance c c'"
proof -
  assume "exec_timeout c i = Some c'"
  then obtain n n' el where n: "gm_get (c_nodes c) i = Some n" "in_i64 (n_currentTerm n + 1)"
    "startElection_begin n = (n', el)" "c_nodes c' = gm_put (c_nodes c) i n'" "c_leaders c' = c_leaders c"
    by (auto simp: exec_timeout_def Let_def put_node_def split: option.splits if_splits prod.splits)
  have "steady n n'" by (rule steady_higher) (use n(2,3) in \<open>auto simp: startElection_begin_def Let_def IsLeader_def\<close>)
  with n(1,4,5) show ?thesis by (rule advance_steady)
qed

lemma advance_deliver: "exec_deliver c k = Some c' \<Longrightarrow> advance c c'"
proof -
  assume "exec_deliver c k = Some c'"
  then obtain j n req resp n' where n: "gm_get (c_nodes c) j = Some n" "RequestVote n req = Some (resp, n')"
    "c_nodes c' = gm_put (c_nodes c) j n'" "c_leaders c' = c_leaders c"
    by (auto simp: exec_deliver_def put_node_def split: option.splits if_splits prod.splits)
  from advance_steady [OF n(1,3,4) steady_RequestVote [OF n(2)]] show ?thesis .
qed

lemma advance_reply: "exec_reply True c k = Some c' \<Longrightarrow> advance c c'"
proof -
  assume ex: "exec_reply True c k = Some c'"
  then obtain i j t resp n el where kn: "c_replies c ! k = (i, j, t, resp)" "gm_get (c_nodes c) i = Some n"
    "gm_get (c_elections c) i = Some el"
    by (auto simp: exec_reply_def split: option.splits if_splits prod.splits)
  show ?thesis
  proof (cases "(i, j) \<notin> set (c_waiting c) \<or> el_term el \<noteq> t")
    case True
    then show ?thesis using ex kn
      by (intro advance_keep) (auto simp: exec_reply_def Let_def split: if_splits)
  next
    case False
    obtain n' el' where v: "vote_reply n el (Some resp) = (n', el')" by fastforce
    have c': "c_nodes c' = gm_put (c_nodes c) i n'" "n_currentTerm n = el_term el"
      "c_leaders c' = (if el_won el' \<and> \<not> el_won el then c_leaders c @ [(el_term el, i)] else c_leaders c)"
      using ex kn False by (auto simp: exec_reply_def Let_def v put_node_def split: if_splits)
    from vote_reply_leads [OF v c'(2)] show ?thesis
      by (intro advance_put [OF kn(2) c'(1)]) (auto simp: c'(3))
  qed
qed

lemma cl_exec_advance:
  assumes "cl_exec True c a = Some c'"
    "\<And>j req n. a = DeliverAppend j req \<Longrightarrow> gm_get (c_nodes c) j = Some n \<Longrightarrow> IsLeader n \<Longrightarrow>
       aq_Term req \<noteq> n_currentTerm n"
  shows "advance c c'"
proof (cases a)
  case (ElectionTimeout i)
  then show ?thesis using assms(1) advance_timeout by simp
next
  case (SendVote i j)
  then show ?thesis using assms(1)
    by (intro advance_keep) (auto simp: exec_send_def split: option.splits if_splits)
next
  case (DeliverVote k)
  then show ?thesis using assms(1) advance_deliver by simp
next
  case (ReplyVote k)
  then show ?thesis using assms(1) advance_reply by simp
next
  case (FailVote i j)
  then show ?thesis using assms(1) by (intro advance_keep) auto
next
  case (DeliverAppend j req)
  then have "on_node c j (\<lambda>n. map_option snd (AppendEntries n req)) = Some c'" using assms(1) by simp
  then show ?thesis
    by (rule advance_on_node) (use assms(2) [OF DeliverAppend] in \<open>auto intro: steady_AppendEntries\<close>)
next
  case (AppendReply i p sent resp)
  then have "on_node c i (\<lambda>n. Some (replicate_reply n p sent resp)) = Some c'" using assms(1) by simp
  then show ?thesis by (rule advance_on_node) (auto intro: steady_replicate_reply)
next
  case (ClientPropose i ty dat)
  then have "on_node c i (\<lambda>n. map_option snd (Propose False n ty dat)) = Some c'" using assms(1) by simp
  then show ?thesis by (rule advance_on_node) (auto intro: steady_Propose)
next
  case (TakeProposal i)
  then have "on_node c i electionLoop_propose = Some c'" using assms(1) by simp
  then show ?thesis by (rule advance_on_node) (rule steady_electionLoop_propose)
qed

section \<open>The invariant of the network\<close>

definition net_inv :: "'s Net \<Rightarrow> bool" where
  "net_inv s \<longleftrightarrow> cl_inv (net_cluster s) \<and> odd (card (ids_of (c_nodes (net_cluster s)))) \<and>
     (\<forall>i n. gm_get (c_nodes (net_cluster s)) i = Some n \<longrightarrow> IsLeader n \<longrightarrow>
        (n_currentTerm n, i) \<in> set (c_leaders (net_cluster s))) \<and>
     (\<forall>(i, p) \<in> set (net_spawned s). p \<noteq> i) \<and>
     (\<forall>(j, req) \<in> set (net_wire s). \<exists>i. i \<noteq> j \<and> (aq_Term req, i) \<in> set (c_leaders (net_cluster s)))"

text \<open>A request on the wire never finds a leader of its own term at the other end.\<close>

lemma wire_spares_leader:
  assumes "net_inv s" "(j, req) \<in> set (net_wire s)" "gm_get (c_nodes (net_cluster s)) j = Some n" "IsLeader n"
  shows "aq_Term req \<noteq> n_currentTerm n"
proof
  assume eq: "aq_Term req = n_currentTerm n"
  obtain i where "i \<noteq> j" "(aq_Term req, i) \<in> set (c_leaders (net_cluster s))"
    using assms(1,2) unfolding net_inv_def by blast
  moreover have "(n_currentTerm n, j) \<in> set (c_leaders (net_cluster s))"
    using assms(1,3,4) unfolding net_inv_def by blast
  ultimately show False using one_leader [of "net_cluster s"] assms(1) eq unfolding net_inv_def by metis
qed

lemma net_inv_cluster:
  assumes inv: "net_inv s" and ex: "cl_exec True (net_cluster s) a = Some c'" and adv: "advance (net_cluster s) c'"
  shows "net_inv (s\<lparr>net_cluster := c'\<rparr>)"
proof -
  have cl: "cl_inv c'" using cl_exec_inv [OF _ ex] inv unfolding net_inv_def by blast
  have sub: "set (c_leaders (net_cluster s)) \<subseteq> set (c_leaders c')" and ids: "ids_of (c_nodes c') = ids_of (c_nodes (net_cluster s))"
    using adv unfolding advance_def by blast+
  have ldr: "(n_currentTerm n', i) \<in> set (c_leaders c')" if n': "gm_get (c_nodes c') i = Some n'" "IsLeader n'" for i n'
  proof -
    have "i \<in> ids_of (c_nodes (net_cluster s))" unfolding ids [symmetric] using n'(1) by (simp add: ids_of_def gm.set_keys)
    then obtain n where n: "gm_get (c_nodes (net_cluster s)) i = Some n" by (auto simp: ids_of_def gm.set_keys)
    with adv n'(1) have "steady n n' \<or> (n_currentTerm n', i) \<in> set (c_leaders c')"
      unfolding advance_def by blast
    moreover have "(n_currentTerm n, i) \<in> set (c_leaders (net_cluster s))" if "IsLeader n"
      using inv n that unfolding net_inv_def by blast
    ultimately show ?thesis using n'(2) sub unfolding steady_def by (metis subsetD)
  qed
  have "\<forall>(j, req) \<in> set (net_wire s). \<exists>i. i \<noteq> j \<and> (aq_Term req, i) \<in> set (c_leaders c')"
    using inv sub unfolding net_inv_def by fast
  then show ?thesis using inv cl ldr ids by (simp add: net_inv_def)
qed

lemma net_advance:
  assumes inv: "net_inv s" and ex: "net_exec True prompt s a = Some s'"
  shows "advance (net_cluster s) (net_cluster s')"
proof (cases a)
  case (NetCluster b)
  then obtain c' where c': "cl_exec True (net_cluster s) b = Some c'" "s' = s\<lparr>net_cluster := c'\<rparr>"
    "\<And>j req. b \<noteq> DeliverAppend j req"
    using ex by (cases b) (auto simp: on_cluster_def)
  then show ?thesis using cl_exec_advance [OF c'(1)] by auto
next
  case (ReceiveAppend k)
  then obtain j req where w: "k < length (net_wire s)" "net_wire s ! k = (j, req)"
    using ex by (cases "net_wire s ! k") (auto split: if_splits)
  then obtain c' where c': "cl_exec True (net_cluster s) (DeliverAppend j req) = Some c'" "s' = s\<lparr>net_cluster := c'\<rparr>"
    using ex ReceiveAppend by (auto simp: on_cluster_def simp del: cl_exec.simps)
  have "(j, req) \<in> set (net_wire s)" using w nth_mem by fastforce
  then have "advance (net_cluster s) c'"
    using wire_spares_leader [OF inv] by (intro cl_exec_advance [OF c'(1)]) blast
  then show ?thesis by (simp add: c'(2))
next
  case (Heartbeat_tick i)
  then show ?thesis using ex by (intro advance_keep) (auto simp: exec_heartbeat_def split: option.splits if_splits)
next
  case (SendAppend i p)
  then show ?thesis using ex by (intro advance_keep) (auto simp: exec_append_send_def split: option.splits if_splits)
qed

lemma net_step_inv:
  assumes inv: "net_inv s" and ex: "net_exec True True s a = Some s'"
  shows "net_inv s'"
proof (cases a)
  case (NetCluster b)
  then obtain c' where c': "cl_exec True (net_cluster s) b = Some c'" "s' = s\<lparr>net_cluster := c'\<rparr>"
    using ex by (cases b) (auto simp: on_cluster_def)
  then show ?thesis using net_inv_cluster [OF inv c'(1)] net_advance [OF inv ex] by simp
next
  case (ReceiveAppend k)
  then obtain j req c' where c': "cl_exec True (net_cluster s) (DeliverAppend j req) = Some c'" "s' = s\<lparr>net_cluster := c'\<rparr>"
    using ex by (auto simp: on_cluster_def simp del: cl_exec.simps split: if_splits prod.splits)
  then show ?thesis using net_inv_cluster [OF inv c'(1)] net_advance [OF inv ex] by simp
next
  case (Heartbeat_tick i)
  then obtain n where n: "gm_get (c_nodes (net_cluster s)) i = Some n"
    "s' = s\<lparr>net_spawned := net_spawned s @ map (\<lambda>p. (i, p)) (gm_keys (n_peers n))\<rparr>"
    using ex by (auto simp: exec_heartbeat_def split: option.splits if_splits)
  have "nodes_ok (c_nodes (net_cluster s))" using inv unfolding net_inv_def cl_inv_def by blast
  then have "i \<notin> set (gm_keys (n_peers n))" using nodes_okD n(1) by (auto simp: nodes_ok_def)
  then show ?thesis using inv n(2) by (auto simp: net_inv_def)
next
  case (SendAppend i p)
  then obtain n req where n: "gm_get (c_nodes (net_cluster s)) i = Some n" "(i, p) \<in> set (net_spawned s)" "IsLeader n"
    "replicate_request n p = Some req"
    "s' = s\<lparr>net_spawned := remove1 (i, p) (net_spawned s), net_wire := net_wire s @ [(p, req)]\<rparr>"
    using ex by (auto simp: exec_append_send_def split: option.splits if_splits)
  have "aq_Term req = n_currentTerm n" using n(4) by (auto simp: replicate_request_def Let_def split: option.splits)
  moreover have "(n_currentTerm n, i) \<in> set (c_leaders (net_cluster s))" "p \<noteq> i"
    using inv n(1-3) unfolding net_inv_def by blast+
  ultimately have "\<exists>i. i \<noteq> p \<and> (aq_Term req, i) \<in> set (c_leaders (net_cluster s))" by metis
  moreover have "set (remove1 (i, p) (net_spawned s)) \<subseteq> set (net_spawned s)" by (rule set_remove1_subset)
  ultimately show ?thesis using inv n(5) unfolding net_inv_def by auto
qed

lemma net_init_inv: "net_init s \<Longrightarrow> net_inv s"
proof -
  assume "net_init s"
  then obtain ids m where s: "s = new_net ids m" "distinct ids" "-1 \<notin> set ids" "length ids < 2 ^ 31 - 1" "odd (length ids)"
    unfolding net_init_def by blast
  have "cl_inv (new_cluster ids m)" using s(2-4) by (rule new_cluster_inv)
  moreover have "ids_of (c_nodes (new_cluster ids m)) = set ids"
    using new_cluster_nodes [of ids m] s(2) by (simp add: ids_of_def gm_keys_def o_def)
  moreover have "\<not> IsLeader n" if "gm_get (c_nodes (new_cluster ids m)) i = Some n" for i n
  proof -
    have "n = the (new_node ids i m)"
      using that new_cluster_nodes [OF s(2), of m] by (auto simp: gm_get_def map_of_map_pair split: if_splits)
    moreover obtain n' where "new_node ids i m = Some n'" using new_node_exists [OF s(2), of i m] by blast
    ultimately show ?thesis
      by (auto simp: new_node_def NewNode_def IsLeader_def split: sum.splits option.splits)
  qed
  moreover have "c_leaders (new_cluster ids m) = []" by (simp add: new_cluster_def)
  ultimately show ?thesis using s(1,5) distinct_card [OF s(2)] unfolding net_inv_def new_net_def by auto
qed

interpretation net_sys: invariant_system net_init "net_step True True" net_inv
  by unfold_locales (auto simp: net_init_inv elim!: net_step.cases intro: net_step_inv)

text \<open>The observation of one node: it is there, and moves on as a leader must.\<close>

definition node_of :: "int \<Rightarrow> 's Net \<Rightarrow> 's Node option" where
  "node_of i s = gm_get (c_nodes (net_cluster s)) i"

fun leads_opt :: "'s Node option \<Rightarrow> 's Node option \<Rightarrow> bool" where
  "leads_opt (Some n) (Some n') = leads n n'"
| "leads_opt None None = True"
| "leads_opt _ _ = False"

lemma leads_opt_trans: "leads_opt a b \<Longrightarrow> leads_opt b c \<Longrightarrow> leads_opt a c"
  by (cases a; cases b; cases c) (auto intro: leads_trans)

interpretation net_leads: monotone_system "\<lambda>s s'. net_inv s \<and> net_step True True s s'" "node_of i" leads_opt for i
proof unfold_locales
  show "leads_opt x x" for x :: "'a Node option" by (cases x) simp_all
next
  fix s s' :: "'a Net" assume st: "net_inv s \<and> net_step True True s s'"
  then obtain a where "net_exec True True s a = Some s'" by (auto elim: net_step.cases)
  with st have adv: "advance (net_cluster s) (net_cluster s')" using net_advance by blast
  then have "i \<in> ids_of (c_nodes (net_cluster s')) \<longleftrightarrow> i \<in> ids_of (c_nodes (net_cluster s))"
    unfolding advance_def by blast
  then have ex: "node_of i s' = None \<longleftrightarrow> node_of i s = None"
    by (auto simp: ids_of_def gm.set_keys node_of_def)
  show "leads_opt (node_of i s) (node_of i s')"
  proof (cases "node_of i s")
    case None
    then show ?thesis using ex by simp
  next
    case (Some n)
    then obtain n' where n': "node_of i s' = Some n'" using ex by (cases "node_of i s'") auto
    then have "leads n n'" using adv Some unfolding advance_def node_of_def steady_def by blast
    then show ?thesis by (simp add: Some n')
  qed
qed (rule leads_opt_trans)

lemma net_steps_restricted:
  "(net_step True True)\<^sup>*\<^sup>* s s' \<Longrightarrow> net_inv s \<Longrightarrow> (\<lambda>s s'. net_inv s \<and> net_step True True s s')\<^sup>*\<^sup>* s s'"
proof (induction rule: rtranclp.induct)
  case (rtrancl_into_rtrancl a b c)
  have "net_inv b" by (rule net_sys.steps_inv [OF rtrancl_into_rtrancl.hyps(1) rtrancl_into_rtrancl.prems])
  with rtrancl_into_rtrancl.hyps(2) have "net_inv b \<and> net_step True True b c" by blast
  with rtrancl_into_rtrancl.IH [OF rtrancl_into_rtrancl.prems] show ?case by (rule rtranclp.rtrancl_into_rtrancl)
qed simp

section \<open>Properties\<close>

text \<open>
  C24: leader append-only. Requests and answers are delayed, repeated, reordered and lost without
  limits, with three restrictions: the number of nodes is odd, an answer to a vote request is
  processed only while its candidate is still in the term it asked for (\<open>timely\<close>), and a goroutine
  of \<open>replicateToAll\<close> builds its request only while its node leads (\<open>prompt\<close>). Then a node that leads
  a term still leads it as long as it is in the term, and has only appended to its log.
\<close>

theorem leader_append_only:
  assumes "reachable net_init (net_step True True) s" "(net_step True True)\<^sup>*\<^sup>* s s'"
    "node_of i s = Some n" "IsLeader n" "node_of i s' = Some n'" "n_currentTerm n' = n_currentTerm n"
  shows "IsLeader n' \<and> prefix (log_entries n) (log_entries n')"
proof -
  have "net_inv s" by (rule net_sys.reachable_inv [OF assms(1)])
  from net_leads.steps_mono [OF net_steps_restricted [OF assms(2) this], of i]
  have "leads n n'" by (simp add: assms(3,5))
  then show ?thesis using assms(4,6) by (simp add: leads_def)
qed

text \<open>Node \<open>i\<close> is elected with the vote of node \<open>j\<close>.\<close>

definition ex_elect :: "int \<Rightarrow> int \<Rightarrow> net_action list" where
  "ex_elect i j = map NetCluster [ElectionTimeout i, SendVote i j, DeliverVote 0, ReplyVote 0]"

definition ex_propose :: "int \<Rightarrow> net_action list" where
  "ex_propose i = [NetCluster (ClientPropose i EntryNoop []), NetCluster (TakeProposal i)]"

text \<open>
  Node 1 is elected and starts its goroutines, node 2 is elected with the vote of node 1, appends an
  entry, stores it on node 3 and commits it.
\<close>

definition ex_deposed :: "net_action list" where
  "ex_deposed = ex_elect 1 2 @ [Heartbeat_tick 1] @ ex_elect 2 1 @ ex_propose 2 @
     [Heartbeat_tick 2, SendAppend 2 3, ReceiveAppend 0,
      NetCluster (AppendReply 2 3 1 (Some \<lparr>ae_Term = 0, ae_Success = True\<rparr>))]"

definition net_view :: "int \<Rightarrow> 's Net \<Rightarrow> (bool \<times> int \<times> int \<times> int list) option" where
  "net_view i s =
     map_option (\<lambda>n. (IsLeader n, n_currentTerm n, n_commitIndex n, map le_Term (log_entries n))) (node_of i s)"

lemma net_viewD:
  "net_view i s = Some (b, t, c, ts) \<Longrightarrow> \<exists>n. node_of i s = Some n \<and> IsLeader n = b \<and> n_currentTerm n = t \<and>
     n_commitIndex n = c \<and> map le_Term (log_entries n) = ts"
  by (auto simp: net_view_def)

lemma net_run_steps: "net_run timely prompt s as = Some s' \<Longrightarrow> (net_step timely prompt)\<^sup>*\<^sup>* s s'"
proof (induction as arbitrary: s)
  case (Cons a as)
  then obtain s1 where "net_exec timely prompt s a = Some s1" "net_run timely prompt s1 as = Some s'"
    by (auto split: option.splits)
  then show ?case using Cons.IH by (meson converse_rtranclp_into_rtranclp net_action)
qed simp

lemma ex_net_init: "net_init (new_net [1, 2, 3] ())"
  unfolding net_init_def by (intro exI [of _ "[1, 2, 3]"] exI [of _ "()"]) simp

lemma ex_net_reachable:
  "net_run timely prompt (new_net [1, 2, 3] ()) as = Some s \<Longrightarrow> reachable net_init (net_step timely prompt) s"
  by (rule reachable_steps [OF _ net_run_steps]) (auto intro: reach_init ex_net_init)

lemma net_run_append:
  "net_run timely prompt s (as @ bs) =
     (case net_run timely prompt s as of None \<Rightarrow> None | Some s' \<Rightarrow> net_run timely prompt s' bs)"
  by (induction as arbitrary: s) (auto split: option.split)

theorem leader_append_only_witness:
  "\<exists>s s' (n :: unit Node) n'. reachable net_init (net_step True True) s \<and> (net_step True True)\<^sup>*\<^sup>* s s' \<and>
     node_of 1 s = Some n \<and> node_of 1 s' = Some n' \<and> map le_Term (log_entries n) = [0] \<and>
     map le_Term (log_entries n') = [0, 1] \<and> IsLeader n' \<and> prefix (log_entries n) (log_entries n')"
proof -
  have v: "map_option (net_view 1) (net_run True True (new_net [1, 2, 3] ()) (ex_elect 1 2)) = Some (Some (True, 1, 0, [0]))"
    "map_option (net_view 1) (net_run True True (new_net [1, 2, 3] ()) (ex_elect 1 2 @ ex_propose 1)) =
       Some (Some (True, 1, 0, [0, 1]))"
    by code_simp+
  then obtain s where s: "net_run True True (new_net [1, 2, 3] ()) (ex_elect 1 2) = Some s" "net_view 1 s = Some (True, 1, 0, [0])"
    by auto
  with v(2) obtain s' where s': "net_run True True s (ex_propose 1) = Some s'" "net_view 1 s' = Some (True, 1, 0, [0, 1])"
    by (auto simp: net_run_append)
  obtain n where n: "node_of 1 s = Some n" "IsLeader n" "n_currentTerm n = 1" "map le_Term (log_entries n) = [0]"
    using net_viewD [OF s(2)] by auto
  obtain n' where n': "node_of 1 s' = Some n'" "n_currentTerm n' = 1" "map le_Term (log_entries n') = [0, 1]"
    using net_viewD [OF s'(2)] by auto
  have r: "reachable net_init (net_step True True) s" by (rule ex_net_reachable [OF s(1)])
  have st: "(net_step True True)\<^sup>*\<^sup>* s s'" by (rule net_run_steps [OF s'(1)])
  have "n_currentTerm n' = n_currentTerm n" using n(3) n'(2) by simp
  from leader_append_only [OF r st n(1,2) n'(1) this] show ?thesis using r st n n' by metis
qed

text \<open>
  C39: without that restriction a leader can lose a committed entry. Node 1 has lost its office to
  node 2 when one of the goroutines it started as a leader runs; the request it builds carries the
  new term, node 2 takes it for a request of its leader and cuts its log.
\<close>

theorem deposed_leader_erases_committed_entry:
  "\<exists>s s' (n :: unit Node) n'. reachable net_init (net_step True False) s \<and> (net_step True False)\<^sup>*\<^sup>* s s' \<and>
     node_of 2 s = Some n \<and> IsLeader n \<and> n_currentTerm n = 2 \<and> n_commitIndex n = 1 \<and>
     map le_Term (log_entries n) = [0, 2] \<and>
     node_of 2 s' = Some n' \<and> IsLeader n' \<and> n_currentTerm n' = 2 \<and> n_commitIndex n' = 1 \<and>
     map le_Term (log_entries n') = [0]"
proof -
  let ?late = "[SendAppend 1 2, ReceiveAppend 1]"
  have v: "map_option (net_view 2) (net_run True False (new_net [1, 2, 3] ()) ex_deposed) = Some (Some (True, 2, 1, [0, 2]))"
    "map_option (net_view 2) (net_run True False (new_net [1, 2, 3] ()) (ex_deposed @ ?late)) =
       Some (Some (True, 2, 1, [0]))"
    by code_simp+
  then obtain s where s: "net_run True False (new_net [1, 2, 3] ()) ex_deposed = Some s" "net_view 2 s = Some (True, 2, 1, [0, 2])"
    by auto
  with v(2) obtain s' where s': "net_run True False s ?late = Some s'" "net_view 2 s' = Some (True, 2, 1, [0])"
    by (auto simp: net_run_append simp del: net_run.simps)
  have r: "reachable net_init (net_step True False) s" by (rule ex_net_reachable [OF s(1)])
  have st: "(net_step True False)\<^sup>*\<^sup>* s s'" by (rule net_run_steps [OF s'(1)])
  show ?thesis using r st net_viewD [OF s(2)] net_viewD [OF s'(2)] by metis
qed

end
