(* ===== verification/Spec2Isabelle.thy ===== *)
theory Spec2Isabelle
  imports Group_Delivery Partition_Races Raft_Wellformed Raft_Network
begin

text \<open>
  A verification development for KafkaFlow, a message broker in Go: the packages \<open>broker\<close>,
  \<open>consumer\<close>, \<open>raft\<close>, \<open>metrics\<close> and \<open>transport\<close> under \<open>src/internal\<close>.

  \<^bold>\<open>The program.\<close> A server handles gRPC requests. \<open>Publish\<close> and \<open>FetchStream\<close> reach a broker, which
  keeps partitions per topic; a partition queues messages in a batch and flushes them to segment
  files. Consumer groups join, sync, heartbeat and commit offsets through a coordinator, whose
  goroutines rebalance groups and expire silent members. A Raft node elects leaders, replicates
  entries and applies them to a state machine of groups. The server records metrics and
  broadcasts events to WebSocket clients through a hub.

  \<^bold>\<open>Theories, in the order of their imports.\<close>
  \<^item> \<open>Go_Prelude\<close>: wrap-around of \<open>int64\<close> and \<open>int32\<close>, errors, number formatting, and Go maps as
    association lists behind the locale \<open>go_map\<close>.
  \<^item> \<open>Go_Json\<close>, \<open>Json_Decode\<close>: the part of \<open>encoding/json\<close> the program uses, on bytes: the printer, the
    parser as a stack machine over tokens, and \<open>Marshal\<close> and \<open>Unmarshal\<close> for structs of strings,
    integers, slices and maps. The locale \<open>wire_format\<close> is a type that survives both. Lemmas: what
    the printer writes, the parser reads back.
  \<^item> \<open>Go_Files\<close>: the calls of \<open>os\<close> and \<open>io\<close> the storage layer makes, over a file system with a
    schedule of failures and short transfers.
  \<^item> \<open>Record_Codec\<close>, \<open>Segment_Log\<close>: \<open>broker/segment.go\<close>. The record format on bytes; \<open>Append\<close>,
    \<open>Read\<close>, the sparse index. Lemmas: a read returns the messages from an offset up to the budget;
    what failures and torn writes leave of that.
  \<^item> \<open>Partition_Log\<close>: \<open>broker/partition.go\<close> one operation at a time. \<open>part_inv\<close> is the invariant of
    a partition and its files, \<open>refines\<close> relates them to one list of messages.
  \<^item> \<open>Partition_Races\<close>: \<open>Append\<close> and \<open>flush\<close> cut into the steps between their atomic actions and
    locks, under every interleaving and whichever writes fail, with the pool of messages as a heap.
  \<^item> \<open>Broker_Config\<close>, \<open>Broker_Core\<close>, \<open>Broker_Topics\<close>: \<open>broker/config.go\<close> and \<open>broker/broker.go\<close>.
    \<open>broker_inv\<close> lifts the partitions' invariant; \<open>topics_rel\<close> relates a broker to the abstract map
    of topics, one lemma per operation.
  \<^item> \<open>Step_Systems\<close>: reachable states; the locales \<open>invariant_system\<close> and \<open>monotone_system\<close> through
    which the theories below lift invariants.
  \<^item> \<open>Consumer_Group\<close>, \<open>Consumer_Coordinator\<close>: \<open>consumer/group.go\<close> and \<open>consumer/coordinator.go\<close>.
    The methods of a group, a tick of its heartbeat watcher, and \<open>watchGroup\<close> as a program with a
    program counter, interleaved with the methods.
  \<^item> \<open>Raft_Log\<close>, \<open>Raft_Commands\<close>, \<open>Raft_Fsm\<close>, \<open>Raft_Node\<close>: \<open>raft/log.go\<close>, its commands as JSON,
    \<open>raft/fsm.go\<close> with the abstract table of groups it implements, and \<open>raft/node.go\<close>: every handler
    and every case of every loop of a node.
  \<^item> \<open>Raft_Cluster\<close>: elections of all nodes with the messages in flight; election safety.
    \<open>Raft_Replication\<close>: the rounds between a leader and a follower. \<open>Raft_Network\<close>: the cluster with
    the goroutines of \<open>replicateToAll\<close>, whose requests are built, delivered, delayed, repeated and
    lost in any order. \<open>Raft_Wellformed\<close>: the invariant that keeps the handlers of a cluster from
    panicking.
  \<^item> \<open>Metrics_Collector\<close>: \<open>metrics/metrics.go\<close>, with \<open>float64\<close> as rounded binary numbers.
  \<^item> \<open>Ws_Events\<close>, \<open>Ws_Hub\<close>: \<open>transport/ws_server.go\<close>, the text of an event as \<open>json.Marshal\<close> writes
    it, the hub and the pumps of its clients as interleaved steps.
  \<^item> \<open>Grpc_Server\<close>: \<open>transport/grpc_server.go\<close>, every handler, and the server with its goroutines as a
    step relation. \<open>Server_Logs\<close> relates it to the abstract map of topics. \<open>Group_Delivery\<close> puts the
    broker and the coordinator together: clients that follow the protocol, and what a group receives.
  \<^item> This theory: the properties of the server as a whole.

  \<^bold>\<open>Conventions.\<close> A method takes the receiver and returns it updated; the receiver and the results
  form a tuple. Errors are values (\<open>go_error\<close>, \<open>Inl\<close>); \<open>None\<close> is a panic, or an operation that blocks
  where its text says so. Clock readings, random choices and the outcomes of system calls are
  arguments, so theorems hold for all of them. A Go map is a list whose order stands for the
  order of a \<open>range\<close> loop. Integers that are computed with wrap around at their width.

  \<^bold>\<open>Termination and bounds.\<close> The read loop of a segment terminates by the length of what is left of
  the file, \<open>maybeCommit\<close> by the distance to the commit index, the JSON scanner by the bytes left; the parser
  refuses values nested deeper than the 10000 levels of Go. \<open>FetchStream\<close> is a partial function; it
  returns for every clock that moves by at least the 10 ms its loop sleeps. A client that drains a
  partition is given as many rounds as there are messages left plus one, which is enough because a
  fetch below the next offset returns at least one message. \<open>applyLoop\<close> is given a number of rounds;
  the theorems hold for every number, or for every number not below the commit index.
  Theorems about logs ask that offsets stay below \<open>2 ^ 63\<close>.

  \<^bold>\<open>Granularity and failures.\<close> Partitions are verified twice: one operation at a time on files whose
  calls succeed, and with the interleavings of their atomic steps and failing writes. The server's
  theorems about logs build on the former: a request handler runs as one step, so publishes do not
  overlap there, and files do not fail; between requests, single rounds of waiting subscriptions
  (\<open>FetchStream_round\<close>), wake-ups of \<open>batchFlusher\<close> (\<open>Server_flush\<close>) and steps of the other goroutines
  come in any order. What overlapping publishes and failing writes do to a partition is in
  \<open>Partition_Races\<close> and \<open>Segment_Log\<close>. What a handler does to the coordinator and the hub is a
  sequence of their own steps (\<open>moves\<close>), so their invariants also hold for handlers that overlap. A
  Raft handler is one step of a cluster; \<open>concurrent_vote_requests_both_granted\<close> is about two that
  overlap.

  \<^bold>\<open>Not modelled.\<close> The code generated from \<open>src/proto\<close> (message structs are records with the fields
  the handlers use), the gRPC runtime (dialing, \<open>ListenAndServe\<close>, \<open>GracefulStop\<close>, server options),
  the WebSocket protocol with its deadlines and limits, the health endpoint and the CORS headers,
  \<open>log.Printf\<close>, and the web dashboard. The YAML parser of \<open>LoadConfig\<close> and the callback
  \<open>topicPartitionsFn\<close> are parameters of the definitions that use them. The payloads of events are the
  maps of strings and integers the handlers build; no other Go value is marshalled.
\<close>

section \<open>The server as a set of logs\<close>

text \<open>
  C1: a server without topics is started on a file system whose calls succeed. It handles requests
  one at a time (publishes, subscriptions, creation and deletion of topics, group and Raft
  requests); between them, in any order, subscriptions that wait poll once more, \<open>batchFlusher\<close>
  goroutines wake up, and the goroutines of the coordinator and the hub take steps. The values
  published fit the record format, and no topic is created over the segment files of an earlier one.
  Then the server implements the specification that keeps one list of messages per partition: the
  files and batches of every partition hold exactly its list, and the topics listed are the topics
  of the specification. Publishes that overlap and writes that fail are the subject of
  \<open>Partition_Races\<close>.
\<close>

theorem server_refines_logs:
  assumes "reachable traced_init (traced_step io) (s, S)"
  shows "topics_rel (s_fs s) (s_broker s) S \<and> set (Grpc_ListTopics s) = dom S"
proof -
  have rel: "topics_rel (s_fs s) (s_broker s) S"
    using traced.reachable_inv [OF assms] by (simp add: server_rel_def)
  then obtain L where "S = topic_logs (s_broker s) L" by (auto simp: topics_rel_def)
  then have "set (Grpc_ListTopics s) = dom S"
    by (auto simp: Grpc_ListTopics_def ListTopics_complete dom_def simp flip: not_None_eq)
  with rel show ?thesis by simp
qed

text \<open>
  C3: a publish request, handled by a server that was started and run as above. To a partition that
  does not exist it is answered with an error, and the server does not change. To any other it is
  answered with the next offset; the files and batches of the partition then hold the messages
  they held and, behind them, the one published, those of all other partitions hold what they held;
  and a subscription from the offset of the reply is sent exactly the message published, with its
  key, value and time, and the new length as high watermark.
\<close>

theorem publish_appends_to_log:
  assumes "reachable traced_init (traced_step io) (s, S)" "request_ok s S (RqPublish tm req)"
    "Grpc_Publish tm s req = (r, s')"
  shows "case log_at S (pq_Topic req) (pq_Partition req) of
      None \<Rightarrow> (\<exists>e. r = Inl e) \<and> s' = s
    | Some l \<Rightarrow>
        r = Inr \<lparr>pr_Offset = int (length l), pr_Timestamp = t_reply tm, pr_Partition = pq_Partition req\<rparr> \<and>
        (\<exists>S' m. m = \<lparr>m_Offset = int (length l), m_Timestamp = t_append tm, m_Key = pq_Key req, m_Value = pq_Value req\<rparr> \<and>
           reachable traced_init (traced_step io) (s', S') \<and> topics_rel (s_fs s') (s_broker s') S' \<and>
           (\<forall>t i. log_at S' t i =
              (if t = pq_Topic req \<and> i = pq_Partition req then Some (l @ [m]) else log_at S t i)) \<and>
           (\<forall>clk now fq. clock_ok clk \<and> clk 0 < now + stream_wait fq \<and> 0 < stream_budget fq \<and>
              fq_Topic fq = pq_Topic req \<and> fq_Partition fq = pq_Partition req \<and> fq_Offset fq = int (length l) \<longrightarrow>
              (\<exists>s2. FetchStream clk now True s' fq =
                 Some (None, [\<lparr>fr_Messages = [m], fr_HighWatermark = int (length l) + 1\<rparr>], s2))))"
proof -
  let ?S = "server_spec S (RqPublish tm req)"
  have rel: "topics_rel (s_fs s) (s_broker s) S"
    using traced.reachable_inv [OF assms(1)] by (simp add: server_rel_def)
  obtain x b where p: "Broker_Publish (s_broker s) (pq_Topic req) (pq_Partition req) (pq_Key req)
      (pq_Value req) (t_append tm) = (x, b)" by fastforce
  have x: "case log_at S (pq_Topic req) (pq_Partition req) of None \<Rightarrow> (\<exists>e. x = Inl e) \<and> b = s_broker s
      | Some l \<Rightarrow> x = Inr (int (length l))"
    using Publish_topics [OF rel _ _ p] assms(2) by (auto simp: request_ok_def split: option.split)
  have reply: "r = (case x of Inl e \<Rightarrow> Inl e | Inr off \<Rightarrow>
      Inr \<lparr>pr_Offset = off, pr_Timestamp = t_reply tm, pr_Partition = pq_Partition req\<rparr>)"
    "isl x \<Longrightarrow> s' = s\<lparr>s_broker := b\<rparr>"
    using assms(3) p by (auto simp: Grpc_Publish_def Let_def split: sum.splits)
  show ?thesis
  proof (cases "log_at S (pq_Topic req) (pq_Partition req)")
    case None
    then show ?thesis using x reply by auto
  next
    case (Some l)
    let ?m = "\<lparr>m_Offset = int (length l), m_Timestamp = t_append tm, m_Key = pq_Key req, m_Value = pq_Value req\<rparr>"
    have "traced_step io (s, S) (s', ?S)" using assms(2,3) by (intro traced_request) simp_all
    with assms(1) have reach: "reachable traced_init (traced_step io) (s', ?S)" by (rule reach_step)
    then have rel': "topics_rel (s_fs s') (s_broker s') ?S"
      using traced.reachable_inv by (auto simp: server_rel_def)
    have log: "log_at ?S t i =
        (if t = pq_Topic req \<and> i = pq_Partition req then Some (l @ [?m]) else log_at S t i)" for t i
      by (simp add: log_at_publish Some log_step_def)
    have "\<exists>s2. FetchStream clk now True s' fq =
        Some (None, [\<lparr>fr_Messages = [?m], fr_HighWatermark = int (length l) + 1\<rparr>], s2)"
      if q: "clock_ok clk" "clk 0 < now + stream_wait fq" "0 < stream_budget fq" "fq_Topic fq = pq_Topic req"
        "fq_Partition fq = pq_Partition req" "fq_Offset fq = int (length l)" for clk now fq
    proof -
      obtain e rs s2 where f: "FetchStream clk now True s' fq = Some (e, rs, s2)"
        "stream_answer ?S (fq_Topic fq) (fq_Partition fq) (fq_Offset fq) (stream_budget fq)
          (clk 0 < now + stream_wait fq) (e, rs)"
        using FetchStream_traced [OF reach q(1), of now fq] by blast
      then obtain ms where "e = None" "rs = [\<lparr>fr_Messages = ms, fr_HighWatermark = int (length l) + 1\<rparr>]"
        "ms = take (length ms) [?m]" "ms \<noteq> []"
        using q by (auto simp: stream_answer_def log simp del: server_spec.simps)
      moreover from this(3,4) have "ms = [?m]" by (cases ms) auto
      ultimately show ?thesis using f(1) by simp
    qed
    then have "\<exists>S' m. m = ?m \<and>
        reachable traced_init (traced_step io) (s', S') \<and> topics_rel (s_fs s') (s_broker s') S' \<and>
        (\<forall>t i. log_at S' t i =
           (if t = pq_Topic req \<and> i = pq_Partition req then Some (l @ [m]) else log_at S t i)) \<and>
        (\<forall>clk now fq. clock_ok clk \<and> clk 0 < now + stream_wait fq \<and> 0 < stream_budget fq \<and>
           fq_Topic fq = pq_Topic req \<and> fq_Partition fq = pq_Partition req \<and> fq_Offset fq = int (length l) \<longrightarrow>
           (\<exists>s2. FetchStream clk now True s' fq =
              Some (None, [\<lparr>fr_Messages = [m], fr_HighWatermark = int (length l) + 1\<rparr>], s2)))"
      by (intro exI [of _ ?S] exI [of _ ?m] conjI allI impI refl reach rel' log) (elim conjE)
    moreover have "r = Inr \<lparr>pr_Offset = int (length l), pr_Timestamp = t_reply tm, pr_Partition = pq_Partition req\<rparr>"
      using x reply(1) Some by simp
    ultimately show ?thesis unfolding Some option.case by (intro conjI)
  qed
qed

text \<open>
  C2: a subscription returns, and is answered from the list of its partition. For an existing
  partition it sends one response: a contiguous part of the list from the offset asked for, not
  empty if that offset has been published and the deadline has not passed, and the length of the
  list as high watermark. For any other partition it sends nothing. The server was started and run
  as above; the stream accepts the response, and no request is handled while the call lasts (the
  rounds of a call with requests between them are steps of the run).
\<close>

theorem subscriber_reads_the_log:
  assumes "reachable traced_init (traced_step io) (s, S)" "clock_ok clk"
  shows "\<exists>e rs s'. FetchStream clk now True s req = Some (e, rs, s') \<and>
    reachable traced_init (traced_step io) (s', S) \<and>
    (case log_at S (fq_Topic req) (fq_Partition req) of
       None \<Rightarrow> rs = []
     | Some l \<Rightarrow> e = None \<and>
         (\<exists>ms. rs = [\<lparr>fr_Messages = ms, fr_HighWatermark = int (length l)\<rparr>] \<and>
            ms = take (length ms) (drop (nat (fq_Offset req)) l) \<and>
            (ms \<noteq> [] \<longleftrightarrow> clk 0 < now + stream_wait req \<and> 0 < stream_budget req \<and>
               0 \<le> fq_Offset req \<and> fq_Offset req < int (length l))))"
proof -
  obtain e rs s' where f: "FetchStream clk now True s req = Some (e, rs, s')" "traced_step io (s, S) (s', S)"
    "stream_answer S (fq_Topic req) (fq_Partition req) (fq_Offset req) (stream_budget req)
      (clk 0 < now + stream_wait req) (e, rs)"
    using FetchStream_traced [OF assms] by blast
  have "reachable traced_init (traced_step io) (s', S)" using assms(1) f(2) by (rule reach_step)
  then show ?thesis
    using f(1,3) by (auto simp: stream_answer_def split: option.split)
qed

section \<open>Witnesses\<close>

theorem server_refines_logs_witness:
  "set (Grpc_ListTopics (snd (Grpc_CreateTopic [] 0 ex_server ''t'' 1))) = {''t''}"
proof -
  have "dom (spec_create (\<lambda>_. None) ''t'' 1) = {''t''}" by (auto simp: spec_create_def)
  then show ?thesis using server_refines_logs [OF ex_created] by simp
qed

theorem publish_appends_to_log_witness:
  "\<exists>s' S' m. Grpc_Publish ex_times (snd (Grpc_CreateTopic [] 0 ex_server ''t'' 1)) ex_publish =
     (Inr \<lparr>pr_Offset = 0, pr_Timestamp = 7, pr_Partition = 0\<rparr>, s') \<and>
     reachable traced_init (traced_step []) (s', S') \<and> log_at S' ''t'' 0 = Some [m] \<and>
     m_Key m = [1] \<and> m_Value m = [2] \<and>
     (\<exists>s2. FetchStream (\<lambda>k. int k * 10000000) 0 True s' \<lparr>fq_Topic = ''t'', fq_Partition = 0, fq_Offset = 0,
        fq_MaxBytes = 100, fq_MaxWaitMs = 0\<rparr> = Some (None, [\<lparr>fr_Messages = [m], fr_HighWatermark = 1\<rparr>], s2))"
proof -
  let ?s = "snd (Grpc_CreateTopic [] 0 ex_server ''t'' 1)"
  obtain r s' where p: "Grpc_Publish ex_times ?s ex_publish = (r, s')" by fastforce
  have log: "log_at (spec_create (\<lambda>_. None) ''t'' 1) (pq_Topic ex_publish) (pq_Partition ex_publish) = Some []"
    by (simp add: ex_publish_def ex_created_log)
  note P = publish_appends_to_log [OF ex_created ex_publish_ok p, unfolded log option.case list.size(3)]
  obtain S' m where m: "m = \<lparr>m_Offset = int 0, m_Timestamp = t_append ex_times, m_Key = pq_Key ex_publish, m_Value = pq_Value ex_publish\<rparr>"
    "reachable traced_init (traced_step []) (s', S')"
    "\<forall>t i. log_at S' t i = (if t = pq_Topic ex_publish \<and> i = pq_Partition ex_publish then Some ([] @ [m])
       else log_at (spec_create (\<lambda>_. None) ''t'' 1) t i)"
    "\<forall>clk now fq. clock_ok clk \<and> clk 0 < now + stream_wait fq \<and> 0 < stream_budget fq \<and>
       fq_Topic fq = pq_Topic ex_publish \<and> fq_Partition fq = pq_Partition ex_publish \<and> fq_Offset fq = int 0 \<longrightarrow>
       (\<exists>s2. FetchStream clk now True s' fq = Some (None, [\<lparr>fr_Messages = [m], fr_HighWatermark = int 0 + 1\<rparr>], s2))"
    using P by (elim conjE exE) (rule that, assumption+)
  have "\<exists>s2. FetchStream (\<lambda>k. int k * 10000000) 0 True s' \<lparr>fq_Topic = ''t'', fq_Partition = 0, fq_Offset = 0,
      fq_MaxBytes = 100, fq_MaxWaitMs = 0\<rparr> = Some (None, [\<lparr>fr_Messages = [m], fr_HighWatermark = int 0 + 1\<rparr>], s2)"
    by (rule m(4) [rule_format])
      (simp add: clock_ok_def stream_wait_def stream_budget_def i64_id ex_publish_def)
  moreover have "r = Inr \<lparr>pr_Offset = 0, pr_Timestamp = 7, pr_Partition = 0\<rparr>"
    using P by (simp add: ex_times_def ex_publish_def)
  moreover have "log_at S' ''t'' 0 = Some [m]" using m(3) by (simp add: ex_publish_def)
  ultimately show ?thesis
    using p m(1,2) by (intro exI [of _ s'] exI [of _ S'] exI [of _ m]) (simp add: ex_publish_def)
qed

theorem subscriber_reads_the_log_witness:
  "\<exists>s e s' ms. FetchStream (\<lambda>k. int k * 10000000) 0 True s \<lparr>fq_Topic = ''t'', fq_Partition = 0, fq_Offset = 0,
       fq_MaxBytes = 100, fq_MaxWaitMs = 0\<rparr> = Some (e, [\<lparr>fr_Messages = ms, fr_HighWatermark = 1\<rparr>], s') \<and>
     s = snd (Grpc_Publish ex_times (snd (Grpc_CreateTopic [] 0 ex_server ''t'' 1)) ex_publish) \<and>
     ms = [\<lparr>m_Offset = 0, m_Timestamp = 5, m_Key = [1], m_Value = [2]\<rparr>]"
proof -
  let ?a = "snd (Grpc_CreateTopic [] 0 ex_server ''t'' 1)"
  let ?S = "spec_create (\<lambda>_. None) ''t'' 1"
  let ?s = "snd (Grpc_Publish ex_times ?a ex_publish)"
  let ?m = "\<lparr>m_Offset = 0, m_Timestamp = 5, m_Key = [1], m_Value = [2]\<rparr>"
  let ?req = "\<lparr>fq_Topic = ''t'', fq_Partition = 0, fq_Offset = 0, fq_MaxBytes = 100, fq_MaxWaitMs = 0\<rparr>"
  let ?clk = "\<lambda>k. int k * 10000000"
  have "traced_step [] (?a, ?S) (?s, server_spec ?S (RqPublish ex_times ex_publish))"
    by (rule traced_request [where s = ?a, OF ex_publish_ok]) simp
  with ex_created have r: "reachable traced_init (traced_step []) (?s, server_spec ?S (RqPublish ex_times ex_publish))"
    by (rule reach_step)
  have l: "log_at (server_spec ?S (RqPublish ex_times ex_publish)) ''t'' 0 = Some [?m]"
    by (simp add: log_at_publish ex_created_log log_step_def ex_publish_def ex_times_def)
  have "clock_ok ?clk" by (simp add: clock_ok_def)
  from subscriber_reads_the_log [OF r this, of 0 ?req]
  obtain e rs s' ms where f: "FetchStream ?clk 0 True ?s ?req = Some (e, rs, s')"
    "rs = [\<lparr>fr_Messages = ms, fr_HighWatermark = 1\<rparr>]" "ms = take (length ms) [?m]" "ms \<noteq> []"
    by (auto simp: l [simplified] stream_wait_def stream_budget_def i64_id)
  then have "ms = [?m]" by (cases ms) auto
  with f(1,2) show ?thesis by (intro exI [of _ ?s] exI [of _ e] exI [of _ s'] exI [of _ ms]) simp
qed

end
